(* ===== verification/Rhizo_Prelude.thy ===== *)
theory Rhizo_Prelude
  imports Main "HOL-Library.Word" "HOL-Library.Signed_Division"
begin

text \<open>
  The part of the development every component shares: C integers and strings, the heap as the
  code sees it (allocations that may fail, blocks that have to be freed, accesses that may leave
  a block), the operating system the server and the client call, and the generic facts about
  them.

  Heap. Every \<^verbatim>\<open>malloc\<close>, \<^verbatim>\<open>calloc\<close> and \<^verbatim>\<open>strdup\<close> of the code is one \<open>alloc_ok\<close> / \<open>alloc_next\<close>
  pair. Whether it succeeds is read off the script \<open>outcomes\<close> (an empty script means that all
  further allocations succeed), so a theorem that holds for every heap covers every pattern of
  out-of-memory failures. \<open>live\<close> counts the blocks allocated and not yet freed, and \<open>faults\<close>
  records the accesses that are undefined behaviour in C.

  Operating system. POSIX calls are code that is not in the repository: they are the parameter
  \<open>env\<close>, a record of functions on an unconstrained world. \<open>calls\<close> is the trace of the calls the
  code made.
\<close>

named_theorems heap_simps \<open>how allocation and release change the counters of the heap\<close>
named_theorems sys_simps \<open>frame facts of system calls\<close>
named_theorems op_defs \<open>definitions of the operations of a component\<close>

unbundle bit_operations_syntax

section \<open>C scalars and strings\<close>

type_synonym byte = "8 word"
type_synonym mode_t = "32 word"

abbreviation (input) PATH_MAX :: nat where "PATH_MAX \<equiv> 4096"

definition int32 :: "int \<Rightarrow> int" where
  \<comment> \<open>conversion to a 32 bit signed integer\<close>
  "int32 x = signed_take_bit 31 x"

lemma int32_id: "- (2 ^ 31) \<le> x \<Longrightarrow> x < 2 ^ 31 \<Longrightarrow> int32 x = x"
  by (simp add: int32_def signed_take_bit_int_eq_self)

lemma int32_range: "- (2 ^ 31) \<le> int32 x \<and> int32 x < 2 ^ 31"
  unfolding int32_def
  by (metis signed_take_bit_int_greater_eq_minus_exp signed_take_bit_int_less_exp)

lemma int32_minus_one:
  assumes "int32 x = -1"
  shows "x mod 2 ^ 32 = 2 ^ 32 - 1"
proof -
  have "take_bit 32 x = take_bit 32 (int32 x)" by (simp add: int32_def take_bit_signed_take_bit)
  then show ?thesis unfolding assms by (simp add: take_bit_eq_mod)
qed

definition size_t :: "int \<Rightarrow> nat" where
  \<comment> \<open>conversion to a 64 bit unsigned integer\<close>
  "size_t x = nat (x mod 2 ^ 64)"

lemma size_t_of_nat: "n < 2 ^ 64 \<Longrightarrow> size_t (int n) = n"
  unfolding size_t_def by (metis mod_less nat_int of_nat_numeral of_nat_power zmod_int)

lemma size_t_nonneg: "0 \<le> x \<Longrightarrow> x < 2 ^ 64 \<Longrightarrow> size_t x = nat x"
  by (simp add: size_t_def)

text \<open>Error numbers of the C library (Linux) and of ZeroMQ.\<close>

abbreviation (input) EPERM :: int where "EPERM \<equiv> 1"
abbreviation (input) ENOENT :: int where "ENOENT \<equiv> 2"
abbreviation (input) EINTR :: int where "EINTR \<equiv> 4"
abbreviation (input) EIO :: int where "EIO \<equiv> 5"
abbreviation (input) EAGAIN :: int where "EAGAIN \<equiv> 11"
abbreviation (input) ENOMEM :: int where "ENOMEM \<equiv> 12"
abbreviation (input) EACCES :: int where "EACCES \<equiv> 13"
abbreviation (input) EBUSY :: int where "EBUSY \<equiv> 16"
abbreviation (input) EEXIST :: int where "EEXIST \<equiv> 17"
abbreviation (input) ENOTDIR :: int where "ENOTDIR \<equiv> 20"
abbreviation (input) EISDIR :: int where "EISDIR \<equiv> 21"
abbreviation (input) EINVAL :: int where "EINVAL \<equiv> 22"
abbreviation (input) EFBIG :: int where "EFBIG \<equiv> 27"
abbreviation (input) ENOSPC :: int where "ENOSPC \<equiv> 28"
abbreviation (input) ESPIPE :: int where "ESPIPE \<equiv> 29"
abbreviation (input) EROFS :: int where "EROFS \<equiv> 30"
abbreviation (input) ENOTSOCK :: int where "ENOTSOCK \<equiv> 88"
abbreviation (input) ENOTSUP :: int where "ENOTSUP \<equiv> 95"
abbreviation (input) EFSM :: int where "EFSM \<equiv> 156384763"
abbreviation (input) ETERM :: int where "ETERM \<equiv> 156384765"

section \<open>The heap\<close>

datatype fault = Buffer_overflow | Buffer_overread | Use_after_free | Double_free | Null_deref
  | Uninitialised_use | Signed_overflow

record heap =
  outcomes :: "bool list"
  live :: int
  faults :: "fault list"

definition alloc_ok :: "'a heap_scheme \<Rightarrow> bool" where
  "alloc_ok h = (case outcomes h of [] \<Rightarrow> True | b # _ \<Rightarrow> b)"

definition alloc_next :: "'a heap_scheme \<Rightarrow> 'a heap_scheme" where
  "alloc_next h = h\<lparr>outcomes := tl (outcomes h), live := (if alloc_ok h then live h + 1 else live h)\<rparr>"

definition realloc_next :: "'a heap_scheme \<Rightarrow> 'a heap_scheme" where
  \<comment> \<open>a \<^verbatim>\<open>realloc\<close>, whose success is \<open>alloc_ok\<close>: the number of blocks stays the same\<close>
  "realloc_next h = h\<lparr>outcomes := tl (outcomes h)\<rparr>"

definition release :: "int \<Rightarrow> 'a heap_scheme \<Rightarrow> 'a heap_scheme" where
  \<comment> \<open>\<^verbatim>\<open>free\<close> of so many non-null blocks\<close>
  "release n h = h\<lparr>live := live h - n\<rparr>"

definition adopt :: "int \<Rightarrow> 'a heap_scheme \<Rightarrow> 'a heap_scheme" where
  \<comment> \<open>the code becomes the owner of blocks a library allocated\<close>
  "adopt n h = h\<lparr>live := live h + n\<rparr>"

definition add_fault :: "fault \<Rightarrow> 'a heap_scheme \<Rightarrow> 'a heap_scheme" where
  "add_fault f h = h\<lparr>faults := faults h @ [f]\<rparr>"

definition store_upto :: "nat \<Rightarrow> nat \<Rightarrow> 'a heap_scheme \<Rightarrow> 'a heap_scheme" where
  \<comment> \<open>the code writes the first \<open>n\<close> cells of a block of \<open>cap\<close> cells\<close>
  "store_upto cap n h = (if n \<le> cap then h else add_fault Buffer_overflow h)"

definition read_upto :: "nat \<Rightarrow> nat \<Rightarrow> 'a heap_scheme \<Rightarrow> 'a heap_scheme" where
  \<comment> \<open>the code reads the first \<open>n\<close> cells of a block of \<open>cap\<close> cells\<close>
  "read_upto cap n h = (if n \<le> cap then h else add_fault Buffer_overread h)"

lemma live_alloc_next [heap_simps]: "live (alloc_next h) = live h + (if alloc_ok h then 1 else 0)"
  by (simp add: alloc_next_def)

lemma faults_alloc_next [heap_simps]: "faults (alloc_next h) = faults h"
  by (simp add: alloc_next_def)

lemma live_release [heap_simps]: "live (release n h) = live h - n"
  by (simp add: release_def)

lemma faults_release [heap_simps]: "faults (release n h) = faults h"
  by (simp add: release_def)

lemma adopt_simps [heap_simps]:
  "live (adopt n h) = live h + n" "faults (adopt n h) = faults h"
  "outcomes (adopt n h) = outcomes h"
  by (simp_all add: adopt_def)

lemma realloc_next_simps [heap_simps]:
  "live (realloc_next h) = live h" "faults (realloc_next h) = faults h"
  "outcomes (realloc_next h) = tl (outcomes h)"
  by (simp_all add: realloc_next_def)

lemma live_add_fault [heap_simps]: "live (add_fault f h) = live h"
  by (simp add: add_fault_def)

lemma faults_add_fault [heap_simps]: "faults (add_fault f h) = faults h @ [f]"
  by (simp add: add_fault_def)

lemma live_store_upto [heap_simps]: "live (store_upto c n h) = live h"
  by (simp add: store_upto_def add_fault_def)

lemma store_upto_within [heap_simps]: "n \<le> c \<Longrightarrow> store_upto c n h = h"
  by (simp add: store_upto_def)

lemma read_upto_simps [heap_simps]:
  "live (read_upto c n h) = live h" "outcomes (read_upto c n h) = outcomes h"
  "n \<le> c \<Longrightarrow> read_upto c n h = h"
  by (simp_all add: read_upto_def add_fault_def)

lemma store_upto_beyond: "c < n \<Longrightarrow> store_upto c n h = add_fault Buffer_overflow h"
  by (simp add: store_upto_def)

lemma alloc_ok_empty [heap_simps]: "outcomes h = [] \<Longrightarrow> alloc_ok h"
  by (simp add: alloc_ok_def)

lemma outcomes_alloc_next [heap_simps]: "outcomes (alloc_next h) = tl (outcomes h)"
  by (simp add: alloc_next_def)

lemma outcomes_release [heap_simps]: "outcomes (release n h) = outcomes h"
  by (simp add: release_def)

lemma outcomes_add_fault [heap_simps]: "outcomes (add_fault f h) = outcomes h"
  by (simp add: add_fault_def)

lemma outcomes_store_upto [heap_simps]: "outcomes (store_upto c n h) = outcomes h"
  by (simp add: store_upto_def add_fault_def)

lemma release_0 [heap_simps]: "release 0 h = h"
  by (simp add: release_def)

lemma release_release [heap_simps]: "release a (release b h) = release (a + b) h"
  by (simp add: release_def algebra_simps)

lemma release_add_fault: "release n (add_fault f h) = add_fault f (release n h)"
  by (simp add: release_def add_fault_def)

section \<open>The operating system\<close>

record stat =
  st_mode :: mode_t
  st_nlink :: nat
  st_uid :: nat
  st_gid :: nat
  st_size :: int
  st_atim_sec :: int
  st_atim_nsec :: int
  st_mtim_sec :: int
  st_mtim_nsec :: int
  st_ctim_sec :: int
  st_ctim_nsec :: int

definition zero_stat :: stat where
  "zero_stat = \<lparr>st_mode = 0, st_nlink = 0, st_uid = 0, st_gid = 0, st_size = 0,
     st_atim_sec = 0, st_atim_nsec = 0, st_mtim_sec = 0, st_mtim_nsec = 0,
     st_ctim_sec = 0, st_ctim_nsec = 0\<rparr>"

record statvfs =
  f_bsize :: int
  f_frsize :: int
  f_blocks :: int
  f_bfree :: int
  f_bavail :: int
  f_files :: int
  f_ffree :: int
  f_favail :: int
  f_fsid :: int
  f_flag :: int
  f_namemax :: int

datatype syscall =
    Sys_access string mode_t
  | Sys_chmod string mode_t
  | Sys_close int
  | Sys_closedir
  | Sys_creat string mode_t
  | Sys_getgroups nat
  | Sys_getgroups_count
  | Sys_link string string
  | Sys_lstat string
  | Sys_mkdir string mode_t
  | Sys_mknod string mode_t
  | Sys_open string "32 word" mode_t
  | Sys_opendir string
  | Sys_pread int nat int
  | Sys_pwrite int "byte list" int
  | Sys_read int nat
  | Sys_readdir
  | Sys_readlink string nat
  | Sys_rename string string
  | Sys_rewinddir
  | Sys_rmdir string
  | Sys_statvfs string
  | Sys_symlink string string
  | Sys_truncate string int
  | Sys_unlink string
  | Sys_utimes string "(int \<times> int) \<times> (int \<times> int)"

record 'w env =
  \<comment> \<open>\<open>Inl\<close> an error number, \<open>Inr\<close> the result; the world may change either way\<close>
  os_call :: "syscall \<Rightarrow> 'w \<Rightarrow> (int + int) \<times> 'w"
  os_lstat :: "string \<Rightarrow> 'w \<Rightarrow> (int + stat) \<times> 'w"
  os_statvfs :: "string \<Rightarrow> 'w \<Rightarrow> (int + statvfs) \<times> 'w"
  os_readlink :: "string \<Rightarrow> nat \<Rightarrow> 'w \<Rightarrow> (int + string) \<times> 'w"
  os_read :: "syscall \<Rightarrow> 'w \<Rightarrow> (int + byte list) \<times> 'w"
  os_scan :: "'w \<Rightarrow> string list \<times> 'w"
  os_getgroups :: "nat \<Rightarrow> 'w \<Rightarrow> (int + nat list) \<times> 'w"
  os_getuid :: nat
  os_now :: "'w \<Rightarrow> int \<times> int"

record 'w mach = heap +
  errno :: int
  calls :: "syscall list"
  world :: 'w

text \<open>A call made: it enters the trace, and a failure sets \<^verbatim>\<open>errno\<close> (a success leaves it alone).\<close>

definition sys_made :: "syscall \<Rightarrow> (int + 'r) \<times> 'w \<Rightarrow> 'w mach \<Rightarrow> 'w mach" where
  "sys_made c r m = m\<lparr>world := snd r, calls := calls m @ [c],
     errno := (case fst r of Inl e \<Rightarrow> e | Inr _ \<Rightarrow> errno m)\<rparr>"

definition sys_ret :: "'w env \<Rightarrow> syscall \<Rightarrow> 'w mach \<Rightarrow> int" where
  \<comment> \<open>the C return value: -1 for a failure\<close>
  "sys_ret E c m = (case fst (os_call E c (world m)) of Inl _ \<Rightarrow> -1 | Inr r \<Rightarrow> r)"

definition sys_next :: "'w env \<Rightarrow> syscall \<Rightarrow> 'w mach \<Rightarrow> 'w mach" where
  "sys_next E c m = sys_made c (os_call E c (world m)) m"

definition clear_errno :: "'w mach \<Rightarrow> 'w mach" where
  "clear_errno m = m\<lparr>errno := 0\<rparr>"

lemma sys_made_frame [sys_simps]:
  "live (sys_made c r m) = live m" "faults (sys_made c r m) = faults m"
  "outcomes (sys_made c r m) = outcomes m" "calls (sys_made c r m) = calls m @ [c]"
  "world (sys_made c r m) = snd r"
  "errno (sys_made c r m) = (case fst r of Inl e \<Rightarrow> e | Inr _ \<Rightarrow> errno m)"
  by (simp_all add: sys_made_def)

lemma sys_next_frame [sys_simps]:
  "live (sys_next E c m) = live m" "faults (sys_next E c m) = faults m"
  "outcomes (sys_next E c m) = outcomes m" "calls (sys_next E c m) = calls m @ [c]"
  "world (sys_next E c m) = snd (os_call E c (world m))"
  "errno (sys_next E c m) = (case fst (os_call E c (world m)) of Inl e \<Rightarrow> e | Inr _ \<Rightarrow> errno m)"
  by (simp_all add: sys_next_def sys_made_frame)

lemma clear_errno_frame [sys_simps]:
  "live (clear_errno m) = live m" "faults (clear_errno m) = faults m"
  "outcomes (clear_errno m) = outcomes m" "calls (clear_errno m) = calls m"
  "world (clear_errno m) = world m" "errno (clear_errno m) = 0"
  by (simp_all add: clear_errno_def)

lemma heap_ops_frame [sys_simps]:
  fixes m :: "'w mach"
  shows "calls (alloc_next m) = calls m" "calls (release n m) = calls m"
    "calls (add_fault f m) = calls m" "calls (store_upto a b m) = calls m"
    "world (alloc_next m) = world m" "world (release n m) = world m"
    "world (add_fault f m) = world m" "world (store_upto a b m) = world m"
    "errno (alloc_next m) = errno m" "errno (release n m) = errno m"
    "errno (add_fault f m) = errno m" "errno (store_upto a b m) = errno m"
  by (simp_all add: alloc_next_def release_def add_fault_def store_upto_def)

section \<open>Reachability\<close>

text \<open>
  A generic invariant rule for step relations. A component that is a state machine gives its
  initial states, its steps and an inductive invariant, and gets the invariant for every
  reachable state.
\<close>

inductive reach :: "('s \<Rightarrow> bool) \<Rightarrow> ('s \<Rightarrow> 's \<Rightarrow> bool) \<Rightarrow> 's \<Rightarrow> bool" for init step where
  reach_init: "init s \<Longrightarrow> reach init step s"
| reach_step: "reach init step s \<Longrightarrow> step s t \<Longrightarrow> reach init step t"

locale invariant_system =
  fixes init :: "'s \<Rightarrow> bool" and step :: "'s \<Rightarrow> 's \<Rightarrow> bool" and inv :: "'s \<Rightarrow> bool"
  assumes inv_init: "init s \<Longrightarrow> inv s"
    and inv_step: "inv s \<Longrightarrow> step s t \<Longrightarrow> inv t"
begin

lemma inv_reach: "reach init step s \<Longrightarrow> inv s"
  by (induction rule: reach.induct) (auto intro: inv_init inv_step)

end

section \<open>A quiet system\<close>

text \<open>
  An environment in which every call succeeds and nothing is read, and a machine with no
  pending allocation failures: the concrete instance the witnesses run on.
\<close>

definition quiet_env :: "unit env" where
  "quiet_env = \<lparr>os_call = (\<lambda>_ w. (Inr 0, w)), os_lstat = (\<lambda>_ w. (Inr zero_stat, w)),
     os_statvfs = (\<lambda>_ w. (Inl 38, w)), os_readlink = (\<lambda>_ _ w. (Inr [], w)),
     os_read = (\<lambda>_ w. (Inr [], w)), os_scan = (\<lambda>w. ([], w)),
     os_getgroups = (\<lambda>_ w. (Inr [], w)), os_getuid = 0, os_now = (\<lambda>_. (0, 0))\<rparr>"

definition quiet_heap :: heap where
  "quiet_heap = \<lparr>outcomes = [], live = 0, faults = []\<rparr>"

definition quiet_mach :: "unit mach" where
  "quiet_mach = \<lparr>outcomes = [], live = 0, faults = [], errno = 0, calls = [], world = ()\<rparr>"

end
