(* ===== verification/Rhizo_Wire.thy ===== *)
theory Rhizo_Wire
  imports Rhizo_Prelude
begin

text \<open>
  The messages of \<^verbatim>\<open>src/proto/rhizofs.proto\<close>, as the structs protobuf-c generates from it.
  A sub-message or string pointer that may be NULL is an \<open>option\<close>; a scalar with a
  \<^verbatim>\<open>has_\<close> companion that the code always consults is an \<open>option\<close> too. An enum that
  arrives with a number the schema does not list is its \<open>unlisted\<close> constructor.
\<close>

datatype request_type =
    STAT | MKDIR | UNKNOWN | PING | READDIR | INVALID | RMDIR | UNLINK | ACCESS | RENAME
  | GETATTR | OPEN | READ | WRITE | CREATE | TRUNCATE | CHMOD | UTIMENS | LINK | SYMLINK
  | READLINK | MKNOD | STATFS | RT_unlisted int

datatype rhizo_errno =
    ERRNO_NONE | ERRNO_UNKNOWN | ERRNO_PERM | ERRNO_NOENT | ERRNO_NOMEM | ERRNO_ACCES
  | ERRNO_BUSY | ERRNO_EXIST | ERRNO_NOTDIR | ERRNO_ISDIR | ERRNO_INVAL | ERRNO_FBIG
  | ERRNO_NOSPC | ERRNO_ROFS | ERRNO_SPIPE | ERRNO_INVALID_REQUEST | ERRNO_UNSERIALIZABLE
  | ERRNO_unlisted int

datatype compression_type = COMPR_NONE | COMPR_LZ4 | COMPR_unlisted int

datatype file_type =
    FT_DIRECTORY | FT_CHARACTER_DEVICE | FT_BLOCK_DEVICE | FT_REGULAR_FILE | FT_FIFO
  | FT_SOCKET | FT_SYMLINK | FT_unlisted int

record version =
  v_major :: int
  v_minor :: int
  v_patch :: int

record permission_set =
  ps_read :: bool
  ps_write :: bool
  ps_execute :: bool

record permissions =
  p_owner :: "permission_set option"
  p_group :: "permission_set option"
  p_world :: "permission_set option"

record open_flags =
  of_rdonly :: bool
  of_wronly :: bool
  of_rdwr :: bool
  of_creat :: bool
  of_excl :: bool
  of_trunc :: bool
  of_append :: bool

text \<open>The \<^verbatim>\<open>has_\<close> flags of the microsecond fields are written but never read by the code.\<close>

record time_set =
  ts_access_sec :: int
  ts_modify_sec :: int
  ts_creation_sec :: int
  ts_has_creation_sec :: bool
  ts_access_usec :: int
  ts_modify_usec :: int
  ts_creation_usec :: int
  ts_has_access_usec :: bool
  ts_has_modify_usec :: bool
  ts_has_creation_usec :: bool

text \<open>\<open>db_data\<close> is the \<^verbatim>\<open>data\<close> pointer with its length: the empty list is the NULL pointer.\<close>

record data_block =
  db_size :: int
  db_data :: "byte list"
  db_compression :: compression_type

record attrs =
  a_size :: int
  a_is_owner :: bool
  a_is_in_group :: bool
  a_timestamps :: "time_set option"
  a_filetype :: file_type
  a_permissions :: "permissions option"
  a_name :: "string option"

record stat_fs =
  sf_bsize :: int
  sf_frsize :: int
  sf_blocks :: int
  sf_bfree :: int
  sf_bavail :: int
  sf_files :: int
  sf_ffree :: int
  sf_favail :: int
  sf_fsid :: int
  sf_flag :: int
  sf_namemax :: int

record request =
  rq_type :: request_type
  rq_version :: "version option"
  rq_path :: "string option"
  rq_permissions :: "permissions option"
  rq_path_to :: "string option"
  rq_openflags :: "open_flags option"
  rq_datablock :: "data_block option"
  rq_size :: "int option"
  rq_offset :: "int option"
  rq_filetype :: "file_type option"
  rq_timestamps :: "time_set option"

text \<open>
  \<open>rs_entries\<close> are the \<^verbatim>\<open>n_directory_entries\<close> first cells of the array
  \<^verbatim>\<open>directory_entries\<close>, \<open>rs_entries_block\<close> tells whether that array was allocated, and
  \<open>rs_entries_freed\<close> whether the array and its attributes have been freed while the response
  still points to them.
\<close>

record response =
  rs_type :: request_type
  rs_version :: "version option"
  rs_errnotype :: rhizo_errno
  rs_entries :: "attrs list"
  rs_entries_block :: bool
  rs_entries_freed :: bool
  rs_attrs :: "attrs option"
  rs_datablock :: "data_block option"
  rs_size :: "int option"
  rs_link_target :: "string option"
  rs_statfs :: "stat_fs option"

section \<open>Heap blocks a message owns\<close>

definition of_opt :: "('a \<Rightarrow> int) \<Rightarrow> 'a option \<Rightarrow> int" where
  "of_opt f x = (case x of None \<Rightarrow> 0 | Some y \<Rightarrow> f y)"

lemma of_opt_simps [simp]: "of_opt f None = 0" "of_opt f (Some y) = f y"
  by (simp_all add: of_opt_def)

definition permissions_blocks :: "permissions \<Rightarrow> int" where
  "permissions_blocks p = 1 + of_opt (\<lambda>_. 1) (p_owner p) + of_opt (\<lambda>_. 1) (p_group p)
     + of_opt (\<lambda>_. 1) (p_world p)"

definition attrs_blocks :: "attrs \<Rightarrow> int" where
  "attrs_blocks a = 1 + of_opt permissions_blocks (a_permissions a)
     + of_opt (\<lambda>_. 1) (a_timestamps a) + of_opt (\<lambda>_. 1) (a_name a)"

definition data_block_blocks :: "data_block \<Rightarrow> int" where
  "data_block_blocks d = 1 + (if db_data d = [] then 0 else 1)"

text \<open>Everything a response holds, whether or not the code that destroys it frees it.\<close>

definition response_blocks :: "response \<Rightarrow> int" where
  "response_blocks r = 1 + of_opt (\<lambda>_. 1) (rs_version r)
     + (if rs_entries_freed r then 0 else sum_list (map attrs_blocks (rs_entries r))
          + (if rs_entries_block r then 1 else 0))
     + of_opt attrs_blocks (rs_attrs r)
     + of_opt data_block_blocks (rs_datablock r) + of_opt (\<lambda>_. 1) (rs_link_target r)
     + of_opt (\<lambda>_. 1) (rs_statfs r)"

end
