(* ===== verification/Rhizo_SocketPool.thy ===== *)
theory Rhizo_SocketPool
  imports Rhizo_Wire
begin

text \<open>
  Model of \<^verbatim>\<open>src/fs/socketpool.c\<close>: the ZeroMQ sockets of the client, one for every thread.

  ZeroMQ, pthreads and the part of libfuse the client asks while it waits are outside the
  repository: they are the parameter \<open>zmq_env\<close>, functions on an unconstrained world whose
  result is \<open>Inl\<close> an error number or \<open>Inr\<close> a value. What the model keeps itself is what the
  documentation of these calls promises about handles: \<^verbatim>\<open>zmq_socket\<close> gives a handle that is not
  in use, \<^verbatim>\<open>zmq_close\<close> makes it unusable, a use after that is undefined. \<open>n_sockets\<close> holds the
  open sockets with the options and the endpoint the code gave them, and \<open>n_sent\<close> the requests
  ZeroMQ accepted. The thread-specific value of the pool's key is \<open>sp_specific\<close>.

  What is proved: every thread has at most one socket and it is its own, open, connected and
  encrypted when a key is configured; no socket is lost; what a second \<open>SocketPool_deinit\<close> does.
\<close>

named_theorems net_simps \<open>frame facts of the operations on sockets\<close>

section \<open>ZeroMQ\<close>

datatype zoption =
    Sndhwm nat | Rcvhwm nat | Linger nat
  | Curve_serverkey string | Curve_publickey string | Curve_secretkey string

datatype zcall =
    Z_init
  | Z_socket nat int
  | Z_setsockopt nat zoption
  | Z_connect nat string
  | Z_key_create
  | Z_setspecific nat "nat option"
  | Z_send nat request
  | Z_msg_init
  | Z_msg_close
  | Z_usleep nat
  | Z_poll nat int
  | Z_fuse_interrupted
  | Z_fuse_exited
  | Z_filler string

record 'w zmq_env =
  z_call :: "zcall \<Rightarrow> 'w \<Rightarrow> (int + int) \<times> 'w"
  z_recv :: "nat \<Rightarrow> 'w \<Rightarrow> (int + response option) \<times> 'w"
  z_time :: "'w \<Rightarrow> int"
  z_gettimeofday :: "'w \<Rightarrow> int \<times> int"
  z_uid :: "'w \<Rightarrow> nat"
  z_gid :: "'w \<Rightarrow> nat"

record zsocket =
  zs_type :: int
  zs_options :: "zoption list"
  zs_endpoint :: "string option"

record 'w net = heap +
  n_errno :: int
  n_world :: 'w
  n_sockets :: "nat \<Rightarrow> zsocket option"
  n_next :: nat
  n_sent :: "(nat \<times> request) list"

definition z_ret :: "'w zmq_env \<Rightarrow> zcall \<Rightarrow> ('w, 'b) net_scheme \<Rightarrow> int + int" where
  "z_ret E c m = fst (z_call E c (n_world m))"

definition z_next :: "'w zmq_env \<Rightarrow> zcall \<Rightarrow> ('w, 'b) net_scheme \<Rightarrow> ('w, 'b) net_scheme" where
  "z_next E c m = m\<lparr>n_world := snd (z_call E c (n_world m)),
     n_errno := (case fst (z_call E c (n_world m)) of Inl e \<Rightarrow> e | Inr _ \<Rightarrow> n_errno m)\<rparr>"

definition failed :: "int + int \<Rightarrow> bool" where
  "failed r = (case r of Inl _ \<Rightarrow> True | Inr _ \<Rightarrow> False)"

definition reset_errno :: "('w, 'b) net_scheme \<Rightarrow> ('w, 'b) net_scheme" where
  \<comment> \<open>what the \<^verbatim>\<open>check\<close> macros do before they jump to \<^verbatim>\<open>error\<close>\<close>
  "reset_errno m = m\<lparr>n_errno := 0\<rparr>"

definition zmq_socket :: "'w zmq_env \<Rightarrow> nat \<Rightarrow> int \<Rightarrow> ('w, 'b) net_scheme
    \<Rightarrow> nat option \<times> ('w, 'b) net_scheme" where
  "zmq_socket E ctx type m =
     (let m1 = z_next E (Z_socket ctx type) m in
      if failed (z_ret E (Z_socket ctx type) m) then (None, m1)
      else (Some (n_next m), m1\<lparr>n_next := Suc (n_next m),
              n_sockets := (n_sockets m)(n_next m \<mapsto> \<lparr>zs_type = type, zs_options = [], zs_endpoint = None\<rparr>)\<rparr>))"

definition touch_socket :: "nat \<Rightarrow> ('w, 'b) net_scheme \<Rightarrow> ('w, 'b) net_scheme" where
  "touch_socket s m = (if n_sockets m s = None then add_fault Use_after_free m else m)"

definition zmq_close :: "nat \<Rightarrow> ('w, 'b) net_scheme \<Rightarrow> ('w, 'b) net_scheme" where
  "zmq_close s m = (let m1 = touch_socket s m in m1\<lparr>n_sockets := (n_sockets m1)(s := None)\<rparr>)"

definition zmq_setsockopt :: "'w zmq_env \<Rightarrow> nat \<Rightarrow> zoption \<Rightarrow> ('w, 'b) net_scheme
    \<Rightarrow> bool \<times> ('w, 'b) net_scheme" where
  "zmq_setsockopt E s opt m =
     (let m1 = z_next E (Z_setsockopt s opt) (touch_socket s m) in
      if failed (z_ret E (Z_setsockopt s opt) m) then (False, m1)
      else (True, m1\<lparr>n_sockets := (n_sockets m1)(s := map_option (zs_options_update (\<lambda>os. os @ [opt])) (n_sockets m1 s))\<rparr>))"

definition zmq_connect :: "'w zmq_env \<Rightarrow> nat \<Rightarrow> string \<Rightarrow> ('w, 'b) net_scheme
    \<Rightarrow> bool \<times> ('w, 'b) net_scheme" where
  "zmq_connect E s endpoint m =
     (let m1 = z_next E (Z_connect s endpoint) (touch_socket s m) in
      if failed (z_ret E (Z_connect s endpoint) m) then (False, m1)
      else (True, m1\<lparr>n_sockets := (n_sockets m1)(s := map_option (zs_endpoint_update (\<lambda>_. Some endpoint)) (n_sockets m1 s))\<rparr>))"

section \<open>The pool\<close>

text \<open>\<open>sp_name_freed\<close>: the name has been freed while the pool still points to it.\<close>

record socket_pool =
  sp_key :: nat
  sp_context :: nat
  sp_socket_name :: "string option"
  sp_name_freed :: bool
  sp_socket_type :: int
  sp_client_public_key :: "string option"
  sp_client_secret_key :: "string option"
  sp_server_public_key :: "string option"
  sp_specific :: "nat \<Rightarrow> nat option"

definition zero_pool :: socket_pool where
  "zero_pool = \<lparr>sp_key = 0, sp_context = 0, sp_socket_name = None, sp_name_freed = False,
     sp_socket_type = 0, sp_client_public_key = None, sp_client_secret_key = None,
     sp_server_public_key = None, sp_specific = (\<lambda>_. None)\<rparr>"

definition SocketPool_socket_destroy :: "nat option \<Rightarrow> ('w, 'b) net_scheme \<Rightarrow> ('w, 'b) net_scheme" where
  "SocketPool_socket_destroy sock m = (case sock of None \<Rightarrow> m | Some s \<Rightarrow> zmq_close s m)"

definition free_socket_name :: "socket_pool \<Rightarrow> 'a heap_scheme \<Rightarrow> socket_pool \<times> 'a heap_scheme" where
  \<comment> \<open>\<^verbatim>\<open>if (sp->socket_name != NULL) free(sp->socket_name)\<close>: the pointer stays\<close>
  "free_socket_name sp h =
     (if sp_socket_name sp = None then (sp, h)
      else if sp_name_freed sp then (sp, add_fault Double_free h)
      else (sp\<lparr>sp_name_freed := True\<rparr>, release 1 h))"

definition SocketPool_init :: "'w zmq_env \<Rightarrow> nat \<Rightarrow> string \<Rightarrow> int \<Rightarrow> ('w, 'b) net_scheme
    \<Rightarrow> bool \<times> socket_pool \<times> ('w, 'b) net_scheme" where
  \<comment> \<open>the key that is created is the value of the call\<close>
  "SocketPool_init E ctx socket_name socket_type m =
     (if \<not> alloc_ok m then (False, zero_pool, reset_errno (alloc_next m))
      else let
        m1 = alloc_next m;
        sp = zero_pool\<lparr>sp_socket_name := Some socket_name, sp_socket_type := socket_type,
                       sp_context := ctx\<rparr>;
        m2 = z_next E Z_key_create m1
      in case z_ret E Z_key_create m1 of
           Inl _ \<Rightarrow> (let (sp1, m3) = free_socket_name sp (reset_errno m2) in (False, sp1, m3))
         | Inr key \<Rightarrow> (True, sp\<lparr>sp_key := nat key\<rparr>, m2))"

definition SocketPool_set_server_public_key :: "string \<Rightarrow> socket_pool \<Rightarrow> socket_pool" where
  "SocketPool_set_server_public_key key sp = sp\<lparr>sp_server_public_key := Some key\<rparr>"

definition SocketPool_set_client_keypair :: "string \<Rightarrow> string \<Rightarrow> socket_pool \<Rightarrow> socket_pool" where
  "SocketPool_set_client_keypair public_key secret_key sp =
     sp\<lparr>sp_client_public_key := Some public_key, sp_client_secret_key := Some secret_key\<rparr>"

text \<open>Deleting the key forgets the values of all threads without running their destructor.\<close>

definition SocketPool_deinit :: "socket_pool \<Rightarrow> 'a heap_scheme \<Rightarrow> socket_pool \<times> 'a heap_scheme" where
  "SocketPool_deinit sp h =
     (let (sp1, h1) = free_socket_name sp h in
      (if sp_key sp1 \<noteq> 0 then sp1\<lparr>sp_specific := (\<lambda>_. None)\<rparr> else sp1, h1))"

definition SocketPool_renew_socket :: "'w zmq_env \<Rightarrow> nat \<Rightarrow> socket_pool \<Rightarrow> ('w, 'b) net_scheme
    \<Rightarrow> socket_pool \<times> ('w, 'b) net_scheme" where
  \<comment> \<open>in thread \<open>t\<close>\<close>
  "SocketPool_renew_socket E t sp m =
     (case sp_specific sp t of
        None \<Rightarrow> (sp, m)
      | Some s \<Rightarrow>
          (let m1 = zmq_close s m; c = Z_setspecific t None in
           (if failed (z_ret E c m1) then sp else sp\<lparr>sp_specific := (sp_specific sp)(t := None)\<rparr>,
            z_next E c m1)))"

text \<open>
  \<^verbatim>\<open>zmq_setsockopt\<close> with a key reads 40 bytes of the string, whatever its length.
\<close>

definition set_key :: "'w zmq_env \<Rightarrow> nat \<Rightarrow> (string \<Rightarrow> zoption) \<Rightarrow> string \<Rightarrow> ('w, 'b) net_scheme
    \<Rightarrow> bool \<times> ('w, 'b) net_scheme" where
  "set_key E s opt key m =
     zmq_setsockopt E s (opt (take 40 key)) (read_upto (length key + 1) 40 m)"

definition create_socket :: "'w zmq_env \<Rightarrow> nat \<Rightarrow> int \<Rightarrow> string option \<Rightarrow> string option \<Rightarrow> string option
    \<Rightarrow> ('w, 'b) net_scheme \<Rightarrow> nat option \<times> ('w, 'b) net_scheme" where
  "create_socket E ctx type server_public_key client_public_key client_secret_key m =
     (case zmq_socket E ctx type m of
        (None, m1) \<Rightarrow> (None, reset_errno m1)
      | (Some s, m1) \<Rightarrow>
         (let
            (_, m2) = zmq_setsockopt E s (Sndhwm 1) m1;
            (_, m3) = zmq_setsockopt E s (Rcvhwm 1) m2;
            (_, m4) = zmq_setsockopt E s (Linger 0) m3
          in case server_public_key of
               None \<Rightarrow> (Some s, m4)
             | Some spk \<Rightarrow>
                 (case (client_public_key, client_secret_key) of
                    (Some cpk, Some csk) \<Rightarrow>
                      (let (ok1, m5) = set_key E s Curve_serverkey spk m4 in
                       if \<not> ok1 then (None, zmq_close s (reset_errno m5))
                       else let (ok2, m6) = set_key E s Curve_publickey cpk m5 in
                       if \<not> ok2 then (None, zmq_close s (reset_errno m6))
                       else let (ok3, m7) = set_key E s Curve_secretkey csk m6 in
                       if \<not> ok3 then (None, zmq_close s (reset_errno m7))
                       else (Some s, m7))
                  | _ \<Rightarrow> (None, zmq_close s (reset_errno m4)))))"

definition SocketPool_get_socket :: "'w zmq_env \<Rightarrow> nat \<Rightarrow> socket_pool \<Rightarrow> ('w, 'b) net_scheme
    \<Rightarrow> nat option \<times> socket_pool \<times> ('w, 'b) net_scheme" where
  "SocketPool_get_socket E t sp m =
     (case sp_specific sp t of
        Some s \<Rightarrow> (Some s, sp, m)
      | None \<Rightarrow>
         (case create_socket E (sp_context sp) (sp_socket_type sp) (sp_server_public_key sp)
                 (sp_client_public_key sp) (sp_client_secret_key sp) m of
            (None, m1) \<Rightarrow> (None, sp, reset_errno m1)
          | (Some s, m1) \<Rightarrow>
             (case sp_socket_name sp of
                None \<Rightarrow> (None, sp, SocketPool_socket_destroy (Some s) (reset_errno (add_fault Null_deref m1)))
              | Some name \<Rightarrow>
                 (let (connected, m2) = zmq_connect E s name
                        (if sp_name_freed sp then add_fault Use_after_free m1 else m1) in
                  if \<not> connected then (None, sp, SocketPool_socket_destroy (Some s) (reset_errno m2))
                  else let c = Z_setspecific t (Some s); m3 = z_next E c m2 in
                  if failed (z_ret E c m2) then (None, sp, SocketPool_socket_destroy (Some s) (reset_errno m3))
                  else (Some s, sp\<lparr>sp_specific := (sp_specific sp)(t \<mapsto> s)\<rparr>, m3)))))"

section \<open>Frame facts\<close>

lemma z_next_frame [net_simps]:
  "live (z_next E c m) = live m" "faults (z_next E c m) = faults m" "outcomes (z_next E c m) = outcomes m"
  "n_sockets (z_next E c m) = n_sockets m" "n_next (z_next E c m) = n_next m" "n_sent (z_next E c m) = n_sent m"
  by (simp_all add: z_next_def)

lemma reset_errno_frame [net_simps]:
  "live (reset_errno m) = live m" "faults (reset_errno m) = faults m" "outcomes (reset_errno m) = outcomes m"
  "n_sockets (reset_errno m) = n_sockets m" "n_next (reset_errno m) = n_next m"
  "n_sent (reset_errno m) = n_sent m" "n_world (reset_errno m) = n_world m" "n_errno (reset_errno m) = 0"
  by (simp_all add: reset_errno_def)

lemma heap_net_frame [net_simps]:
  fixes m :: "('w, 'b) net_scheme"
  shows "n_sockets (add_fault f m) = n_sockets m" "n_next (add_fault f m) = n_next m"
    "n_sent (add_fault f m) = n_sent m"
    "n_sockets (read_upto a b m) = n_sockets m" "n_next (read_upto a b m) = n_next m"
    "n_sent (read_upto a b m) = n_sent m"
    "n_sockets (alloc_next m) = n_sockets m" "n_next (alloc_next m) = n_next m"
    "n_sent (alloc_next m) = n_sent m"
    "n_sockets (release k m) = n_sockets m" "n_next (release k m) = n_next m"
    "n_sent (release k m) = n_sent m"
  by (simp_all add: add_fault_def read_upto_def alloc_next_def release_def)

lemma touch_socket_open [net_simps]: "n_sockets m s \<noteq> None \<Longrightarrow> touch_socket s m = m"
  by (auto simp: touch_socket_def)

lemma zmq_close_frame [net_simps]:
  assumes "n_sockets m s \<noteq> None"
  shows "live (zmq_close s m) = live m" "faults (zmq_close s m) = faults m"
    "outcomes (zmq_close s m) = outcomes m" "n_next (zmq_close s m) = n_next m"
    "n_sent (zmq_close s m) = n_sent m" "n_sockets (zmq_close s m) = (n_sockets m)(s := None)"
  using assms by (auto simp: zmq_close_def touch_socket_def)

text \<open>Setting an option of an open socket changes at most the options of that socket.\<close>

lemma zmq_setsockopt_cases:
  assumes "n_sockets m s = Some z"
  obtains
    (fail) m' where "zmq_setsockopt E s opt m = (False, m')" "n_sockets m' = n_sockets m"
      "live m' = live m" "faults m' = faults m" "outcomes m' = outcomes m" "n_next m' = n_next m" "n_sent m' = n_sent m"
  | (ok) m' where "zmq_setsockopt E s opt m = (True, m')"
      "n_sockets m' = (n_sockets m)(s \<mapsto> z\<lparr>zs_options := zs_options z @ [opt]\<rparr>)"
      "live m' = live m" "faults m' = faults m" "outcomes m' = outcomes m" "n_next m' = n_next m" "n_sent m' = n_sent m"
proof (cases "failed (z_ret E (Z_setsockopt s opt) m)")
  case True
  with assms show thesis
    by (intro fail [of "z_next E (Z_setsockopt s opt) m"])
       (simp_all add: zmq_setsockopt_def Let_def net_simps)
next
  case False
  with assms show thesis
    by (intro ok [of "snd (zmq_setsockopt E s opt m)"]; cases z)
       (simp_all add: zmq_setsockopt_def Let_def net_simps)
qed

definition same_but :: "nat \<Rightarrow> ('w, 'b) net_scheme \<Rightarrow> ('w, 'b) net_scheme \<Rightarrow> bool" where
  \<comment> \<open>only the socket \<open>s\<close>, the world and \<^verbatim>\<open>errno\<close> have changed\<close>
  "same_but s m m' \<longleftrightarrow> live m' = live m \<and> outcomes m' = outcomes m \<and> n_next m' = n_next m
     \<and> n_sent m' = n_sent m \<and> (\<forall>s'. s' \<noteq> s \<longrightarrow> n_sockets m' s' = n_sockets m s')"

definition socket_is :: "nat \<Rightarrow> int \<Rightarrow> string option \<Rightarrow> zoption set \<Rightarrow> ('w, 'b) net_scheme \<Rightarrow> bool" where
  \<comment> \<open>the socket is open, of that type and connection, and has at least these options\<close>
  "socket_is s type endpoint opts m \<longleftrightarrow> (\<exists>z. n_sockets m s = Some z \<and> zs_type z = type
     \<and> zs_endpoint z = endpoint \<and> opts \<subseteq> set (zs_options z))"

lemma socket_is_open: "socket_is s ty ep opts m \<Longrightarrow> n_sockets m s \<noteq> None"
  by (auto simp: socket_is_def)

lemma setsockopt_step:
  assumes "socket_is s ty ep opts m" "same_but s m0 m" "zmq_setsockopt E s opt m = (b, m')"
  shows "socket_is s ty ep (if b then insert opt opts else opts) m'" "same_but s m0 m'" "faults m' = faults m"
proof -
  obtain z where z: "n_sockets m s = Some z" "zs_type z = ty" "zs_endpoint z = ep" "opts \<subseteq> set (zs_options z)"
    using assms(1) by (auto simp: socket_is_def)
  show "socket_is s ty ep (if b then insert opt opts else opts) m'" "same_but s m0 m'" "faults m' = faults m"
    using assms(2,3) z
    by (cases rule: zmq_setsockopt_cases [OF z(1), of E opt]; auto simp: socket_is_def same_but_def)+
qed

lemma set_key_step:
  assumes "socket_is s ty ep opts m" "same_but s m0 m" "set_key E s opt key m = (b, m')"
  shows "socket_is s ty ep (if b then insert (opt (take 40 key)) opts else opts) m'" "same_but s m0 m'"
    "39 \<le> length key \<Longrightarrow> faults m' = faults m"
proof -
  let ?m = "read_upto (length key + 1) 40 m"
  have "socket_is s ty ep opts ?m" "same_but s m0 ?m"
    using assms(1,2) by (simp_all add: socket_is_def same_but_def net_simps heap_simps)
  from setsockopt_step [OF this assms(3) [unfolded set_key_def]]
  show "socket_is s ty ep (if b then insert (opt (take 40 key)) opts else opts) m'" "same_but s m0 m'"
    "39 \<le> length key \<Longrightarrow> faults m' = faults m"
    by (simp_all add: heap_simps)
qed

definition curve_options :: "string option \<Rightarrow> string option \<Rightarrow> string option \<Rightarrow> zoption set" where
  \<comment> \<open>the options of an encrypted connection, when a server key is configured\<close>
  "curve_options spk cpk csk =
     (case (spk, cpk, csk) of
        (Some a, Some b, Some c) \<Rightarrow>
          {Curve_serverkey (take 40 a), Curve_publickey (take 40 b), Curve_secretkey (take 40 c)}
      | _ \<Rightarrow> {})"

definition keys_long :: "string option \<Rightarrow> string option \<Rightarrow> string option \<Rightarrow> bool" where
  "keys_long spk cpk csk \<longleftrightarrow> (\<forall>k \<in> set_option spk \<union> set_option cpk \<union> set_option csk. 39 \<le> length k)"

lemma create_socket_cases:
  obtains
    (fail) m' where "create_socket E ctx ty spk cpk csk m = (None, m')" "live m' = live m"
      "outcomes m' = outcomes m" "n_sent m' = n_sent m" "n_next m \<le> n_next m'"
      "n_sockets m (n_next m) = None \<Longrightarrow> n_sockets m' = n_sockets m"
      "keys_long spk cpk csk \<Longrightarrow> faults m' = faults m"
  | (ok) m' where "create_socket E ctx ty spk cpk csk m = (Some (n_next m), m')" "live m' = live m"
      "outcomes m' = outcomes m" "n_sent m' = n_sent m" "n_next m' = Suc (n_next m)"
      "\<forall>s'. s' \<noteq> n_next m \<longrightarrow> n_sockets m' s' = n_sockets m s'"
      "socket_is (n_next m) ty None (curve_options spk cpk csk) m'"
      "spk \<noteq> None \<longrightarrow> cpk \<noteq> None \<and> csk \<noteq> None"
      "keys_long spk cpk csk \<Longrightarrow> faults m' = faults m"
proof (cases "failed (z_ret E (Z_socket ctx ty) m)")
  case True
  then show thesis
    by (intro fail [of "reset_errno (z_next E (Z_socket ctx ty) m)"])
       (simp_all add: create_socket_def zmq_socket_def Let_def net_simps)
next
  case False
  define s where "s = n_next m"
  obtain m1 where m1: "zmq_socket E ctx ty m = (Some s, m1)" "live m1 = live m" "outcomes m1 = outcomes m"
    "n_sent m1 = n_sent m" "n_next m1 = Suc s" "faults m1 = faults m" "socket_is s ty None {} m1"
    "\<forall>s'. s' \<noteq> s \<longrightarrow> n_sockets m1 s' = n_sockets m s'"
    using False by (simp add: zmq_socket_def Let_def net_simps s_def socket_is_def)
  have sb1: "same_but s m1 m1" by (simp add: same_but_def)
  obtain b2 m2 where e2: "zmq_setsockopt E s (Sndhwm 1) m1 = (b2, m2)" by fastforce
  note k2 = setsockopt_step [OF m1(7) sb1 e2]
  obtain b3 m3 where e3: "zmq_setsockopt E s (Rcvhwm 1) m2 = (b3, m3)" by fastforce
  note k3 = setsockopt_step [OF k2(1,2) e3]
  obtain b4 m4 where e4: "zmq_setsockopt E s (Linger 0) m3 = (b4, m4)" by fastforce
  note k4 = setsockopt_step [OF k3(1,2) e4]
  have s4: "socket_is s ty None {} m4" using k4(1) by (auto simp: socket_is_def)
  have f4: "faults m4 = faults m" using k2(3) k3(3) k4(3) m1(6) by simp
  note start = create_socket_def [of E ctx ty spk cpk csk m,
      unfolded m1(1) prod.case option.case Let_def e2 e3 e4]
  have closed: thesis
    if "create_socket E ctx ty spk cpk csk m = (None, zmq_close s (reset_errno m'))"
      "socket_is s ty None opts m'" "same_but s m1 m'" "keys_long spk cpk csk \<Longrightarrow> faults m' = faults m" for m' opts
    using that m1 socket_is_open [OF that(2)]
    by (intro fail [of "zmq_close s (reset_errno m')"])
       (auto simp: net_simps same_but_def s_def fun_eq_iff)
  have opened: thesis
    if "create_socket E ctx ty spk cpk csk m = (Some s, m')" "same_but s m1 m'"
      "socket_is s ty None (curve_options spk cpk csk) m'" "keys_long spk cpk csk \<Longrightarrow> faults m' = faults m"
      "spk \<noteq> None \<longrightarrow> cpk \<noteq> None \<and> csk \<noteq> None" for m'
    using that m1 by (intro ok [of m']) (auto simp: same_but_def s_def)
  show thesis
  proof (cases spk)
    case None
    then show thesis
      using opened [of m4] start s4 k4(2) f4 by (simp add: curve_options_def)
  next
    case spk: (Some a)
    show thesis
    proof (cases "cpk = None \<or> csk = None")
      case True
      then show thesis
        using closed [of m4 "{}"] start s4 k4(2) f4 spk by (auto split: option.splits)
    next
      case False
      then obtain b c where keys: "cpk = Some b" "csk = Some c" by auto
      obtain b5 m5 where e5: "set_key E s Curve_serverkey a m4 = (b5, m5)" by fastforce
      note k5 = set_key_step [OF s4 k4(2) e5]
      obtain b6 m6 where e6: "set_key E s Curve_publickey b m5 = (b6, m6)" by fastforce
      note k6 = set_key_step [OF k5(1,2) e6]
      obtain b7 m7 where e7: "set_key E s Curve_secretkey c m6 = (b7, m7)" by fastforce
      note k7 = set_key_step [OF k6(1,2) e7]
      note st = start [unfolded spk keys option.case prod.case e5 e6 e7]
      have f: "keys_long spk cpk csk \<Longrightarrow> faults m5 = faults m"
        "keys_long spk cpk csk \<Longrightarrow> faults m6 = faults m" "keys_long spk cpk csk \<Longrightarrow> faults m7 = faults m"
        using f4 k5(3) k6(3) k7(3) by (auto simp: keys_long_def spk keys)
      show thesis
      proof (cases "b5 \<and> b6 \<and> b7")
        case True
        then show thesis
          using opened [of m7] k7(1,2) f(3) st
          by (simp add: spk keys curve_options_def e6 e7 insert_commute)
      next
        case False
        then show thesis
          using closed [OF _ k5(1,2) f(1)] closed [OF _ k6(1,2) f(2)] closed [OF _ k7(1,2) f(3)] st
          by (auto simp: spk keys e6 e7 split: if_splits)
      qed
    qed
  qed
qed

text \<open>The operations leave alone whatever extends the state of the sockets.\<close>

lemma more_frame [net_simps]:
  fixes m :: "('w, 'b) net_scheme"
  shows "net.more (z_next E c m) = net.more m" "net.more (reset_errno m) = net.more m"
    "net.more (add_fault f m) = net.more m" "net.more (read_upto a b m) = net.more m"
    "net.more (alloc_next m) = net.more m" "net.more (touch_socket s m) = net.more m"
    "net.more (zmq_close s m) = net.more m"
  by (simp_all add: z_next_def reset_errno_def add_fault_def read_upto_def alloc_next_def touch_socket_def
      zmq_close_def Let_def)

lemma more_calls [net_simps]:
  "net.more (snd (zmq_socket E ctx ty m)) = net.more m"
  "net.more (snd (zmq_setsockopt E s opt m)) = net.more m"
  "net.more (snd (set_key E s f key m)) = net.more m"
  "net.more (snd (zmq_connect E s ep m)) = net.more m"
  by (simp_all add: zmq_socket_def zmq_setsockopt_def set_key_def zmq_connect_def Let_def net_simps)

lemma more_create_socket [net_simps]: "net.more (snd (create_socket E ctx ty spk cpk csk m)) = net.more m"
proof (cases "zmq_socket E ctx ty m")
  case (Pair r m1)
  then have "net.more m1 = net.more m" using more_calls(1) [of E ctx ty m] by simp
  then show ?thesis
    by (cases r)
       (simp_all add: create_socket_def Pair Let_def net_simps case_prod_beta split: option.split)
qed

lemma more_pool [net_simps]:
  "net.more (snd (SocketPool_renew_socket E t sp m)) = net.more m"
  "net.more (snd (snd (SocketPool_get_socket E t sp m))) = net.more m"
proof -
  show "net.more (snd (SocketPool_renew_socket E t sp m)) = net.more m"
    by (simp add: SocketPool_renew_socket_def Let_def net_simps split: option.split)
  obtain r m1 where c: "create_socket E (sp_context sp) (sp_socket_type sp) (sp_server_public_key sp)
       (sp_client_public_key sp) (sp_client_secret_key sp) m = (r, m1)" by fastforce
  then have "net.more m1 = net.more m"
    using more_create_socket [of E "sp_context sp" "sp_socket_type sp" "sp_server_public_key sp"
       "sp_client_public_key sp" "sp_client_secret_key sp" m] by simp
  with c show "net.more (snd (snd (SocketPool_get_socket E t sp m))) = net.more m"
    by (simp add: SocketPool_get_socket_def SocketPool_socket_destroy_def Let_def net_simps case_prod_beta
        split: option.split)
qed

section \<open>The invariant of the pool\<close>

definition pool_curve :: "socket_pool \<Rightarrow> zoption set" where
  "pool_curve sp = curve_options (sp_server_public_key sp) (sp_client_public_key sp) (sp_client_secret_key sp)"

definition pool_keys_long :: "socket_pool \<Rightarrow> bool" where
  "pool_keys_long sp = keys_long (sp_server_public_key sp) (sp_client_public_key sp) (sp_client_secret_key sp)"

definition pool_encrypted :: "socket_pool \<Rightarrow> bool" where
  \<comment> \<open>a configured server key comes with a key pair of the client\<close>
  "pool_encrypted sp \<longleftrightarrow> (sp_server_public_key sp \<noteq> None
     \<longrightarrow> sp_client_public_key sp \<noteq> None \<and> sp_client_secret_key sp \<noteq> None)"

definition pool_socket :: "socket_pool \<Rightarrow> nat \<Rightarrow> ('w, 'b) net_scheme \<Rightarrow> bool" where
  "pool_socket sp s m \<longleftrightarrow> socket_is s (sp_socket_type sp) (sp_socket_name sp) (pool_curve sp) m
     \<and> pool_encrypted sp"

definition pool_ok :: "socket_pool \<Rightarrow> ('w, 'b) net_scheme \<Rightarrow> bool" where
  "pool_ok sp m \<longleftrightarrow> sp_socket_name sp \<noteq> None \<and> \<not> sp_name_freed sp
     \<and> (\<forall>s. n_sockets m s \<noteq> None \<longrightarrow> s < n_next m \<and> (\<exists>t. sp_specific sp t = Some s))
     \<and> (\<forall>t s. sp_specific sp t = Some s \<longrightarrow> pool_socket sp s m
          \<and> (\<forall>t'. sp_specific sp t' = Some s \<longrightarrow> t' = t))"

definition forgets :: "'w zmq_env \<Rightarrow> bool" where
  \<comment> \<open>\<^verbatim>\<open>pthread_setspecific(key, NULL)\<close> does not fail\<close>
  "forgets E \<longleftrightarrow> (\<forall>t w. \<not> failed (fst (z_call E (Z_setspecific t None) w)))"

lemma pool_okI:
  assumes "sp_socket_name sp \<noteq> None" "\<not> sp_name_freed sp"
    and "\<And>s. n_sockets m s \<noteq> None \<Longrightarrow> s < n_next m \<and> (\<exists>t. sp_specific sp t = Some s)"
    and "\<And>t s. sp_specific sp t = Some s \<Longrightarrow> pool_socket sp s m"
    and "\<And>t t' s. sp_specific sp t = Some s \<Longrightarrow> sp_specific sp t' = Some s \<Longrightarrow> t' = t"
  shows "pool_ok sp m"
  using assms by (simp add: pool_ok_def)

lemma pool_okD:
  assumes "pool_ok sp m"
  shows "sp_socket_name sp \<noteq> None" "\<not> sp_name_freed sp"
    "n_sockets m s \<noteq> None \<Longrightarrow> s < n_next m" "n_sockets m s \<noteq> None \<Longrightarrow> \<exists>t. sp_specific sp t = Some s"
    "sp_specific sp t = Some s \<Longrightarrow> pool_socket sp s m"
    "sp_specific sp t = Some s \<Longrightarrow> sp_specific sp t' = Some s \<Longrightarrow> t' = t"
  using assms by (simp_all add: pool_ok_def)

lemma pool_socket_open: "pool_socket sp s m \<Longrightarrow> n_sockets m s \<noteq> None"
  unfolding pool_socket_def by (blast dest: socket_is_open)

lemma pool_socket_same: "n_sockets m' s = n_sockets m s \<Longrightarrow> pool_socket sp s m' = pool_socket sp s m"
  by (simp add: pool_socket_def socket_is_def)

lemma pool_socket_specific [simp]: "pool_socket (sp\<lparr>sp_specific := f\<rparr>) = pool_socket sp"
  by (simp add: pool_socket_def fun_eq_iff pool_curve_def pool_encrypted_def)

lemma pool_open: "pool_ok sp m \<Longrightarrow> sp_specific sp t = Some s \<Longrightarrow> n_sockets m s \<noteq> None"
  using pool_okD(5) pool_socket_open by blast

lemma pool_next_unused: "pool_ok sp m \<Longrightarrow> n_sockets m (n_next m) = None"
  using pool_okD(3) [of sp m "n_next m"] by blast

lemma pool_ok_frame:
  assumes "pool_ok sp m" "n_sockets m' = n_sockets m" "n_next m \<le> n_next m'"
  shows "pool_ok sp m'"
proof (rule pool_okI)
  show "sp_socket_name sp \<noteq> None" "\<not> sp_name_freed sp" using pool_okD [OF assms(1)] by blast+
next
  fix s assume "n_sockets m' s \<noteq> None"
  then show "s < n_next m' \<and> (\<exists>t. sp_specific sp t = Some s)"
    using pool_okD(3,4) [OF assms(1)] assms(2,3) less_le_trans by metis
next
  fix t s assume "sp_specific sp t = Some s"
  then show "pool_socket sp s m'"
    using pool_okD(5) [OF assms(1)] pool_socket_same [of m' s m] assms(2) by simp
next
  fix t t' s assume "sp_specific sp t = Some s" "sp_specific sp t' = Some s"
  then show "t' = t" by (rule pool_okD(6) [OF assms(1)])
qed

text \<open>Forgetting the closed socket of a thread, and giving a thread a new one.\<close>

lemma pool_ok_drop:
  assumes ok: "pool_ok sp m" and mine: "sp_specific sp t = Some s"
    and m': "n_sockets m' = (n_sockets m)(s := None)" "n_next m' = n_next m"
  shows "pool_ok (sp\<lparr>sp_specific := (sp_specific sp)(t := None)\<rparr>) m'" (is "pool_ok ?sp m'")
proof (rule pool_okI)
  show "sp_socket_name ?sp \<noteq> None" "\<not> sp_name_freed ?sp" using pool_okD(1,2) [OF ok] by simp_all
next
  fix s' assume "n_sockets m' s' \<noteq> None"
  with m' have s': "s' \<noteq> s" "n_sockets m s' \<noteq> None" by (auto split: if_splits)
  with pool_okD(4) [OF ok] obtain t' where t': "sp_specific sp t' = Some s'" by blast
  with mine s' have "t' \<noteq> t" by auto
  with t' pool_okD(3) [OF ok s'(2)] m'(2) show "s' < n_next m' \<and> (\<exists>t. sp_specific ?sp t = Some s')"
    by (auto intro: exI [of _ t'])
next
  fix t' s' assume "sp_specific ?sp t' = Some s'"
  then have t': "t' \<noteq> t" "sp_specific sp t' = Some s'" by (auto split: if_splits)
  with pool_okD(6) [OF ok mine] have "s' \<noteq> s" by auto
  with t' pool_okD(5) [OF ok t'(2)] m' show "pool_socket ?sp s' m'"
    by (simp add: pool_socket_same [of m' s' m])
next
  fix t1 t2 s' assume "sp_specific ?sp t1 = Some s'" "sp_specific ?sp t2 = Some s'"
  then show "t2 = t1" using pool_okD(6) [OF ok, of t1 s' t2] by (auto split: if_splits)
qed

lemma pool_ok_add:
  assumes ok: "pool_ok sp m" and t: "sp_specific sp t = None" and s: "s = n_next m" "n_next m' = Suc s"
    and m': "\<forall>s'. s' \<noteq> s \<longrightarrow> n_sockets m' s' = n_sockets m s'" "pool_socket sp s m'"
  shows "pool_ok (sp\<lparr>sp_specific := (sp_specific sp)(t \<mapsto> s)\<rparr>) m'" (is "pool_ok ?sp m'")
proof (rule pool_okI)
  show "sp_socket_name ?sp \<noteq> None" "\<not> sp_name_freed ?sp" using pool_okD(1,2) [OF ok] by simp_all
next
  fix s' assume open': "n_sockets m' s' \<noteq> None"
  show "s' < n_next m' \<and> (\<exists>t. sp_specific ?sp t = Some s')"
  proof (cases "s' = s")
    case True
    then show ?thesis using s by (auto intro: exI [of _ t])
  next
    case False
    with open' m' have "n_sockets m s' \<noteq> None" by simp
    from pool_okD(3,4) [OF ok this] obtain t' where "s' < n_next m" "sp_specific sp t' = Some s'" by blast
    with t s show ?thesis by (auto intro!: exI [of _ t'])
  qed
next
  fix t' s' assume a: "sp_specific ?sp t' = Some s'"
  show "pool_socket ?sp s' m'"
  proof (cases "t' = t")
    case False
    with a have a: "sp_specific sp t' = Some s'" by simp
    with pool_next_unused [OF ok] pool_open [OF ok a] s(1) have "s' \<noteq> s" by auto
    with m' pool_okD(5) [OF ok a] show ?thesis by (simp add: pool_socket_same [of m' s' m])
  qed (use a m' in auto)
next
  have new: "sp_specific sp t' \<noteq> Some s" for t'
    using pool_next_unused [OF ok] pool_open [OF ok] s(1) by blast
  fix t1 t2 s' assume "sp_specific ?sp t1 = Some s'" "sp_specific ?sp t2 = Some s'"
  then show "t2 = t1" using pool_okD(6) [OF ok, of t1 s' t2] new by (auto split: if_splits)
qed

lemma get_socket_cases:
  assumes "pool_ok sp m"
  obtains
    (fail) m' where "SocketPool_get_socket E t sp m = (None, sp, m')" "sp_specific sp t = None"
      "n_sockets m' = n_sockets m" "n_next m \<le> n_next m'" "live m' = live m" "outcomes m' = outcomes m"
      "n_sent m' = n_sent m" "pool_keys_long sp \<Longrightarrow> faults m' = faults m" "n_errno m' = 0"
  | (old) s where "SocketPool_get_socket E t sp m = (Some s, sp, m)" "sp_specific sp t = Some s"
  | (new) m' where "SocketPool_get_socket E t sp m
        = (Some (n_next m), sp\<lparr>sp_specific := (sp_specific sp)(t \<mapsto> n_next m)\<rparr>, m')"
      "sp_specific sp t = None" "n_next m' = Suc (n_next m)"
      "\<forall>s'. s' \<noteq> n_next m \<longrightarrow> n_sockets m' s' = n_sockets m s'" "pool_socket sp (n_next m) m'"
      "live m' = live m" "outcomes m' = outcomes m" "n_sent m' = n_sent m"
      "pool_keys_long sp \<Longrightarrow> faults m' = faults m"
proof (cases "sp_specific sp t")
  case (Some s)
  then show thesis by (intro old) (simp_all add: SocketPool_get_socket_def)
next
  case none: None
  obtain name where name: "sp_socket_name sp = Some name" "\<not> sp_name_freed sp"
    using assms by (auto simp: pool_ok_def)
  define s where "s = n_next m"
  note unused = pool_next_unused [OF assms]
  show thesis
  proof (rule create_socket_cases [of E "sp_context sp" "sp_socket_type sp" "sp_server_public_key sp"
        "sp_client_public_key sp" "sp_client_secret_key sp" m], goal_cases)
    case (1 m1)
    with none unused show thesis
      by (intro fail [of "reset_errno m1"])
         (auto simp: SocketPool_get_socket_def net_simps pool_keys_long_def)
  next
    case (2 m1)
    obtain z where z: "n_sockets m1 s = Some z" "zs_type z = sp_socket_type sp" "pool_curve sp \<subseteq> set (zs_options z)"
      using 2(7) by (auto simp: socket_is_def pool_curve_def s_def)
    let ?c = "Z_connect s name" and ?g = "Z_setspecific t (Some s)"
    show thesis
    proof (cases "failed (z_ret E ?c m1)")
      case True
      with 2 none name z unused show thesis
        by (intro fail [of "zmq_close s (reset_errno (z_next E ?c m1))"])
           (auto simp: SocketPool_get_socket_def zmq_connect_def Let_def net_simps s_def fun_eq_iff
             SocketPool_socket_destroy_def pool_keys_long_def zmq_close_def touch_socket_def)
    next
      case False
      then obtain m2 where m2: "zmq_connect E s name m1 = (True, m2)" "live m2 = live m1"
        "outcomes m2 = outcomes m1" "n_sent m2 = n_sent m1" "n_next m2 = n_next m1" "faults m2 = faults m1"
        "n_sockets m2 = (n_sockets m1)(s \<mapsto> z\<lparr>zs_endpoint := Some name\<rparr>)"
        using z(1) by (cases z) (simp add: zmq_connect_def Let_def net_simps)
      show thesis
      proof (cases "failed (z_ret E ?g m2)")
        case True
        with 2 none name m2 unused show thesis
          by (intro fail [of "zmq_close s (reset_errno (z_next E ?g m2))"])
             (auto simp: SocketPool_get_socket_def Let_def net_simps s_def fun_eq_iff
               SocketPool_socket_destroy_def pool_keys_long_def zmq_close_def touch_socket_def)
      next
        case False
        with 2 none name m2 z show thesis
          by (intro new [of "z_next E ?g m2"])
             (auto simp: SocketPool_get_socket_def Let_def net_simps s_def pool_socket_def
               pool_encrypted_def socket_is_def pool_keys_long_def)
      qed
    qed
  qed
qed

lemma renew_cases:
  assumes "pool_ok sp m" "forgets E"
  obtains
    (none) "sp_specific sp t = None" "SocketPool_renew_socket E t sp m = (sp, m)"
  | (closed) s m' where "sp_specific sp t = Some s"
      "SocketPool_renew_socket E t sp m = (sp\<lparr>sp_specific := (sp_specific sp)(t := None)\<rparr>, m')"
      "n_sockets m' = (n_sockets m)(s := None)" "n_next m' = n_next m" "live m' = live m"
      "outcomes m' = outcomes m" "faults m' = faults m" "n_sent m' = n_sent m"
proof (cases "sp_specific sp t")
  case None
  then show thesis by (intro none) (simp_all add: SocketPool_renew_socket_def)
next
  case (Some s)
  let ?c = "Z_setspecific t None"
  have ok: "\<not> failed (z_ret E ?c (zmq_close s m))" using assms(2) by (simp add: forgets_def z_ret_def)
  show thesis
    by (rule closed [of s "z_next E ?c (zmq_close s m)"])
       (use Some ok pool_open [OF assms(1) Some] in
         \<open>simp_all add: SocketPool_renew_socket_def Let_def net_simps\<close>)
qed

section \<open>The pool as a state machine\<close>

text \<open>
  The steps are the two operations, called by any thread, and the end of a thread, when pthreads
  clears its value and runs the destructor of the key on it.
\<close>

definition thread_exit :: "nat \<Rightarrow> socket_pool \<Rightarrow> ('w, 'b) net_scheme \<Rightarrow> socket_pool \<times> ('w, 'b) net_scheme" where
  "thread_exit t sp m =
     (sp\<lparr>sp_specific := (sp_specific sp)(t := None)\<rparr>, SocketPool_socket_destroy (sp_specific sp t) m)"

inductive pool_step :: "'w zmq_env \<Rightarrow> socket_pool \<times> 'w net \<Rightarrow> socket_pool \<times> 'w net \<Rightarrow> bool" for E where
  step_get: "SocketPool_get_socket E t sp m = (r, sp', m') \<Longrightarrow> pool_step E (sp, m) (sp', m')"
| step_renew: "SocketPool_renew_socket E t sp m = (sp', m') \<Longrightarrow> pool_step E (sp, m) (sp', m')"
| step_exit: "thread_exit t sp m = (sp', m') \<Longrightarrow> pool_step E (sp, m) (sp', m')"

definition keyed_pool :: "string option \<Rightarrow> (string \<times> string) option \<Rightarrow> socket_pool \<Rightarrow> socket_pool" where
  \<comment> \<open>what \<open>Rhizofs_init\<close> does with the keys of the settings\<close>
  "keyed_pool server_key client_keys sp =
     (let sp1 = (case server_key of None \<Rightarrow> sp | Some k \<Rightarrow> SocketPool_set_server_public_key k sp)
      in case client_keys of None \<Rightarrow> sp1 | Some (a, b) \<Rightarrow> SocketPool_set_client_keypair a b sp1)"

inductive pool_start :: "'w zmq_env \<Rightarrow> socket_pool \<times> 'w net \<Rightarrow> bool" for E where
  start: "SocketPool_init E ctx name ty m = (True, sp, m') \<Longrightarrow> n_sockets m = Map.empty
     \<Longrightarrow> pool_start E (keyed_pool server_key client_keys sp, m')"

lemma pool_start_ok: "pool_start E c \<Longrightarrow> pool_ok (fst c) (snd c)"
  by (induction rule: pool_start.induct)
     (auto simp: SocketPool_init_def keyed_pool_def SocketPool_set_server_public_key_def
        SocketPool_set_client_keypair_def zero_pool_def pool_ok_def Let_def net_simps
        split: if_splits sum.splits prod.splits option.splits)

lemma pool_step_ok:
  assumes "pool_step E c c'" "forgets E" "pool_ok (fst c) (snd c)"
  shows "pool_ok (fst c') (snd c')"
  using assms(1,3)
proof (induction rule: pool_step.induct)
  case (step_get t sp m r sp' m')
  then have ok: "pool_ok sp m" by simp
  show ?case
    by (rule get_socket_cases [OF ok, of E t])
       (use step_get pool_ok_frame [OF ok] pool_ok_add [OF ok _ refl] in auto)
next
  case (step_renew t sp m sp' m')
  then have ok: "pool_ok sp m" by simp
  show ?case
    by (rule renew_cases [OF ok assms(2), of t]) (use step_renew pool_ok_drop [OF ok] in auto)
next
  case (step_exit t sp m sp' m')
  then have ok: "pool_ok sp m" by simp
  show ?case
  proof (cases "sp_specific sp t")
    case None
    with step_exit show ?thesis by (auto simp: thread_exit_def SocketPool_socket_destroy_def fun_upd_idem)
  next
    case (Some s)
    with step_exit pool_ok_drop [OF ok Some, of "zmq_close s m"] pool_open [OF ok Some] show ?thesis
      by (auto simp: thread_exit_def SocketPool_socket_destroy_def net_simps)
  qed
qed

interpretation pool: invariant_system "pool_start E" "pool_step E" "\<lambda>(sp, m). forgets E \<longrightarrow> pool_ok sp m" for E
  by unfold_locales (auto dest: pool_start_ok pool_step_ok)

section \<open>Properties\<close>

definition quiet_zmq :: "unit zmq_env" where
  \<comment> \<open>every call succeeds with 1, nothing is received\<close>
  "quiet_zmq = \<lparr>z_call = (\<lambda>_ w. (Inr 1, w)), z_recv = (\<lambda>_ w. (Inr None, w)),
     z_time = (\<lambda>_. 0), z_gettimeofday = (\<lambda>_. (0, 0)), z_uid = (\<lambda>_. 0), z_gid = (\<lambda>_. 0)\<rparr>"

definition quiet_net :: "unit net" where
  "quiet_net = \<lparr>outcomes = [], live = 0, faults = [], n_errno = 0, n_world = (),
     n_sockets = Map.empty, n_next = 1, n_sent = []\<rparr>"

lemma quiet_zmq_calls [simp]:
  "z_ret quiet_zmq c m = Inr 1" "z_next quiet_zmq c m = m" "\<not> failed (Inr x)"
  by (simp_all add: quiet_zmq_def z_ret_def z_next_def failed_def)

definition demo_key :: string where
  "demo_key = replicate 40 CHR ''k''"

definition demo_start :: "socket_pool \<times> unit net" where
  "demo_start = (let (_, sp, m) = SocketPool_init quiet_zmq 0 ''tcp://h'' 3 quiet_net
     in (keyed_pool (Some demo_key) (Some (demo_key, demo_key)) sp, m))"

lemma demo_start_starts: "pool_start quiet_zmq demo_start"
proof -
  obtain sp m where i: "SocketPool_init quiet_zmq 0 ''tcp://h'' 3 quiet_net = (True, sp, m)"
    by (simp add: SocketPool_init_def alloc_ok_def quiet_net_def)
  then show ?thesis
    using pool_start.start [OF i, of "Some demo_key" "Some (demo_key, demo_key)"]
    by (simp add: demo_start_def quiet_net_def)
qed

lemma demo_start_value:
  "demo_start = (\<lparr>sp_key = 1, sp_context = 0, sp_socket_name = Some ''tcp://h'', sp_name_freed = False,
       sp_socket_type = 3, sp_client_public_key = Some demo_key, sp_client_secret_key = Some demo_key,
       sp_server_public_key = Some demo_key, sp_specific = (\<lambda>_. None)\<rparr>, quiet_net\<lparr>live := 1\<rparr>)"
  by (simp add: demo_start_def SocketPool_init_def quiet_net_def alloc_ok_def alloc_next_def zero_pool_def
      keyed_pool_def SocketPool_set_server_public_key_def SocketPool_set_client_keypair_def)



text \<open>
  Fetching a socket either gives the thread a socket that is recorded as its own, and fetching
  again gives the same one without asking ZeroMQ for anything, or it fails and leaves the pool and
  the open sockets as they were. It never allocates on the heap.
\<close>

theorem get_socket_outcome:
  assumes "pool_ok sp m"
  shows "case SocketPool_get_socket E t sp m of
      (Some s, sp', m') \<Rightarrow> sp_specific sp' t = Some s \<and> n_sockets m' s \<noteq> None
        \<and> (\<forall>t'. t' \<noteq> t \<longrightarrow> sp_specific sp' t' = sp_specific sp t')
        \<and> SocketPool_get_socket E t sp' m' = (Some s, sp', m') \<and> live m' = live m
    | (None, sp', m') \<Rightarrow> sp' = sp \<and> n_sockets m' = n_sockets m \<and> live m' = live m"
proof (rule get_socket_cases [OF assms, of E t], goal_cases)
  case (2 s)
  then show ?case using pool_open [OF assms] by auto
next
  case (3 m')
  then show ?case using pool_socket_open [of sp "n_next m" m'] by (simp add: SocketPool_get_socket_def)
qed simp

theorem get_socket_outcome_witness:
  "case SocketPool_get_socket quiet_zmq 7 (fst demo_start) (snd demo_start) of
     (Some s, sp', m') \<Rightarrow> sp_specific sp' 7 = Some s
   | (None, sp', m') \<Rightarrow> n_sockets m' = n_sockets (snd demo_start)"
  using get_socket_outcome [OF pool_start_ok [OF demo_start_starts], where E = quiet_zmq and t = 7]
  by (simp split: prod.splits option.splits)

text \<open>
  \<open>SocketPool_deinit\<close> keeps the pointer to the name it frees, so a second call, which the
  client makes on every way out (\<open>Rhizofs_destroy\<close> and then \<open>RhizoPriv_destroy\<close>), frees it again;
  and neither closes a socket: deleting a key runs no destructor, so the sockets of the threads
  that are still alive stay open.
\<close>

theorem deinit_twice_double_free:
  assumes "SocketPool_init E ctx name ty m = (True, sp, m1)"
    and "SocketPool_deinit sp m2 = (sp', m3)"
  shows "faults (snd (SocketPool_deinit sp' m3)) = faults m2 @ [Double_free]
    \<and> live m3 = live m2 - 1 \<and> n_sockets m3 = n_sockets m2"
  using assms
  by (auto simp: SocketPool_init_def SocketPool_deinit_def free_socket_name_def zero_pool_def Let_def
      net_simps heap_simps split: if_splits sum.splits prod.splits)

theorem deinit_twice_double_free_witness:
  "\<exists>sp m sp' m'. SocketPool_init quiet_zmq 0 ''tcp://h'' 3 quiet_net = (True, sp, m)
     \<and> SocketPool_deinit sp m = (sp', m') \<and> faults (snd (SocketPool_deinit sp' m')) = [Double_free]"
proof -
  obtain sp m where i: "SocketPool_init quiet_zmq 0 ''tcp://h'' 3 quiet_net = (True, sp, m)" "faults m = []"
    by (simp add: SocketPool_init_def alloc_ok_def quiet_net_def alloc_next_def)
  obtain sp' m' where d: "SocketPool_deinit sp m = (sp', m')" by fastforce
  from deinit_twice_double_free [OF i(1) d] i d show ?thesis by auto
qed

end
