(* ===== verification/Rhizo_Hash.thy ===== *)
theory Rhizo_Hash
  imports Rhizo_Prelude "HOL-Library.Multiset"
begin

text \<open>
  Model of \<^verbatim>\<open>src/hashfunc.c\<close> and of the chained hash table \<^verbatim>\<open>src/kazlib/hash.c\<close> the attribute
  cache is built on. A chain is the list of its nodes; a node carries its address, because
  deletion searches its chain for the pointer. The assertions of the table are compiled out of
  a release build (\<^verbatim>\<open>-DNDEBUG\<close> in the Makefile), so they are not part of the model; what they
  claim is the invariant \<open>hash_ok\<close>, and it is proved.

  What is proved: the table is a finite map under every sequence of operations, resizing
  included (\<open>grow_table\<close> and \<open>shrink_table\<close> keep every node and move it to its chain); a scan
  that deletes the nodes it is handed visits every node exactly once; both hash functions are
  polynomials modulo \<open>2 ^ 64\<close>.
\<close>

section \<open>Hash functions\<close>

fun djb2_loop :: "64 word \<Rightarrow> string \<Rightarrow> 64 word" where
  "djb2_loop hash [] = hash"
| "djb2_loop hash (c # cs) = djb2_loop ((push_bit 5 hash + hash) + of_char c) cs"

definition Hashfunc_djb2 :: "string \<Rightarrow> 64 word" where
  "Hashfunc_djb2 str = djb2_loop 5381 str"

fun sdbm_loop :: "64 word \<Rightarrow> string \<Rightarrow> 64 word" where
  "sdbm_loop hash [] = hash"
| "sdbm_loop hash (c # cs) = sdbm_loop (of_char c + push_bit 6 hash + push_bit 16 hash - hash) cs"

definition Hashfunc_sdbm :: "string \<Rightarrow> 64 word" where
  "Hashfunc_sdbm str = sdbm_loop 0 str"

definition poly_hash :: "nat \<Rightarrow> nat \<Rightarrow> string \<Rightarrow> nat" where
  "poly_hash b h str = foldl (\<lambda>h c. h * b + of_char c) h str"

lemma poly_hash_Cons: "poly_hash b h (c # cs) = poly_hash b (h * b + of_char c) cs"
  by (simp add: poly_hash_def)

lemma djb2_loop_poly: "djb2_loop (of_nat h) str = of_nat (poly_hash 33 h str)"
proof (induction str arbitrary: h)
  case (Cons c cs)
  have "push_bit 5 (of_nat h) + of_nat h + of_char c = (of_nat (h * 33 + of_char c) :: 64 word)"
    by (simp add: push_bit_eq_mult of_nat_of_char algebra_simps)
  with Cons.IH [of "h * 33 + of_char c"] show ?case by (simp only: djb2_loop.simps poly_hash_Cons)
qed (simp add: poly_hash_def)

lemma sdbm_loop_poly: "sdbm_loop (of_nat h) str = of_nat (poly_hash 65599 h str)"
proof (induction str arbitrary: h)
  case (Cons c cs)
  have "of_char c + push_bit 6 (of_nat h) + push_bit 16 (of_nat h) - of_nat h
      = (of_nat (h * 65599 + of_char c) :: 64 word)"
    by (simp add: push_bit_eq_mult of_nat_of_char algebra_simps)
  with Cons.IH [of "h * 65599 + of_char c"] show ?case by (simp only: sdbm_loop.simps poly_hash_Cons)
qed (simp add: poly_hash_def)

text \<open>\<^verbatim>\<open>strcmp\<close>, of which C fixes the sign only.\<close>

fun strcmp :: "string \<Rightarrow> string \<Rightarrow> int" where
  "strcmp [] [] = 0"
| "strcmp [] (_ # _) = -1"
| "strcmp (_ # _) [] = 1"
| "strcmp (c # cs) (d # ds) =
     (if c = d then strcmp cs ds else if (of_char c :: nat) < of_char d then -1 else 1)"

lemma strcmp_eq [simp]: "strcmp a b = 0 \<longleftrightarrow> a = b"
  by (induction a b rule: strcmp.induct) auto

section \<open>The table\<close>

record 'v hnode =
  hn_addr :: nat
  hn_key :: string
  hn_data :: 'v
  hn_hkey :: "64 word"

record 'v hash_t =
  hash_table :: "'v hnode list list"
  hash_nchains :: nat
  hash_nodecount :: nat
  hash_maxcount :: nat
  hash_highmark :: nat
  hash_lowmark :: nat
  hash_compare :: "string \<Rightarrow> string \<Rightarrow> int"
  hash_function :: "string \<Rightarrow> 64 word"
  hash_node_blocks :: int \<comment> \<open>what \<^verbatim>\<open>freenode\<close> frees: 1 by default, node, key and data for the cache\<close>
  hash_mask :: "64 word"
  hash_dynamic :: bool

abbreviation (input) INIT_SIZE :: nat where "INIT_SIZE \<equiv> 64"

text \<open>The default functions of the table. \<^verbatim>\<open>unsigned long\<close> has 64 bits, of which the loop keeps 32.\<close>

definition randbox :: "64 word list" where
  "randbox = [
     0x49848f1b, 0xe6255dba, 0x36da5bdc, 0x47bf94e9, 0x8cbcce22, 0x559fc06a, 0xd268f536, 0xe10af79a,
     0xc1af4d69, 0x1d2917b5, 0xec4c304d, 0x9ee5016c, 0x69232f74, 0xfead7bb3, 0xe9089ab6, 0xf012f6ae]"

definition randbox_at :: "64 word \<Rightarrow> 64 word" where
  "randbox_at i = randbox ! unat (i AND 0xF)"

fun hash_fun_loop :: "64 word \<Rightarrow> string \<Rightarrow> 64 word" where
  "hash_fun_loop acc [] = acc"
| "hash_fun_loop acc (c # str) =
     (let acc = acc XOR randbox_at (of_char c + acc);
          acc = (push_bit 1 acc OR drop_bit 31 acc) AND 0xFFFFFFFF;
          acc = acc XOR randbox_at (drop_bit 4 (of_char c) + acc);
          acc = (push_bit 2 acc OR drop_bit 30 acc) AND 0xFFFFFFFF
      in hash_fun_loop acc str)"

definition hash_fun_default :: "string \<Rightarrow> 64 word" where
  "hash_fun_default key = hash_fun_loop 0 key"

definition hash_comp_default :: "string \<Rightarrow> string \<Rightarrow> int" where
  "hash_comp_default key1 key2 = strcmp key1 key2"

fun given :: "'a option \<Rightarrow> 'a \<Rightarrow> 'a" where
  \<comment> \<open>a function pointer, or the default if it is NULL\<close>
  "given (Some f) d = f"
| "given None d = d"

definition hash_create :: "nat \<Rightarrow> (string \<Rightarrow> string \<Rightarrow> int) option \<Rightarrow> (string \<Rightarrow> 64 word) option
    \<Rightarrow> 'a heap_scheme \<Rightarrow> 'v hash_t option \<times> 'a heap_scheme" where
  "hash_create maxcount compfun hashfun h =
     (if \<not> alloc_ok h then (None, alloc_next h)
      else if \<not> alloc_ok (alloc_next h) then (None, release 1 (alloc_next (alloc_next h)))
      else (Some \<lparr>hash_table = replicate INIT_SIZE [], hash_nchains = INIT_SIZE,
                  hash_nodecount = 0, hash_maxcount = maxcount,
                  hash_highmark = INIT_SIZE * 2, hash_lowmark = INIT_SIZE div 2,
                  hash_compare = given compfun hash_comp_default, hash_function = given hashfun hash_fun_default,
                  hash_node_blocks = 1,
                  hash_mask = of_nat (INIT_SIZE - 1), hash_dynamic = True\<rparr>,
            alloc_next (alloc_next h)))"

definition hash_set_allocator :: "int \<Rightarrow> 'v hash_t \<Rightarrow> 'v hash_t" where
  "hash_set_allocator node_blocks H = H\<lparr>hash_node_blocks := node_blocks\<rparr>"

definition hash_isfull :: "'v hash_t \<Rightarrow> bool" where
  "hash_isfull H \<longleftrightarrow> hash_nodecount H = hash_maxcount H"

definition hash_count :: "'v hash_t \<Rightarrow> nat" where
  "hash_count H = hash_nodecount H"

definition chain_index :: "'v hash_t \<Rightarrow> 64 word \<Rightarrow> nat" where
  "chain_index H hkey = unat (hkey AND hash_mask H)"

text \<open>One chain split by the bit the wider mask exposes; both parts come out reversed.\<close>

fun split_chain :: "64 word \<Rightarrow> 'v hnode list \<Rightarrow> 'v hnode list \<Rightarrow> 'v hnode list
    \<Rightarrow> 'v hnode list \<times> 'v hnode list" where
  "split_chain exposed_bit low_chain high_chain [] = (low_chain, high_chain)"
| "split_chain exposed_bit low_chain high_chain (hptr # rest) =
     (if hn_hkey hptr AND exposed_bit \<noteq> 0
      then split_chain exposed_bit low_chain (hptr # high_chain) rest
      else split_chain exposed_bit (hptr # low_chain) high_chain rest)"

definition grow_table :: "'v hash_t \<Rightarrow> 'v hash_t" where
  \<comment> \<open>the case where \<^verbatim>\<open>realloc\<close> succeeds; otherwise the code leaves the table as it is\<close>
  "grow_table H =
     (let mask = push_bit 1 (hash_mask H) OR 1;
          exposed_bit = mask XOR hash_mask H;
          split = map (split_chain exposed_bit [] []) (hash_table H)
      in H\<lparr>hash_table := map fst split @ map snd split,
           hash_mask := mask,
           hash_nchains := 2 * hash_nchains H,
           hash_lowmark := 2 * hash_lowmark H,
           hash_highmark := 2 * hash_highmark H\<rparr>)"

definition shrink_table :: "'v hash_t \<Rightarrow> 'v hash_t" where
  "shrink_table H =
     (let nchains = hash_nchains H div 2
      in H\<lparr>hash_table := map2 (@) (take nchains (hash_table H)) (drop nchains (hash_table H)),
           hash_mask := drop_bit 1 (hash_mask H),
           hash_nchains := nchains,
           hash_lowmark := hash_lowmark H div 2,
           hash_highmark := hash_highmark H div 2\<rparr>)"

definition must_grow :: "'v hash_t \<Rightarrow> bool" where
  "must_grow H \<longleftrightarrow> hash_dynamic H \<and> hash_nodecount H \<ge> hash_highmark H"

definition must_shrink :: "'v hash_t \<Rightarrow> bool" where
  "must_shrink H \<longleftrightarrow> hash_dynamic H \<and> hash_nodecount H \<le> hash_lowmark H
     \<and> hash_nodecount H > INIT_SIZE"

definition hash_insert :: "bool \<Rightarrow> 'v hnode \<Rightarrow> string \<Rightarrow> 'v hash_t \<Rightarrow> 'v hash_t" where
  \<comment> \<open>the first argument: whether a \<^verbatim>\<open>realloc\<close> would succeed\<close>
  "hash_insert realloc_succeeds node key H =
     (let H = (if must_grow H \<and> realloc_succeeds then grow_table H else H);
          hkey = hash_function H key;
          chain = chain_index H hkey;
          node = node\<lparr>hn_key := key, hn_hkey := hkey\<rparr>
      in H\<lparr>hash_table := (hash_table H)[chain := node # hash_table H ! chain],
           hash_nodecount := hash_nodecount H + 1\<rparr>)"

fun lookup_chain :: "'v hash_t \<Rightarrow> 64 word \<Rightarrow> string \<Rightarrow> 'v hnode list \<Rightarrow> 'v hnode option" where
  "lookup_chain H hkey key [] = None"
| "lookup_chain H hkey key (nptr # rest) =
     (if hn_hkey nptr = hkey \<and> hash_compare H (hn_key nptr) key = 0 then Some nptr
      else lookup_chain H hkey key rest)"

definition hash_lookup :: "'v hash_t \<Rightarrow> string \<Rightarrow> 'v hnode option" where
  "hash_lookup H key =
     (let hkey = hash_function H key
      in lookup_chain H hkey key (hash_table H ! chain_index H hkey))"

text \<open>
  Both deletions unlink the node with the given address from its chain; a chain that does not
  hold it is run off its end, a NULL dereference, here \<open>None\<close>.
\<close>

fun unlink_chain :: "nat \<Rightarrow> 'v hnode list \<Rightarrow> 'v hnode list option" where
  "unlink_chain addr [] = None"
| "unlink_chain addr (hptr # rest) =
     (if hn_addr hptr = addr then Some rest else map_option ((#) hptr) (unlink_chain addr rest))"

definition hash_scan_delete :: "'v hash_t \<Rightarrow> 'v hnode \<Rightarrow> 'v hash_t option" where
  "hash_scan_delete H node =
     (let chain = chain_index H (hn_hkey node) in
      case unlink_chain (hn_addr node) (hash_table H ! chain) of
        None \<Rightarrow> None
      | Some rest \<Rightarrow> Some (H\<lparr>hash_table := (hash_table H)[chain := rest],
                             hash_nodecount := hash_nodecount H - 1\<rparr>))"

definition hash_delete :: "'v hash_t \<Rightarrow> 'v hnode \<Rightarrow> 'v hash_t option" where
  "hash_delete H node = hash_scan_delete (if must_shrink H then shrink_table H else H) node"

definition hash_nodes :: "'v hash_t \<Rightarrow> 'v hnode list" where
  "hash_nodes H = concat (hash_table H)"

text \<open>An address \<^verbatim>\<open>malloc\<close> may return: none of a node in the table.\<close>

definition fresh_addr :: "'v hash_t \<Rightarrow> nat" where
  "fresh_addr H = Suc (fold max (map hn_addr (hash_nodes H)) 0)"

definition hash_alloc_insert :: "string \<Rightarrow> 'v \<Rightarrow> 'v hash_t \<Rightarrow> 'a heap_scheme
    \<Rightarrow> bool \<times> 'v hash_t \<times> 'a heap_scheme" where
  "hash_alloc_insert key data H h =
     (if \<not> alloc_ok h then (False, H, alloc_next h)
      else let
        h1 = alloc_next h;
        node = \<lparr>hn_addr = fresh_addr H, hn_key = key, hn_data = data, hn_hkey = 0\<rparr>
      in (True, hash_insert (alloc_ok h1) node key H,
          if must_grow H then realloc_next h1 else h1))"

definition hash_delete_free :: "'v hash_t \<Rightarrow> 'v hnode \<Rightarrow> 'a heap_scheme
    \<Rightarrow> 'v hash_t option \<times> 'a heap_scheme" where
  "hash_delete_free H node h =
     (let h1 = (if must_shrink H then realloc_next h else h) in
      case hash_delete H node of
        None \<Rightarrow> (None, add_fault Null_deref h1)
      | Some H' \<Rightarrow> (Some H', release (hash_node_blocks H') h1))"

section \<open>Scanning\<close>

text \<open>
  The scanner holds the chain it is in and the address of the node it will return next
  (\<open>None\<close> is NULL). The successor of a node is read when the node is returned, so the caller
  may delete it.
\<close>

record hscan =
  sc_chain :: nat
  sc_next :: "nat option"

function skip_empty :: "'v hnode list list \<Rightarrow> nat \<Rightarrow> nat \<Rightarrow> nat" where
  "skip_empty table nchains chain =
     (if chain < nchains \<and> table ! chain = [] then skip_empty table nchains (Suc chain) else chain)"
  by pat_completeness auto
termination
  by (relation "measure (\<lambda>(table, nchains, chain). nchains - chain)") auto

declare skip_empty.simps [simp del]

definition scan_from :: "'v hash_t \<Rightarrow> nat \<Rightarrow> nat \<Rightarrow> hscan" where
  \<comment> \<open>position on the first node at or after a chain; \<open>old\<close> stays in \<^verbatim>\<open>scan->chain\<close> if there is none\<close>
  "scan_from H start old =
     (let chain = skip_empty (hash_table H) (hash_nchains H) start in
      if chain < hash_nchains H
      then \<lparr>sc_chain = chain, sc_next = Some (hn_addr (hd (hash_table H ! chain)))\<rparr>
      else \<lparr>sc_chain = old, sc_next = None\<rparr>)"

definition hash_scan_begin :: "'v hash_t \<Rightarrow> hscan" where
  "hash_scan_begin H = scan_from H 0 0"

definition node_tail :: "nat \<Rightarrow> 'v hnode list \<Rightarrow> 'v hnode list" where
  \<comment> \<open>the chain from the node with that address on\<close>
  "node_tail addr chain = dropWhile (\<lambda>n. hn_addr n \<noteq> addr) chain"

definition hash_scan_next :: "'v hash_t \<Rightarrow> hscan \<Rightarrow> 'v hnode option \<times> hscan" where
  "hash_scan_next H scan =
     (case sc_next scan of
        None \<Rightarrow> (None, scan)
      | Some addr \<Rightarrow>
          (case node_tail addr (hash_table H ! sc_chain scan) of
             [] \<Rightarrow> (None, scan)
           | node # rest \<Rightarrow>
               (Some node,
                (case rest of
                   n # _ \<Rightarrow> scan\<lparr>sc_next := Some (hn_addr n)\<rparr>
                 | [] \<Rightarrow> scan_from H (sc_chain scan + 1) (sc_chain scan)))))"

text \<open>
  A scan loop as the clients write it: while the guard holds and there is a next node, look at
  it, perhaps unlink it, go on. \<open>None\<close> is a crash or fuel that did not suffice; the lemma
  \<open>scan_loop_walk\<close> below shows that one unit per node and one more is enough.
\<close>

fun scan_loop :: "nat \<Rightarrow> ('s \<Rightarrow> bool) \<Rightarrow> ('s \<Rightarrow> 'v hnode \<Rightarrow> bool) \<Rightarrow> ('s \<Rightarrow> 'v hnode \<Rightarrow> 's)
    \<Rightarrow> hscan \<Rightarrow> 's \<Rightarrow> 'v hash_t \<Rightarrow> ('s \<times> 'v hash_t) option" where
  "scan_loop 0 guard del upd scan s H = None"
| "scan_loop (Suc fuel) guard del upd scan s H =
     (if \<not> guard s then Some (s, H)
      else case hash_scan_next H scan of
        (None, _) \<Rightarrow> Some (s, H)
      | (Some node, scan') \<Rightarrow>
          (if del s node then
             (case hash_scan_delete H node of
                None \<Rightarrow> None
              | Some H' \<Rightarrow> scan_loop fuel guard del upd scan' (upd s node) H')
           else scan_loop fuel guard del upd scan' (upd s node) H))"

declare scan_loop.simps [simp del]

definition clear_table :: "'v hash_t \<Rightarrow> 'v hash_t" where
  "clear_table H = H\<lparr>hash_table := replicate (hash_nchains H) []\<rparr>"

definition hash_free_nodes :: "'v hash_t \<Rightarrow> 'a heap_scheme \<Rightarrow> ('v hash_t \<times> 'a heap_scheme) option" where
  \<comment> \<open>the loop counts the nodes it frees\<close>
  "hash_free_nodes H h =
     (case scan_loop (Suc (length (hash_nodes H))) (\<lambda>_. True) (\<lambda>_ _. True) (\<lambda>n _. n + 1)
             (hash_scan_begin H) (0::int) H of
        None \<Rightarrow> None
      | Some (n, H') \<Rightarrow>
          Some (clear_table (H'\<lparr>hash_nodecount := 0\<rparr>), release (n * hash_node_blocks H) h))"

definition hash_destroy :: "'a heap_scheme \<Rightarrow> 'a heap_scheme" where
  "hash_destroy h = release 2 h"

section \<open>The invariant\<close>

definition chain_size_ok :: "nat \<Rightarrow> 'v hash_t \<Rightarrow> bool" where
  \<comment> \<open>\<open>2 ^ k\<close> chains, and the bookkeeping fields that follow from their number\<close>
  "chain_size_ok k H \<longleftrightarrow> 6 \<le> k \<and> k \<le> 60 \<and> hash_dynamic H \<and> hash_nchains H = 2 ^ k \<and>
     hash_mask H = mask k \<and> length (hash_table H) = hash_nchains H \<and>
     hash_highmark H = 2 * hash_nchains H \<and> hash_lowmark H = hash_nchains H div 2"

definition chains_ok :: "'v hash_t \<Rightarrow> bool" where
  \<comment> \<open>every node hangs in the chain its hash selects\<close>
  "chains_ok H \<longleftrightarrow> (\<forall>c < length (hash_table H). \<forall>n \<in> set (hash_table H ! c).
     chain_index H (hn_hkey n) = c)"

definition nodes_ok :: "'v hash_t \<Rightarrow> bool" where
  "nodes_ok H \<longleftrightarrow> (\<forall>n \<in> set (hash_nodes H). hn_hkey n = hash_function H (hn_key n)) \<and>
     distinct (map hn_key (hash_nodes H)) \<and> distinct (map hn_addr (hash_nodes H)) \<and>
     hash_nodecount H = length (hash_nodes H) \<and>
     (\<forall>a b. hash_compare H a b = 0 \<longleftrightarrow> a = b) \<and> hash_maxcount H \<le> 2 ^ 60"

definition hash_ok :: "'v hash_t \<Rightarrow> bool" where
  "hash_ok H \<longleftrightarrow> (\<exists>k. chain_size_ok k H) \<and> chains_ok H \<and> nodes_ok H"

subsection \<open>Lists of chains\<close>

lemma mset_concat_update:
  "i < length xs \<Longrightarrow> mset (concat (xs[i := y])) + mset (xs ! i) = mset (concat xs) + mset y"
proof (induction xs arbitrary: i)
  case (Cons x xs)
  then show ?case by (cases i) (auto simp: ac_simps)
qed simp

lemma set_concat_nth: "n \<in> set (concat xs) \<longleftrightarrow> (\<exists>i < length xs. n \<in> set (xs ! i))"
  unfolding set_concat by (simp add: Bex_def) (metis in_set_conv_nth)

lemma concat_update_unchanged: "i < length xs \<Longrightarrow> concat (xs[i := xs ! i]) = concat xs"
  by simp

lemma mset_concat_pairs: "mset (concat (map fst xs @ map snd xs)) = (\<Sum>p\<leftarrow>xs. mset (fst p) + mset (snd p))"
  by (induction xs) (auto simp: ac_simps)

lemma mset_concat_map2:
  "length xs = length ys \<Longrightarrow> mset (concat (map2 (@) xs ys)) = mset (concat xs) + mset (concat ys)"
  by (induction xs ys rule: list_induct2) (auto simp: ac_simps)

lemma chain_index_mod:
  assumes "chain_size_ok k H"
  shows "chain_index H hkey = unat hkey mod 2 ^ k"
proof -
  have "hkey AND hash_mask H = take_bit k hkey"
    using assms by (simp add: chain_size_ok_def take_bit_eq_mask)
  then have "chain_index H hkey = take_bit k (unat hkey)"
    by (simp only: chain_index_def unsigned_take_bit_eq)
  then show ?thesis by (simp only: take_bit_eq_mod)
qed

lemma chain_index_less: "chain_size_ok k H \<Longrightarrow> chain_index H hkey < length (hash_table H)"
  by (simp add: chain_index_mod) (simp add: chain_size_ok_def)

lemma node_in_chain:
  assumes "hash_ok H" "n \<in> set (hash_nodes H)"
  shows "n \<in> set (hash_table H ! chain_index H (hn_hkey n))"
  using assms by (auto simp: hash_ok_def chains_ok_def hash_nodes_def set_concat_nth simp del: set_concat)

lemma chain_in_nodes: "c < length (hash_table H) \<Longrightarrow> n \<in> set (hash_table H ! c) \<Longrightarrow> n \<in> set (hash_nodes H)"
  by (auto simp: hash_nodes_def set_concat_nth simp del: set_concat)

lemma nodes_key_inj:
  "nodes_ok H \<Longrightarrow> n \<in> set (hash_nodes H) \<Longrightarrow> n' \<in> set (hash_nodes H) \<Longrightarrow> hn_key n = hn_key n' \<Longrightarrow> n = n'"
  by (auto simp: nodes_ok_def distinct_map inj_on_def)

lemma nodes_addr_inj:
  "nodes_ok H \<Longrightarrow> n \<in> set (hash_nodes H) \<Longrightarrow> n' \<in> set (hash_nodes H) \<Longrightarrow> hn_addr n = hn_addr n' \<Longrightarrow> n = n'"
  by (auto simp: nodes_ok_def distinct_map inj_on_def)

text \<open>Everything but the shape of the table depends on the multiset of nodes only.\<close>

lemma nodes_ok_mset:
  assumes "nodes_ok H" "mset (hash_nodes H') = mset (hash_nodes H)"
    and "hash_function H' = hash_function H" "hash_compare H' = hash_compare H"
    and "hash_nodecount H' = hash_nodecount H" "hash_maxcount H' = hash_maxcount H"
  shows "nodes_ok H'"
proof -
  have "distinct (map hn_key (hash_nodes H')) = distinct (map hn_key (hash_nodes H))"
    "distinct (map hn_addr (hash_nodes H')) = distinct (map hn_addr (hash_nodes H))"
    using assms(2) by (metis mset_map mset_eq_imp_distinct_iff)+
  moreover have "set (hash_nodes H') = set (hash_nodes H)" "length (hash_nodes H') = length (hash_nodes H)"
    using assms(2) by (metis set_mset_mset, metis size_mset)
  ultimately show ?thesis using assms by (simp add: nodes_ok_def)
qed

subsection \<open>Lookup\<close>

lemma lookup_chain_iff:
  assumes "\<forall>a b. hash_compare H a b = 0 \<longleftrightarrow> a = b" "\<forall>n \<in> set xs. hn_hkey n = hash_function H (hn_key n)"
    "distinct (map hn_key xs)"
  shows "lookup_chain H (hash_function H key) key xs = Some n \<longleftrightarrow> n \<in> set xs \<and> hn_key n = key"
  using assms(2,3) by (induction xs) (auto simp: assms(1))

lemma distinct_map_concat_nth:
  "distinct (map f (concat xs)) \<Longrightarrow> i < length xs \<Longrightarrow> distinct (map f (xs ! i))"
proof (induction xs arbitrary: i)
  case (Cons x xs)
  then show ?case by (cases i) auto
qed simp

lemma hash_lookup_iff:
  assumes "hash_ok H"
  shows "hash_lookup H key = Some n \<longleftrightarrow> n \<in> set (hash_nodes H) \<and> hn_key n = key"
proof -
  from assms obtain k where k: "chain_size_ok k H" and N: "nodes_ok H"
    by (auto simp: hash_ok_def)
  let ?c = "chain_index H (hash_function H key)"
  have c: "?c < length (hash_table H)" by (rule chain_index_less [OF k])
  have hk: "\<forall>n \<in> set (hash_table H ! ?c). hn_hkey n = hash_function H (hn_key n)"
    using N chain_in_nodes [OF c] by (auto simp: nodes_ok_def)
  have d: "distinct (map hn_key (hash_table H ! ?c))"
    using N c unfolding nodes_ok_def hash_nodes_def by (blast intro: distinct_map_concat_nth)
  have "hash_lookup H key = Some n \<longleftrightarrow> n \<in> set (hash_table H ! ?c) \<and> hn_key n = key"
    unfolding hash_lookup_def Let_def
    using N hk d by (intro lookup_chain_iff) (simp_all add: nodes_ok_def)
  also have "\<dots> \<longleftrightarrow> n \<in> set (hash_nodes H) \<and> hn_key n = key"
    using node_in_chain [OF assms, of n] chain_in_nodes [OF c, of n] N by (auto simp: nodes_ok_def)
  finally show ?thesis .
qed

lemma hash_lookup_None:
  assumes "hash_ok H"
  shows "hash_lookup H key = None \<longleftrightarrow> key \<notin> hn_key ` set (hash_nodes H)"
proof (cases "hash_lookup H key")
  case None
  then have "\<not> (n \<in> set (hash_nodes H) \<and> hn_key n = key)" for n
    using hash_lookup_iff [OF assms, of key n] by simp
  with None show ?thesis by auto
next
  case (Some n)
  then show ?thesis using hash_lookup_iff [OF assms, of key n] by auto
qed

subsection \<open>Resizing\<close>

lemma mset_split_chain:
  "mset (fst (split_chain b lo hi xs)) + mset (snd (split_chain b lo hi xs))
     = mset lo + mset hi + mset xs"
  by (induction b lo hi xs rule: split_chain.induct) (auto simp: ac_simps)

lemma set_split_chain:
  "set (fst (split_chain b lo hi xs)) = set lo \<union> {n \<in> set xs. hn_hkey n AND b = 0}"
  "set (snd (split_chain b lo hi xs)) = set hi \<union> {n \<in> set xs. hn_hkey n AND b \<noteq> 0}"
  by (induction b lo hi xs rule: split_chain.induct) auto

lemma mset_nodes_grow: "mset (hash_nodes (grow_table H)) = mset (hash_nodes H)"
proof -
  have "(\<Sum>xs\<leftarrow>T. mset (fst (split_chain b [] [] xs)) + mset (snd (split_chain b [] [] xs)))
      = mset (concat T)" for b and T :: "'a hnode list list"
    by (induction T) (simp_all add: mset_split_chain)
  then show ?thesis
    by (simp add: grow_table_def hash_nodes_def Let_def mset_concat_pairs comp_def del: concat_append map_map flip: map_append)
       (simp add: comp_def)
qed

lemma mask_grow: "push_bit 1 (mask k) OR 1 = (mask (Suc k) :: 64 word)"
  by (simp add: mask_Suc_double push_bit_eq_mult or.commute mult.commute)

lemma mask_exposed: "mask (Suc k) XOR mask k = (2 ^ k :: 64 word)"
  by (rule bit_word_eqI) (auto simp: bit_simps less_Suc_eq)

lemma exposed_bit_iff: "x AND 2 ^ k \<noteq> 0 \<longleftrightarrow> bit (unat x) k" for x :: "64 word"
  by (simp add: and_exp_eq_0_iff_not_bit bit_unsigned_iff)

lemma mod_double: "x mod 2 ^ Suc k = (if bit x k then 2 ^ k else 0) + x mod 2 ^ k" for x :: nat
  using take_bit_Suc_from_most [of k x] by (simp add: take_bit_eq_mod)

lemma mask_shrink: "drop_bit 1 (mask (Suc k)) = (mask k :: 64 word)" if "k < 64"
  using that by (intro bit_word_eqI) (auto simp: bit_simps)

lemma mod_half: "x mod 2 ^ Suc k mod 2 ^ k = x mod 2 ^ k" for x :: nat
  by (rule mod_mod_cancel) simp

lemma grow_size:
  assumes "chain_size_ok k H" "k < 60"
  shows "chain_size_ok (Suc k) (grow_table H)"
  using assms mask_grow [of k] by (simp add: chain_size_ok_def grow_table_def Let_def)

lemma grow_chains:
  assumes k: "chain_size_ok k H" "k < 60" and C: "chains_ok H"
  shows "chains_ok (grow_table H)"
proof -
  let ?G = "grow_table H" and ?N = "2 ^ k :: nat"
  have len: "length (hash_table H) = ?N" using k by (simp add: chain_size_ok_def)
  have bits: "(push_bit 1 (hash_mask H) OR 1) XOR hash_mask H = 2 ^ k"
    using k mask_grow [of k] mask_exposed [of k] by (simp add: chain_size_ok_def)
  have tbl: "hash_table ?G = map (\<lambda>xs. fst (split_chain (2 ^ k) [] [] xs)) (hash_table H)
      @ map (\<lambda>xs. snd (split_chain (2 ^ k) [] [] xs)) (hash_table H)"
    unfolding grow_table_def Let_def bits by (simp add: comp_def)
  have idx: "unat (hn_hkey n) mod ?N = c" if "c < ?N" "n \<in> set (hash_table H ! c)" for n c
    using C that len by (simp add: chains_ok_def chain_index_mod [OF k(1)])
  show ?thesis
    unfolding chains_ok_def
  proof (intro allI impI ballI)
    fix c n assume c: "c < length (hash_table ?G)" and n: "n \<in> set (hash_table ?G ! c)"
    have "unat (hn_hkey n) mod 2 ^ Suc k = c"
    proof (cases "c < ?N")
      case True
      with n len have "n \<in> set (hash_table H ! c)" "\<not> bit (unat (hn_hkey n)) k"
        by (auto simp: tbl nth_append set_split_chain simp flip: exposed_bit_iff)
      with True idx show ?thesis by (simp add: mod_double del: power_Suc)
    next
      case False
      with c n len have "n \<in> set (hash_table H ! (c - ?N))" "bit (unat (hn_hkey n)) k" "c - ?N < ?N"
        by (auto simp: tbl nth_append set_split_chain simp flip: exposed_bit_iff)
      with False idx show ?thesis by (simp add: mod_double del: power_Suc)
    qed
    then show "chain_index ?G (hn_hkey n) = c"
      by (simp add: chain_index_mod [OF grow_size [OF k]] del: power_Suc)
  qed
qed

lemma mset_nodes_shrink:
  assumes "chain_size_ok (Suc k) H"
  shows "mset (hash_nodes (shrink_table H)) = mset (hash_nodes H)"
proof -
  let ?n = "hash_nchains H div 2"
  have "length (hash_table H) = 2 * ?n" using assms by (simp add: chain_size_ok_def)
  then have "mset (hash_nodes (shrink_table H))
      = mset (concat (take ?n (hash_table H))) + mset (concat (drop ?n (hash_table H)))"
    by (simp add: shrink_table_def hash_nodes_def Let_def mset_concat_map2 del: mset_concat)
  also have "\<dots> = mset (concat (take ?n (hash_table H) @ drop ?n (hash_table H)))"
    by (simp del: append_take_drop_id mset_concat)
  finally show ?thesis by (simp only: append_take_drop_id hash_nodes_def)
qed

lemma shrink_size:
  assumes "chain_size_ok (Suc k) H" "6 \<le> k"
  shows "chain_size_ok k (shrink_table H)"
  using assms mask_shrink [of k] by (simp add: chain_size_ok_def shrink_table_def Let_def)

lemma shrink_chains:
  assumes k: "chain_size_ok (Suc k) H" "6 \<le> k" and C: "chains_ok H"
  shows "chains_ok (shrink_table H)"
  unfolding chains_ok_def
proof (intro allI impI ballI)
  let ?N = "2 ^ k :: nat"
  fix c n assume c: "c < length (hash_table (shrink_table H))"
    and n: "n \<in> set (hash_table (shrink_table H) ! c)"
  have len: "length (hash_table H) = 2 * ?N" and half: "hash_nchains H div 2 = ?N"
    using k by (simp_all add: chain_size_ok_def)
  from c len half have cN: "c < ?N" by (simp add: shrink_table_def Let_def)
  from n cN len half obtain d where "n \<in> set (hash_table H ! d)" "d = c \<or> d = c + ?N"
    by (auto simp: shrink_table_def Let_def add.commute)
  moreover from this(2) cN len have "d < length (hash_table H)" "d mod ?N = c" by auto
  ultimately have "unat (hn_hkey n) mod 2 ^ Suc k mod ?N = c"
    using C by (simp add: chains_ok_def chain_index_mod [OF k(1)] del: power_Suc)
  then show "chain_index (shrink_table H) (hn_hkey n) = c"
    by (simp only: chain_index_mod [OF shrink_size [OF k]] mod_half)
qed

lemma resize_fields [simp]:
  "hash_function (grow_table H) = hash_function H" "hash_compare (grow_table H) = hash_compare H"
  "hash_nodecount (grow_table H) = hash_nodecount H" "hash_maxcount (grow_table H) = hash_maxcount H"
  "hash_node_blocks (grow_table H) = hash_node_blocks H"
  "hash_function (shrink_table H) = hash_function H" "hash_compare (shrink_table H) = hash_compare H"
  "hash_nodecount (shrink_table H) = hash_nodecount H" "hash_maxcount (shrink_table H) = hash_maxcount H"
  "hash_node_blocks (shrink_table H) = hash_node_blocks H"
  by (simp_all add: grow_table_def shrink_table_def Let_def)

lemma grow_ok:
  assumes "hash_ok H" "must_grow H" "hash_nodecount H \<le> hash_maxcount H"
  shows "hash_ok (grow_table H)"
proof -
  from assms(1) obtain k where k: "chain_size_ok k H" and C: "chains_ok H" and N: "nodes_ok H"
    by (auto simp: hash_ok_def)
  have "2 * 2 ^ k \<le> (2 :: nat) ^ 60"
    using assms(2,3) k N by (simp add: must_grow_def chain_size_ok_def nodes_ok_def)
  then have "k < 60" by (metis Suc_le_lessD power_Suc power_le_imp_le_exp one_less_numeral_iff semiring_norm(76))
  with k C N show ?thesis
    using grow_size grow_chains nodes_ok_mset [OF N mset_nodes_grow] unfolding hash_ok_def by auto
qed

lemma shrink_ok:
  assumes "hash_ok H" "must_shrink H"
  shows "hash_ok (shrink_table H)" "mset (hash_nodes (shrink_table H)) = mset (hash_nodes H)"
proof -
  from assms(1) obtain k where k: "chain_size_ok k H" and C: "chains_ok H" and N: "nodes_ok H"
    by (auto simp: hash_ok_def)
  have "k \<noteq> 6" using assms(2) k by (auto simp: must_shrink_def chain_size_ok_def)
  with k obtain j where j: "k = Suc j" "6 \<le> j" by (cases k) (auto simp: chain_size_ok_def)
  show m: "mset (hash_nodes (shrink_table H)) = mset (hash_nodes H)"
    using mset_nodes_shrink k j by simp
  show "hash_ok (shrink_table H)"
    using k j C shrink_size shrink_chains nodes_ok_mset [OF N m] unfolding hash_ok_def by auto
qed

subsection \<open>Insertion and deletion\<close>

lemma nodes_ok_add:
  assumes N: "nodes_ok H" and m: "mset (hash_nodes H') = add_mset nd (mset (hash_nodes H))"
    and nd: "hn_hkey nd = hash_function H (hn_key nd)" "hn_key nd \<notin> hn_key ` set (hash_nodes H)"
      "hn_addr nd \<notin> hn_addr ` set (hash_nodes H)"
    and f: "hash_function H' = hash_function H" "hash_compare H' = hash_compare H"
      "hash_nodecount H' = Suc (hash_nodecount H)" "hash_maxcount H' = hash_maxcount H"
  shows "nodes_ok H'"
proof -
  have "mset (hash_nodes H') = mset (nd # hash_nodes H)" using m by simp
  then have "distinct (map hn_key (hash_nodes H')) = distinct (map hn_key (nd # hash_nodes H))"
    "distinct (map hn_addr (hash_nodes H')) = distinct (map hn_addr (nd # hash_nodes H))"
    "set (hash_nodes H') = set (nd # hash_nodes H)"
    "length (hash_nodes H') = length (nd # hash_nodes H)"
    by (metis mset_map mset_eq_imp_distinct_iff, metis mset_map mset_eq_imp_distinct_iff,
        metis set_mset_mset, metis size_mset)
  with assms show ?thesis by (simp add: nodes_ok_def)
qed

lemma chains_ok_update:
  assumes "chains_ok H" "c < length (hash_table H)"
    and "\<forall>n \<in> set xs. chain_index H (hn_hkey n) = c" "hash_mask H' = hash_mask H"
    and "hash_table H' = (hash_table H)[c := xs]"
  shows "chains_ok H'"
  using assms by (auto simp: chains_ok_def chain_index_def nth_list_update)

lemma hash_insert_ok:
  assumes H: "hash_ok H" and key: "hash_lookup H key = None"
    and addr: "hn_addr node \<notin> hn_addr ` set (hash_nodes H)"
    and room: "hash_nodecount H < hash_maxcount H"
  defines "node' \<equiv> node\<lparr>hn_key := key, hn_hkey := hash_function H key\<rparr>"
  shows "hash_ok (hash_insert b node key H)"
    and "mset (hash_nodes (hash_insert b node key H)) = add_mset node' (mset (hash_nodes H))"
proof -
  let ?G = "if must_grow H \<and> b then grow_table H else H"
  have G: "hash_ok ?G" "mset (hash_nodes ?G) = mset (hash_nodes H)" "hash_function ?G = hash_function H"
    using grow_ok [OF H] room H by (auto simp: mset_nodes_grow)
  then obtain k where k: "chain_size_ok k ?G" and C: "chains_ok ?G" and N: "nodes_ok ?G"
    by (auto simp: hash_ok_def)
  let ?c = "chain_index ?G (hash_function H key)"
  let ?I = "?G\<lparr>hash_table := (hash_table ?G)[?c := node' # hash_table ?G ! ?c],
               hash_nodecount := hash_nodecount ?G + 1\<rparr>"
  have c: "?c < length (hash_table ?G)" by (rule chain_index_less [OF k])
  have I: "hash_insert b node key H = ?I"
    using G(3) by (simp add: hash_insert_def Let_def node'_def)
  have mI: "mset (hash_nodes ?I) = add_mset node' (mset (hash_nodes ?G))"
    using mset_concat_update [OF c, of "node' # hash_table ?G ! ?c"] by (simp add: hash_nodes_def)
  show "mset (hash_nodes (hash_insert b node key H)) = add_mset node' (mset (hash_nodes H))"
    unfolding I mI G(2) ..
  have sets: "set (hash_nodes ?G) = set (hash_nodes H)" using G(2) by (metis set_mset_mset)
  have "nodes_ok ?I"
    by (rule nodes_ok_add [OF N mI])
      (use key addr hash_lookup_None [OF H] sets G(3) in \<open>auto simp: node'_def\<close>)
  moreover have "chains_ok ?I"
    by (rule chains_ok_update [OF C c]) (use C c in \<open>auto simp: chains_ok_def node'_def\<close>)
  moreover have "chain_size_ok k ?I" using k by (simp add: chain_size_ok_def)
  ultimately show "hash_ok (hash_insert b node key H)" unfolding I hash_ok_def by blast
qed

lemma unlink_chain_split:
  "hn_addr n \<notin> hn_addr ` set ys \<Longrightarrow> unlink_chain (hn_addr n) (ys @ n # zs) = Some (ys @ zs)"
  by (induction ys) auto

lemma unlink_chain_None: "a \<notin> hn_addr ` set xs \<Longrightarrow> unlink_chain a xs = None"
  by (induction xs) auto

lemma hash_scan_delete_split:
  assumes H: "hash_ok H" and c: "c < length (hash_table H)" and T: "hash_table H ! c = ys @ n # zs"
  shows "hash_scan_delete H n = Some (H\<lparr>hash_table := (hash_table H)[c := ys @ zs],
           hash_nodecount := hash_nodecount H - 1\<rparr>)" (is "_ = Some ?D")
    and "hash_ok (H\<lparr>hash_table := (hash_table H)[c := ys @ zs], hash_nodecount := hash_nodecount H - 1\<rparr>)"
proof -
  from H obtain k where k: "chain_size_ok k H" and C: "chains_ok H" and N: "nodes_ok H"
    by (auto simp: hash_ok_def)
  have idx: "chain_index H (hn_hkey n) = c" using C c T by (simp add: chains_ok_def)
  have "distinct (map hn_addr (ys @ n # zs))"
    using N c T unfolding nodes_ok_def hash_nodes_def by (metis distinct_map_concat_nth)
  then have "hn_addr n \<notin> hn_addr ` set ys" by auto
  then show "hash_scan_delete H n = Some ?D"
    by (simp add: hash_scan_delete_def idx T unlink_chain_split Let_def)
  have mD: "mset (hash_nodes H) = add_mset n (mset (hash_nodes ?D))"
    using mset_concat_update [OF c, of "ys @ zs"] T by (simp add: hash_nodes_def)
  then have m': "mset (n # hash_nodes ?D) = mset (hash_nodes H)" by simp
  then have "distinct (map hn_key (n # hash_nodes ?D))" "distinct (map hn_addr (n # hash_nodes ?D))"
    "set (n # hash_nodes ?D) = set (hash_nodes H)" "length (n # hash_nodes ?D) = length (hash_nodes H)"
    using N unfolding nodes_ok_def
    by (metis mset_map mset_eq_imp_distinct_iff, metis mset_map mset_eq_imp_distinct_iff,
        metis set_mset_mset, metis size_mset)
  with N have "nodes_ok ?D" by (auto simp: nodes_ok_def)
  moreover have "chains_ok ?D"
    by (rule chains_ok_update [OF C c]) (use C c T in \<open>auto simp: chains_ok_def\<close>)
  moreover have "chain_size_ok k ?D" using k by (simp add: chain_size_ok_def)
  ultimately show "hash_ok ?D" unfolding hash_ok_def by blast
qed

lemma hash_scan_delete_ok:
  assumes H: "hash_ok H" and n: "n \<in> set (hash_nodes H)"
  obtains H' where "hash_scan_delete H n = Some H'" "hash_ok H'"
    "mset (hash_nodes H) = add_mset n (mset (hash_nodes H'))"
    "hash_maxcount H' = hash_maxcount H" "hash_node_blocks H' = hash_node_blocks H"
    "hash_function H' = hash_function H"
proof -
  let ?c = "chain_index H (hn_hkey n)"
  have c: "?c < length (hash_table H)" using H chain_index_less unfolding hash_ok_def by blast
  from node_in_chain [OF H n] obtain ys zs where T: "hash_table H ! ?c = ys @ n # zs"
    by (meson split_list)
  have "mset (concat ((hash_table H)[?c := ys @ zs])) + mset (ys @ n # zs)
      = mset (concat (hash_table H)) + mset (ys @ zs)"
    using mset_concat_update [OF c, of "ys @ zs"] T by (simp only: T)
  then have "mset (hash_nodes H) = add_mset n (mset (concat ((hash_table H)[?c := ys @ zs])))"
    by (simp add: hash_nodes_def del: mset_concat)
  then show thesis
    using hash_scan_delete_split [OF H c T]
    by (intro that [of "H\<lparr>hash_table := (hash_table H)[?c := ys @ zs], hash_nodecount := hash_nodecount H - 1\<rparr>"])
       (simp_all add: hash_nodes_def)
qed

lemma hash_delete_ok:
  assumes H: "hash_ok H" and n: "n \<in> set (hash_nodes H)"
  obtains H' where "hash_delete H n = Some H'" "hash_ok H'"
    "mset (hash_nodes H) = add_mset n (mset (hash_nodes H'))"
    "hash_maxcount H' = hash_maxcount H" "hash_node_blocks H' = hash_node_blocks H"
    "hash_function H' = hash_function H"
proof -
  let ?S = "if must_shrink H then shrink_table H else H"
  have S: "hash_ok ?S" "mset (hash_nodes ?S) = mset (hash_nodes H)"
    using shrink_ok [OF H] H by auto
  then have "n \<in> set (hash_nodes ?S)" using n by (metis set_mset_mset)
  then obtain H' where "hash_scan_delete ?S n = Some H'" "hash_ok H'"
    "mset (hash_nodes ?S) = add_mset n (mset (hash_nodes H'))"
    "hash_maxcount H' = hash_maxcount ?S" "hash_node_blocks H' = hash_node_blocks ?S"
    "hash_function H' = hash_function ?S"
    using hash_scan_delete_ok [OF S(1)] by blast
  then show thesis
    using S(2) by (intro that [of H']) (simp_all add: hash_delete_def split: if_splits)
qed

lemma hash_delete_gone:
  assumes "hash_ok H" "hn_addr n \<notin> hn_addr ` set (hash_nodes H)"
  shows "hash_delete H n = None"
proof -
  let ?S = "if must_shrink H then shrink_table H else H"
  let ?c = "chain_index ?S (hn_hkey n)"
  have S: "hash_ok ?S" "mset (hash_nodes ?S) = mset (hash_nodes H)"
    using shrink_ok [OF assms(1)] assms(1) by auto
  then have "set (hash_nodes ?S) = set (hash_nodes H)" by (metis set_mset_mset)
  moreover have "?c < length (hash_table ?S)" using S(1) chain_index_less unfolding hash_ok_def by blast
  then have "set (hash_table ?S ! ?c) \<subseteq> set (hash_nodes ?S)" using chain_in_nodes by blast
  ultimately have "unlink_chain (hn_addr n) (hash_table ?S ! ?c) = None"
    using assms(2) by (intro unlink_chain_None) auto
  then show ?thesis by (simp add: hash_delete_def hash_scan_delete_def Let_def)
qed

subsection \<open>Scans\<close>

text \<open>
  \<open>scan_at H scan R\<close>: the nodes a scan in the state \<open>scan\<close> has still to return are \<open>R\<close>. They are
  the rest of a chain and the chains behind it.
\<close>

definition scan_at :: "'v hash_t \<Rightarrow> hscan \<Rightarrow> 'v hnode list \<Rightarrow> bool" where
  "scan_at H scan R \<longleftrightarrow>
     (case sc_next scan of
        None \<Rightarrow> R = []
      | Some a \<Rightarrow> \<exists>ys n zs. sc_chain scan < length (hash_table H)
          \<and> hash_table H ! sc_chain scan = ys @ n # zs \<and> hn_addr n = a
          \<and> R = n # zs @ concat (drop (Suc (sc_chain scan)) (hash_table H)))"

fun walk :: "('s \<Rightarrow> bool) \<Rightarrow> ('s \<Rightarrow> 'v hnode \<Rightarrow> bool) \<Rightarrow> ('s \<Rightarrow> 'v hnode \<Rightarrow> 's) \<Rightarrow> 's
    \<Rightarrow> 'v hnode list \<Rightarrow> 's \<times> 'v hnode list" where
  \<comment> \<open>the scan loop as a recursion over the list of nodes\<close>
  "walk guard del upd s [] = (s, [])"
| "walk guard del upd s (n # ns) =
     (if \<not> guard s then (s, n # ns)
      else let (s', kept) = walk guard del upd (upd s n) ns
           in (s', if del s n then kept else n # kept))"

lemma skip_empty_at:
  "start \<le> length T \<Longrightarrow> skip_empty T (length T) start \<le> length T
     \<and> start \<le> skip_empty T (length T) start
     \<and> concat (drop start T) = concat (drop (skip_empty T (length T) start) T)
     \<and> (skip_empty T (length T) start < length T \<longrightarrow> T ! skip_empty T (length T) start \<noteq> [])"
proof (induction "length T - start" arbitrary: start)
  case 0
  then show ?case by (subst (1 2 3 4 5) skip_empty.simps) simp
next
  case (Suc k)
  show ?case
  proof (cases "T ! start = []")
    case True
    have "start < length T" using Suc.hyps(2) by linarith
    then have "skip_empty T (length T) start = skip_empty T (length T) (Suc start)"
      using True by (subst skip_empty.simps) simp
    moreover have "concat (drop start T) = concat (drop (Suc start) T)"
      using Suc.hyps(2) True by (subst Cons_nth_drop_Suc [symmetric]) auto
    moreover have "k = length T - Suc start" "Suc start \<le> length T" using Suc.hyps(2) by linarith+
    ultimately show ?thesis using Suc.hyps(1) [of "Suc start"] by (metis Suc_leD)
  next
    case False
    then have "skip_empty T (length T) start = start" by (subst skip_empty.simps) simp
    with False Suc.prems show ?thesis by simp
  qed
qed

lemma hash_ok_length: "hash_ok H \<Longrightarrow> hash_nchains H = length (hash_table H)"
  by (auto simp: hash_ok_def chain_size_ok_def)

lemma scan_from_at:
  assumes "hash_nchains H = length (hash_table H)" "start \<le> length (hash_table H)"
  shows "scan_at H (scan_from H start old) (concat (drop start (hash_table H)))"
proof -
  let ?T = "hash_table H" and ?c = "skip_empty (hash_table H) (length (hash_table H)) start"
  note at = skip_empty_at [OF assms(2)]
  show ?thesis
  proof (cases "?c < length ?T")
    case True
    with at obtain n zs where "?T ! ?c = [] @ n # zs" by (cases "?T ! ?c") auto
    moreover have "drop ?c ?T = ?T ! ?c # drop (Suc ?c) ?T"
      using True by (simp only: Cons_nth_drop_Suc)
    then have "concat (drop start ?T) = ?T ! ?c @ concat (drop (Suc ?c) ?T)"
      using at by (simp del: concat.simps(2) add: concat.simps(2))
    ultimately show ?thesis
      using True assms(1) by (auto simp: scan_at_def scan_from_def Let_def)
  next
    case False
    with at have "concat (drop start ?T) = []" by simp
    then show ?thesis using False assms(1) by (simp add: scan_at_def scan_from_def Let_def)
  qed
qed

lemma hash_scan_begin_at: "hash_ok H \<Longrightarrow> scan_at H (hash_scan_begin H) (hash_nodes H)"
  using scan_from_at [of H 0 0] by (simp add: hash_ok_length hash_scan_begin_def hash_nodes_def)

lemma node_tail_split:
  "hn_addr n \<notin> hn_addr ` set ys \<Longrightarrow> node_tail (hn_addr n) (ys @ n # zs) = n # zs"
  unfolding node_tail_def by (subst dropWhile_append2) (auto simp: image_iff)

lemma scan_at_chain_change:
  \<comment> \<open>a scan that stands behind a place does not see a change there\<close>
  assumes "scan_at H scan R" "sc_chain scan > c"
    and "hash_table H' = (hash_table H)[c := xs]"
  shows "scan_at H' scan R"
  using assms by (cases "sc_next scan") (auto simp: scan_at_def)

lemma scan_from_next:
  assumes "hash_nchains H = length (hash_table H)" "c < length (hash_table H)"
    and "hash_table H' = (hash_table H)[c := xs]"
  shows "scan_at H' (scan_from H (Suc c) c) (concat (drop (Suc c) (hash_table H)))"
proof -
  let ?s = "scan_from H (Suc c) c"
  have at: "scan_at H ?s (concat (drop (Suc c) (hash_table H)))"
    using scan_from_at [of H "Suc c" c] assms by simp
  show ?thesis
  proof (cases "sc_next ?s")
    case None
    then show ?thesis using at by (simp add: scan_at_def)
  next
    case (Some a)
    then have "sc_chain ?s > c"
      using skip_empty_at [of "Suc c" "hash_table H"] assms(1,2)
      by (auto simp: scan_from_def Let_def split: if_splits)
    then show ?thesis using scan_at_chain_change [OF at _ assms(3)] by simp
  qed
qed

lemma hash_scan_next_at:
  assumes H: "hash_ok H" and at: "scan_at H scan (n # R)"
  obtains ys zs scan' where
    "hash_scan_next H scan = (Some n, scan')"
    "sc_chain scan < length (hash_table H)" "hash_table H ! sc_chain scan = ys @ n # zs"
    "R = zs @ concat (drop (Suc (sc_chain scan)) (hash_table H))"
    "scan_at H scan' R"
    "\<And>H'. hash_table H' = (hash_table H)[sc_chain scan := ys @ zs] \<Longrightarrow> scan_at H' scan' R"
proof -
  let ?T = "hash_table H" and ?c = "sc_chain scan"
  from at obtain ys zs where c: "?c < length ?T" and T: "?T ! ?c = ys @ n # zs"
    and a: "sc_next scan = Some (hn_addr n)" and R: "R = zs @ concat (drop (Suc ?c) ?T)"
    by (auto simp: scan_at_def split: option.splits)
  have "distinct (map hn_addr (ys @ n # zs))"
    using H c T unfolding hash_ok_def nodes_ok_def hash_nodes_def by (metis distinct_map_concat_nth)
  then have tail: "node_tail (hn_addr n) (?T ! ?c) = n # zs"
    unfolding T by (intro node_tail_split) auto
  show thesis
  proof (cases zs)
    case Nil
    let ?s = "scan_from H (Suc ?c) ?c"
    show thesis
    proof (rule that [OF _ c T R])
      show "hash_scan_next H scan = (Some n, ?s)" using a tail Nil by (simp add: hash_scan_next_def)
      show "scan_at H ?s R"
        using scan_from_at [of H "Suc ?c" ?c] hash_ok_length [OF H] c R Nil by simp
      show "scan_at H' ?s R" if "hash_table H' = ?T[?c := ys @ zs]" for H'
        using scan_from_next [OF hash_ok_length [OF H] c that] R Nil by simp
    qed
  next
    case (Cons m ms)
    let ?s = "scan\<lparr>sc_next := Some (hn_addr m)\<rparr>"
    show thesis
    proof (rule that [OF _ c T R])
      show "hash_scan_next H scan = (Some n, ?s)" using a tail Cons by (simp add: hash_scan_next_def)
      have "?T ! ?c = (ys @ [n]) @ m # ms" using T Cons by simp
      then show "scan_at H ?s R" using c R Cons by (auto simp: scan_at_def)
      show "scan_at H' ?s R" if "hash_table H' = ?T[?c := ys @ zs]" for H'
        using c R Cons that by (auto simp: scan_at_def)
    qed
  qed
qed

lemma hash_scan_next_end: "scan_at H scan [] \<Longrightarrow> fst (hash_scan_next H scan) = None"
  by (auto simp: scan_at_def hash_scan_next_def split: option.splits)

lemma scan_nodes_delete:
  assumes "c < length T" "T ! c = ys @ n # zs" "concat T = P @ n # zs @ concat (drop (Suc c) T)"
  shows "concat (T[c := ys @ zs]) = P @ zs @ concat (drop (Suc c) T)"
proof -
  have "concat T = concat (take c T @ T ! c # drop (Suc c) T)"
    using id_take_nth_drop [OF assms(1)] by simp
  with assms(2,3) have "P = concat (take c T) @ ys" by simp
  then show ?thesis using assms(1) by (simp add: upd_conv_take_nth_drop)
qed

lemma scan_loop_walk:
  assumes "hash_ok H" "hash_nodes H = P @ R" "scan_at H scan R" "length R < fuel"
  shows "\<exists>H'. scan_loop fuel guard del upd scan s H = Some (fst (walk guard del upd s R), H')
    \<and> hash_ok H' \<and> hash_nodes H' = P @ snd (walk guard del upd s R)
    \<and> H' = H\<lparr>hash_table := hash_table H', hash_nodecount := hash_nodecount H'\<rparr>"
  using assms
proof (induction R arbitrary: H P scan s fuel)
  case Nil
  then obtain f where "fuel = Suc f" by (cases fuel) auto
  with Nil hash_scan_next_end [OF Nil.prems(3)] show ?case
    by (cases "hash_scan_next H scan") (auto simp: scan_loop.simps)
next
  case (Cons n R)
  then obtain f where f: "fuel = Suc f" "length R < f" by (cases fuel) auto
  from hash_scan_next_at [OF Cons.prems(1,3)] obtain ys zs scan' where
    nx: "hash_scan_next H scan = (Some n, scan')"
    and c: "sc_chain scan < length (hash_table H)" "hash_table H ! sc_chain scan = ys @ n # zs"
    and R: "R = zs @ concat (drop (Suc (sc_chain scan)) (hash_table H))"
    and at: "scan_at H scan' R"
    and at': "\<And>H'. hash_table H' = (hash_table H)[sc_chain scan := ys @ zs] \<Longrightarrow> scan_at H' scan' R"
    by metis
  show ?case
  proof (cases "guard s")
    case False
    with Cons.prems f show ?thesis by (auto simp: scan_loop.simps)
  next
    case g: True
    show ?thesis
    proof (cases "del s n")
      case False
      have nodes: "hash_nodes H = (P @ [n]) @ R" using Cons.prems(2) by simp
      from Cons.IH [OF Cons.prems(1) nodes at f(2), of "upd s n"] show ?thesis
        using f g False nx by (auto simp: scan_loop.simps case_prod_beta Let_def)
    next
      case True
      let ?D = "H\<lparr>hash_table := (hash_table H)[sc_chain scan := ys @ zs],
                 hash_nodecount := hash_nodecount H - 1\<rparr>"
      note D = hash_scan_delete_split [OF Cons.prems(1) c]
      have nodes: "hash_nodes ?D = P @ R"
        using scan_nodes_delete [OF c] Cons.prems(2) R by (simp add: hash_nodes_def)
      have "scan_at ?D scan' R" by (rule at') simp
      from Cons.IH [OF D(2) nodes this f(2), of "upd s n"] show ?thesis
        using f g True nx D(1) by (auto simp: scan_loop.simps case_prod_beta Let_def)
    qed
  qed
qed

lemma scan_all:
  assumes "hash_ok H"
  obtains H' where "scan_loop (Suc (length (hash_nodes H))) guard del upd (hash_scan_begin H) s H
      = Some (fst (walk guard del upd s (hash_nodes H)), H')"
    "hash_ok H'" "hash_nodes H' = snd (walk guard del upd s (hash_nodes H))"
    "H' = H\<lparr>hash_table := hash_table H', hash_nodecount := hash_nodecount H'\<rparr>"
  using scan_loop_walk [OF assms _ hash_scan_begin_at [OF assms] lessI, of "[]"] that
  by (metis append_Nil)

lemma walk_all: "walk (\<lambda>_. True) (\<lambda>_ _. True) (\<lambda>n _. n + 1) s ns = (s + int (length ns), [])"
  by (induction ns arbitrary: s) auto

lemma hash_free_nodes_ok:
  assumes "hash_ok H"
  obtains H' where "hash_free_nodes H h
      = Some (H', release (int (length (hash_nodes H)) * hash_node_blocks H) h)"
    "hash_nodes H' = []" "hash_nodecount H' = 0"
proof -
  obtain H' where "scan_loop (Suc (length (hash_nodes H))) (\<lambda>_. True) (\<lambda>_ _. True) (\<lambda>n _. n + 1)
      (hash_scan_begin H) (0::int) H = Some (int (length (hash_nodes H)), H')"
    by (rule scan_all [OF assms, of "\<lambda>_. True" "\<lambda>_ _. True" "\<lambda>n _. n + 1" "0::int"]) (simp add: walk_all)
  then show thesis
    by (intro that [of "clear_table (H'\<lparr>hash_nodecount := 0\<rparr>)"])
       (simp_all add: hash_free_nodes_def clear_table_def hash_nodes_def)
qed

section \<open>The table as a finite map\<close>

definition hash_find :: "'v hash_t \<Rightarrow> string \<Rightarrow> 'v option" where
  "hash_find H key = map_option hn_data (hash_lookup H key)"

definition hash_room :: "'v hash_t \<Rightarrow> bool" where
  "hash_room H \<longleftrightarrow> hash_nodecount H < hash_maxcount H"

definition table_put :: "bool \<Rightarrow> string \<Rightarrow> 'v \<Rightarrow> 'v hash_t \<Rightarrow> 'v hash_t" where
  "table_put b key data H =
     hash_insert b \<lparr>hn_addr = fresh_addr H, hn_key = key, hn_data = data, hn_hkey = 0\<rparr> key H"

definition table_drop :: "string \<Rightarrow> 'v hash_t \<Rightarrow> 'v hash_t" where
  "table_drop key H =
     (case hash_lookup H key of None \<Rightarrow> H
      | Some n \<Rightarrow> (case hash_delete H n of None \<Rightarrow> H | Some H' \<Rightarrow> H'))"

text \<open>
  The contract a client of a bounded keyed store relies on. \<open>find\<close> is the abstract state; \<open>put\<close>
  needs an absent key and room, \<open>drop_key\<close> a present key.
\<close>

locale keyed_store =
  fixes inv :: "'t \<Rightarrow> bool" and room :: "'t \<Rightarrow> bool" and find :: "'t \<Rightarrow> 'k \<Rightarrow> 'v option"
    and put :: "'k \<Rightarrow> 'v \<Rightarrow> 't \<Rightarrow> 't" and drop_key :: "'k \<Rightarrow> 't \<Rightarrow> 't" and size_of :: "'t \<Rightarrow> nat"
  assumes put_law: "inv t \<Longrightarrow> room t \<Longrightarrow> find t k = None \<Longrightarrow>
      inv (put k v t) \<and> find (put k v t) = (find t)(k \<mapsto> v) \<and> size_of (put k v t) = Suc (size_of t)"
    and drop_law: "inv t \<Longrightarrow> find t k \<noteq> None \<Longrightarrow>
      inv (drop_key k t) \<and> find (drop_key k t) = (find t)(k := None)
        \<and> Suc (size_of (drop_key k t)) = size_of t \<and> room (drop_key k t)"
    and size_law: "inv t \<Longrightarrow> finite (dom (find t)) \<and> size_of t = card (dom (find t))"
begin

definition replace :: "'k \<Rightarrow> 'v \<Rightarrow> 't \<Rightarrow> 't" where
  "replace k v t = put k v (if find t k = None then t else drop_key k t)"

lemma replace_ok:
  assumes "inv t" "room t \<or> find t k \<noteq> None"
  shows "inv (replace k v t) \<and> find (replace k v t) = (find t)(k \<mapsto> v)
    \<and> size_of (replace k v t) = size_of t + (if find t k = None then 1 else 0)"
proof (cases "find t k = None")
  case True
  with assms put_law [of t k v] show ?thesis by (simp add: replace_def)
next
  case False
  from drop_law [OF assms(1) False]
  have D: "inv (drop_key k t)" "find (drop_key k t) = (find t)(k := None)"
    "Suc (size_of (drop_key k t)) = size_of t" "room (drop_key k t)" by simp_all
  then show ?thesis using put_law [of "drop_key k t" k v] False by (auto simp: replace_def)
qed

lemma put_drop:
  "inv t \<Longrightarrow> room t \<Longrightarrow> find t k = None \<Longrightarrow> find (drop_key k (put k v t)) = find t"
  using put_law [of t k v] drop_law [of "put k v t" k] by (auto simp: fun_upd_idem)

lemma size_zero: "inv t \<Longrightarrow> size_of t = 0 \<longleftrightarrow> find t = Map.empty"
  using size_law [of t] by (auto simp: dom_eq_empty_conv)

end

lemma hash_lookup_add:
  assumes "hash_ok H" "hash_ok H'" "mset (hash_nodes H') = add_mset n (mset (hash_nodes H))"
  shows "hash_lookup H' = (hash_lookup H)(hn_key n \<mapsto> n)" "hash_lookup H (hn_key n) = None"
    "hash_nodecount H' = Suc (hash_nodecount H)"
proof -
  have set: "set (hash_nodes H') = insert n (set (hash_nodes H))"
    using arg_cong [OF assms(3), of set_mset] by simp
  have "mset (map hn_key (hash_nodes H')) = mset (hn_key n # map hn_key (hash_nodes H))"
    using arg_cong [OF assms(3), of "image_mset hn_key"] by simp
  then have "distinct (hn_key n # map hn_key (hash_nodes H))"
    using assms(2) unfolding hash_ok_def nodes_ok_def by (metis mset_eq_imp_distinct_iff)
  then have new: "hn_key n \<notin> hn_key ` set (hash_nodes H)" by simp
  then show "hash_lookup H (hn_key n) = None" using hash_lookup_None [OF assms(1)] by simp
  have "hash_lookup H' k = ((hash_lookup H)(hn_key n \<mapsto> n)) k" for k
  proof (cases "k = hn_key n")
    case True
    then show ?thesis using hash_lookup_iff [OF assms(2), of k n] set by simp
  next
    case False
    have "hash_lookup H' k = Some m \<longleftrightarrow> hash_lookup H k = Some m" for m
      using False set by (auto simp: hash_lookup_iff [OF assms(1)] hash_lookup_iff [OF assms(2)])
    then show ?thesis using False by (cases "hash_lookup H k") auto
  qed
  then show "hash_lookup H' = (hash_lookup H)(hn_key n \<mapsto> n)" by (rule ext)
  show "hash_nodecount H' = Suc (hash_nodecount H)"
    using assms(1,2) arg_cong [OF assms(3), of size] unfolding hash_ok_def nodes_ok_def
    by (metis size_add_mset size_mset)
qed

lemma fold_max_ge: "x \<in> set xs \<or> x \<le> a \<Longrightarrow> x \<le> fold max xs (a::nat)"
proof (induction xs arbitrary: a)
  case (Cons y ys)
  have "x \<in> set ys \<or> x \<le> max y a" using Cons.prems by auto
  from Cons.IH [OF this] show ?case by simp
qed simp

lemma fresh_addr: "fresh_addr H \<notin> hn_addr ` set (hash_nodes H)"
proof
  assume "fresh_addr H \<in> hn_addr ` set (hash_nodes H)"
  then have "fresh_addr H \<le> fold max (map hn_addr (hash_nodes H)) 0"
    by (intro fold_max_ge) simp
  then show False by (simp add: fresh_addr_def)
qed

lemma table_put_ok:
  assumes "hash_ok H" "hash_room H" "hash_find H k = None"
  shows "hash_ok (table_put b k v H)" "hash_find (table_put b k v H) = (hash_find H)(k \<mapsto> v)"
    "hash_nodecount (table_put b k v H) = Suc (hash_nodecount H)"
    "hash_maxcount (table_put b k v H) = hash_maxcount H"
    "hash_node_blocks (table_put b k v H) = hash_node_blocks H"
proof -
  let ?n = "\<lparr>hn_addr = fresh_addr H, hn_key = k, hn_data = v, hn_hkey = 0\<rparr>"
  have "hash_lookup H k = None" "hash_nodecount H < hash_maxcount H" "hn_addr ?n \<notin> hn_addr ` set (hash_nodes H)"
    using assms fresh_addr [of H] by (simp_all add: hash_find_def hash_room_def)
  note I = hash_insert_ok [OF assms(1) this(1) this(3) this(2), of b]
  show ok: "hash_ok (table_put b k v H)" using I(1) by (simp add: table_put_def)
  have m: "mset (hash_nodes (table_put b k v H))
      = add_mset (?n\<lparr>hn_key := k, hn_hkey := hash_function H k\<rparr>) (mset (hash_nodes H))"
    using I(2) by (simp add: table_put_def)
  note L = hash_lookup_add [OF assms(1) ok m]
  show "hash_find (table_put b k v H) = (hash_find H)(k \<mapsto> v)"
    by (rule ext) (simp add: hash_find_def L(1))
  show "hash_nodecount (table_put b k v H) = Suc (hash_nodecount H)" by (rule L(3))
  show "hash_maxcount (table_put b k v H) = hash_maxcount H"
    "hash_node_blocks (table_put b k v H) = hash_node_blocks H"
    by (simp_all add: table_put_def hash_insert_def Let_def)
qed

lemma table_drop_ok:
  assumes "hash_ok H" "hash_lookup H k = Some n"
  shows "hash_delete H n = Some (table_drop k H)" "hash_ok (table_drop k H)"
    "hash_find (table_drop k H) = (hash_find H)(k := None)"
    "Suc (hash_nodecount (table_drop k H)) = hash_nodecount H"
    "hash_maxcount (table_drop k H) = hash_maxcount H"
    "hash_node_blocks (table_drop k H) = hash_node_blocks H"
proof -
  have n: "n \<in> set (hash_nodes H)" "hn_key n = k" using hash_lookup_iff [OF assms(1)] assms(2) by simp_all
  from hash_delete_ok [OF assms(1) n(1)] obtain H' where H': "hash_delete H n = Some H'" "hash_ok H'"
    "mset (hash_nodes H) = add_mset n (mset (hash_nodes H'))"
    "hash_maxcount H' = hash_maxcount H" "hash_node_blocks H' = hash_node_blocks H"
    by blast
  note L = hash_lookup_add [OF H'(2) assms(1) H'(3)]
  have T: "table_drop k H = H'" using H'(1) assms(2) by (simp add: table_drop_def)
  show "hash_delete H n = Some (table_drop k H)" "hash_ok (table_drop k H)"
    "hash_maxcount (table_drop k H) = hash_maxcount H"
    "hash_node_blocks (table_drop k H) = hash_node_blocks H"
    unfolding T by (rule H')+
  show "hash_find (table_drop k H) = (hash_find H)(k := None)"
    unfolding T by (rule ext) (use L n in \<open>simp add: hash_find_def\<close>)
  show "Suc (hash_nodecount (table_drop k H)) = hash_nodecount H" unfolding T L(3) ..
qed

definition hash_bounded :: "'v hash_t \<Rightarrow> bool" where
  "hash_bounded H \<longleftrightarrow> hash_ok H \<and> hash_nodecount H \<le> hash_maxcount H"

lemma hash_find_size:
  assumes "hash_ok H"
  shows "finite (dom (hash_find H)) \<and> hash_nodecount H = card (dom (hash_find H))"
proof -
  have "dom (hash_find H) = set (map hn_key (hash_nodes H))"
    using hash_lookup_iff [OF assms] by (force simp: hash_find_def dom_def)
  moreover have "card (set (map hn_key (hash_nodes H))) = hash_nodecount H"
    using assms distinct_card [of "map hn_key (hash_nodes H)"] by (simp add: hash_ok_def nodes_ok_def)
  ultimately show ?thesis by simp
qed

interpretation table: keyed_store hash_bounded hash_room hash_find "table_put b" table_drop hash_count for b
proof unfold_locales
  fix t :: "'a hash_t" and k v
  assume A: "hash_bounded t" "hash_room t" "hash_find t k = None"
  then show "hash_bounded (table_put b k v t) \<and> hash_find (table_put b k v t) = (hash_find t)(k \<mapsto> v)
      \<and> hash_count (table_put b k v t) = Suc (hash_count t)"
    using table_put_ok [of t k b v] by (simp add: hash_bounded_def hash_count_def hash_room_def)
next
  fix t :: "'a hash_t" and k
  assume A: "hash_bounded t" "hash_find t k \<noteq> None"
  then obtain n where "hash_lookup t k = Some n" by (auto simp: hash_find_def)
  with A table_drop_ok [of t k n] show "hash_bounded (table_drop k t)
      \<and> hash_find (table_drop k t) = (hash_find t)(k := None)
      \<and> Suc (hash_count (table_drop k t)) = hash_count t \<and> hash_room (table_drop k t)"
    by (simp add: hash_bounded_def hash_count_def hash_room_def)
next
  fix t :: "'a hash_t"
  assume "hash_bounded t"
  then show "finite (dom (hash_find t)) \<and> hash_count t = card (dom (hash_find t))"
    using hash_find_size [of t] by (simp add: hash_bounded_def hash_count_def)
qed

lemma table_replace_fields:
  assumes "hash_bounded H" "hash_room H \<or> hash_find H k \<noteq> None"
  shows "hash_maxcount (table.replace b k v H) = hash_maxcount H"
    "hash_node_blocks (table.replace b k v H) = hash_node_blocks H"
proof -
  let ?D = "if hash_find H k = None then H else table_drop k H"
  have D: "hash_ok ?D" "hash_room ?D" "hash_find ?D k = None" "hash_maxcount ?D = hash_maxcount H"
    "hash_node_blocks ?D = hash_node_blocks H"
    using assms table.drop_law [of H k] table_drop_ok [of H k]
    by (cases "hash_lookup H k"; simp add: hash_bounded_def hash_find_def [of H k])+
  then show "hash_maxcount (table.replace b k v H) = hash_maxcount H"
    "hash_node_blocks (table.replace b k v H) = hash_node_blocks H"
    using table_put_ok(4,5) [OF D(1,2,3)] by (simp_all add: table.replace_def)
qed

subsection \<open>The operations that manage memory\<close>

lemma hash_alloc_insert_simps:
  "\<not> alloc_ok h \<Longrightarrow> hash_alloc_insert k v H h = (False, H, alloc_next h)"
  "alloc_ok h \<Longrightarrow> hash_alloc_insert k v H h
     = (True, table_put (alloc_ok (alloc_next h)) k v H,
        if must_grow H then realloc_next (alloc_next h) else alloc_next h)"
  by (simp_all add: hash_alloc_insert_def table_put_def Let_def)

lemma hash_delete_free_ok:
  assumes "hash_ok H" "hash_lookup H k = Some n"
  shows "hash_delete_free H n h = (Some (table_drop k H),
    release (hash_node_blocks H) (if must_shrink H then realloc_next h else h))"
  using table_drop_ok [OF assms] by (simp add: hash_delete_free_def Let_def)

lemma hash_delete_free_gone:
  "hash_ok H \<Longrightarrow> hn_addr n \<notin> hn_addr ` set (hash_nodes H) \<Longrightarrow>
     hash_delete_free H n h = (None, add_fault Null_deref (if must_shrink H then realloc_next h else h))"
  by (simp add: hash_delete_free_def hash_delete_gone Let_def)

lemma hash_create_ok:
  assumes "\<forall>a b. given cmp hash_comp_default a b = 0 \<longleftrightarrow> a = b" "maxcount \<le> 2 ^ 60" "hash_create maxcount cmp fn h = (Some H, h')"
  shows "hash_bounded H" "hash_nodes H = []" "hash_find H = Map.empty" "hash_maxcount H = maxcount"
    "hash_node_blocks H = 1" "live h' = live h + 2" "faults h' = faults h"
proof -
  have H: "H = \<lparr>hash_table = replicate 64 [], hash_nchains = 64,
                  hash_nodecount = 0, hash_maxcount = maxcount,
                  hash_highmark = 128, hash_lowmark = 32,
                  hash_compare = given cmp hash_comp_default, hash_function = given fn hash_fun_default,
                  hash_node_blocks = 1,
                  hash_mask = 63, hash_dynamic = True\<rparr>"
    and h': "live h' = live h + 2" "faults h' = faults h"
    using assms(3) by (auto simp: hash_create_def heap_simps split: if_splits)
  show nodes: "hash_nodes H = []" by (simp add: H hash_nodes_def)
  have "chain_size_ok 6 H" unfolding H chain_size_ok_def by (simp add: mask_eq_exp_minus_1)
  moreover have "chains_ok H" unfolding chains_ok_def
  proof (intro allI impI ballI)
    fix c n assume "c < length (hash_table H)" "n \<in> set (hash_table H ! c)"
    then have "n \<in> set (hash_nodes H)" by (rule chain_in_nodes)
    then show "chain_index H (hn_hkey n) = c" by (simp add: nodes)
  qed
  moreover have "nodes_ok H" unfolding nodes_ok_def nodes using assms(1,2) by (simp add: H)
  ultimately have "hash_ok H" unfolding hash_ok_def by blast
  then show "hash_bounded H" "hash_find H = Map.empty"
    using nodes hash_lookup_None [of H] by (auto simp: hash_bounded_def hash_find_def H)
  show "hash_maxcount H = maxcount" "hash_node_blocks H = 1" by (simp_all add: H)
  show "live h' = live h + 2" "faults h' = faults h" by (rule h')+
qed

lemma hash_create_fail:
  assumes "hash_create maxcount cmp fn h = (None, h')"
  shows "live h' = live h" "faults h' = faults h"
  using assms by (auto simp: hash_create_def heap_simps split: if_splits)

lemma hash_set_allocator_ok [simp]:
  "hash_ok (hash_set_allocator n H) = hash_ok H" "hash_nodes (hash_set_allocator n H) = hash_nodes H"
  "hash_lookup (hash_set_allocator n H) k = hash_lookup H k"
proof -
  have "lookup_chain (hash_set_allocator n H) hk k xs = lookup_chain H hk k xs" for hk xs
    by (induction xs) (simp_all add: hash_set_allocator_def)
  then show "hash_lookup (hash_set_allocator n H) k = hash_lookup H k"
    by (simp add: hash_lookup_def Let_def chain_index_def hash_set_allocator_def)
qed (simp_all add: hash_set_allocator_def hash_ok_def chain_size_ok_def chains_ok_def nodes_ok_def
  hash_nodes_def chain_index_def)

section \<open>Properties\<close>

text \<open>
  A client's use of the table: insertions of absent keys while there is room (each with the
  outcome of the \<^verbatim>\<open>realloc\<close> that may be due) and deletions of present keys; other requests are
  left out, as the code's assertions demand. The specification does the same on a map.
\<close>

datatype 'v table_op = Put bool string 'v | Drop string

fun table_step :: "'v hash_t \<Rightarrow> 'v table_op \<Rightarrow> 'v hash_t" where
  "table_step H (Put b k v) =
     (if hash_lookup H k = None \<and> hash_room H then table_put b k v H else H)"
| "table_step H (Drop k) = (if hash_lookup H k = None then H else table_drop k H)"

fun map_step :: "nat \<Rightarrow> (string \<Rightarrow> 'v option) \<Rightarrow> 'v table_op \<Rightarrow> string \<Rightarrow> 'v option" where
  "map_step maxcount m (Put b k v) =
     (if m k = None \<and> card (dom m) < maxcount then m(k \<mapsto> v) else m)"
| "map_step maxcount m (Drop k) = m(k := None)"

lemma table_step_map:
  assumes "hash_bounded H"
  shows "hash_bounded (table_step H x) \<and> hash_maxcount (table_step H x) = hash_maxcount H
    \<and> hash_find (table_step H x) = map_step (hash_maxcount H) (hash_find H) x"
proof (cases x)
  case (Put b k v)
  have "hash_room H \<longleftrightarrow> card (dom (hash_find H)) < hash_maxcount H"
    using table.size_law [OF assms] by (simp add: hash_room_def hash_count_def)
  with Put assms table_put_ok [of H k b v] show ?thesis
    by (auto simp: hash_bounded_def hash_find_def hash_room_def)
next
  case (Drop k)
  show ?thesis
  proof (cases "hash_lookup H k")
    case None
    with Drop assms show ?thesis by (auto simp: hash_find_def fun_upd_idem)
  next
    case (Some n)
    with Drop assms table_drop_ok [OF _ Some] show ?thesis
      by (simp add: hash_bounded_def)
  qed
qed

lemma table_run_map:
  "hash_bounded H \<Longrightarrow> hash_bounded (foldl table_step H ops)
    \<and> hash_find (foldl table_step H ops) = foldl (map_step (hash_maxcount H)) (hash_find H) ops"
  by (induction ops arbitrary: H) (simp_all add: table_step_map)

text \<open>
  C17: the hash table refines a bounded finite map. A table created for at most \<open>2 ^ 60\<close> entries
  with \<^verbatim>\<open>strcmp\<close> and any hash function answers after every sequence of insertions and
  deletions, whichever of the resizes in between fail, exactly what the map would; its
  structural invariant holds and its count is the number of keys.
\<close>

theorem hash_table_refines_map:
  assumes "hash_create maxcount (Some strcmp) hashfun h = (Some H, h')" "maxcount \<le> 2 ^ 60"
  shows "hash_find (foldl table_step H ops) = foldl (map_step maxcount) Map.empty ops
    \<and> hash_ok (foldl table_step H ops)
    \<and> hash_count (foldl table_step H ops) = card (dom (foldl (map_step maxcount) Map.empty ops))"
proof -
  note C = hash_create_ok [OF _ assms(2,1)]
  have "hash_bounded (foldl table_step H ops)"
    "hash_find (foldl table_step H ops) = foldl (map_step maxcount) Map.empty ops"
    using table_run_map [of H ops] C by simp_all
  then show ?thesis using table.size_law [of "foldl table_step H ops"] by (simp add: hash_bounded_def)
qed

theorem hash_table_refines_map_witness:
  "\<exists>H h'. hash_create 2 (Some strcmp) (Some Hashfunc_djb2) quiet_heap = (Some H, h')
    \<and> hash_find (foldl table_step H [Put True ''a'' (1::nat), Put True ''b'' 2, Put True ''c'' 3, Drop ''a''])
        = [''b'' \<mapsto> 2]"
proof -
  obtain H :: "nat hash_t" and h' where H: "hash_create 2 (Some strcmp) (Some Hashfunc_djb2) quiet_heap = (Some H, h')"
    by (simp add: hash_create_def quiet_heap_def heap_simps)
  from hash_table_refines_map [OF H, of "[Put True ''a'' 1, Put True ''b'' 2, Put True ''c'' 3, Drop ''a'']"]
  have "hash_find (foldl table_step H [Put True ''a'' 1, Put True ''b'' 2, Put True ''c'' 3, Drop ''a''])
      = [''b'' \<mapsto> 2]"
    by (simp add: fun_upd_twist)
  with H show ?thesis by blast
qed

text \<open>
  Doubling and halving the table keep the invariant and lose no node: the same lookups
  succeed with the same results, for every table in a state that asks for the resize.
\<close>

theorem resize_keeps_lookups:
  assumes "hash_bounded H"
  shows "(must_grow H \<longrightarrow> hash_ok (grow_table H) \<and> hash_lookup (grow_table H) = hash_lookup H)
    \<and> (must_shrink H \<longrightarrow> hash_ok (shrink_table H) \<and> hash_lookup (shrink_table H) = hash_lookup H)"
proof -
  have ok: "hash_ok H" "hash_nodecount H \<le> hash_maxcount H" using assms by (simp_all add: hash_bounded_def)
  have same: "hash_lookup H' = hash_lookup H" if "hash_ok H'" "mset (hash_nodes H') = mset (hash_nodes H)" for H'
  proof
    fix k
    have "set (hash_nodes H') = set (hash_nodes H)" using that(2) by (metis set_mset_mset)
    then have "hash_lookup H' k = Some n \<longleftrightarrow> hash_lookup H k = Some n" for n
      using hash_lookup_iff [OF that(1)] hash_lookup_iff [OF ok(1)] by simp
    then show "hash_lookup H' k = hash_lookup H k" by (metis option.exhaust)
  qed
  show ?thesis using grow_ok [OF ok(1) _ ok(2)] shrink_ok [OF ok(1)] same mset_nodes_grow by blast
qed

definition crowded :: "nat \<Rightarrow> nat hash_t \<Rightarrow> nat hash_t" where
  \<comment> \<open>that many insertions without a single resize, because every \<^verbatim>\<open>realloc\<close> fails\<close>
  "crowded n H = foldl (\<lambda>H i. table_put False (replicate i CHR ''a'') i H) H [0..<n]"

lemma crowded_ok:
  assumes "hash_bounded H" "hash_find H = Map.empty" "hash_nodecount H = 0" "n \<le> hash_maxcount H"
  shows "hash_bounded (crowded n H) \<and> hash_nodecount (crowded n H) = n
    \<and> hash_maxcount (crowded n H) = hash_maxcount H \<and> hash_dynamic (crowded n H) = hash_dynamic H
    \<and> hash_highmark (crowded n H) = hash_highmark H
    \<and> (\<forall>i \<ge> n. hash_find (crowded n H) (replicate i CHR ''a'') = None)"
  using assms(4)
proof (induction n)
  case 0
  with assms(1-3) show ?case by (simp add: crowded_def)
next
  case (Suc n)
  let ?C = "crowded n H" and ?k = "replicate n CHR ''a''"
  from Suc have IH: "hash_bounded ?C" "hash_nodecount ?C = n" "hash_maxcount ?C = hash_maxcount H"
    "hash_dynamic ?C = hash_dynamic H" "hash_highmark ?C = hash_highmark H"
    "\<forall>i \<ge> n. hash_find ?C (replicate i CHR ''a'') = None" by simp_all
  have C: "crowded (Suc n) H = table_put False ?k n ?C" by (simp add: crowded_def)
  have "hash_ok ?C" "hash_room ?C" "hash_find ?C ?k = None"
    using IH Suc.prems by (simp_all add: hash_bounded_def hash_room_def)
  note P = table_put_ok [OF this, of False n]
  have "hash_dynamic (table_put False ?k n ?C) = hash_dynamic ?C"
    "hash_highmark (table_put False ?k n ?C) = hash_highmark ?C"
    by (simp_all add: table_put_def hash_insert_def Let_def)
  then show ?case using IH P Suc.prems unfolding C by (simp add: hash_bounded_def)
qed

theorem resize_keeps_lookups_witness:
  "\<exists>H h'. hash_create 1000 (Some strcmp) (Some Hashfunc_djb2) quiet_heap = (Some H, h')
    \<and> must_grow (crowded 128 H) \<and> hash_lookup (grow_table (crowded 128 H)) = hash_lookup (crowded 128 H)"
proof -
  obtain H :: "nat hash_t" and h' where H: "hash_create 1000 (Some strcmp) (Some Hashfunc_djb2) quiet_heap = (Some H, h')"
    and f: "hash_nodecount H = 0" "hash_dynamic H" "hash_highmark H = 128" "hash_maxcount H = 1000"
    by (simp add: hash_create_def quiet_heap_def heap_simps)
  have "hash_bounded H" "hash_find H = Map.empty"
    using hash_create_ok(1,3) [OF _ _ H] by simp_all
  note C = crowded_ok [OF this f(1), of 128]
  have "hash_bounded (crowded 128 H)" "must_grow (crowded 128 H)"
    using C f by (simp_all add: must_grow_def)
  with resize_keeps_lookups [of "crowded 128 H"] H show ?thesis by blast
qed

lemma walk_visits:
  "walk (\<lambda>_. True) (\<lambda>_ n. d n) (\<lambda>s n. s @ [n]) s ns = (s @ ns, filter (\<lambda>n. \<not> d n) ns)"
  by (induction ns arbitrary: s) auto

text \<open>
  C33: a scan that deletes any of the nodes it is handed is handed every node exactly once, in
  table order, and leaves exactly the others; it ends after one step per node.
\<close>

theorem scan_visits_all:
  assumes "hash_ok H"
  shows "\<exists>H'. scan_loop (Suc (hash_count H)) (\<lambda>_. True) (\<lambda>_ n. d n) (\<lambda>seen n. seen @ [n])
      (hash_scan_begin H) [] H = Some (hash_nodes H, H')
    \<and> hash_ok H' \<and> hash_nodes H' = filter (\<lambda>n. \<not> d n) (hash_nodes H) \<and> distinct (hash_nodes H)"
proof -
  have "hash_count H = length (hash_nodes H)" "distinct (hash_nodes H)"
    using assms by (simp_all add: hash_ok_def nodes_ok_def hash_count_def distinct_map)
  then show ?thesis
    by (simp, rule_tac scan_all [OF assms, of "\<lambda>_. True" "\<lambda>_ n. d n" "\<lambda>seen n. seen @ [n]" "[]"])
       (auto simp: walk_visits)
qed

theorem scan_visits_all_witness:
  "\<exists>H H' h'. hash_create 9 (Some strcmp) (Some Hashfunc_djb2) quiet_heap = (Some H, h')
    \<and> scan_loop 1 (\<lambda>_. True) (\<lambda>_ n. hn_data n = (0::nat)) (\<lambda>seen n. seen @ [n]) (hash_scan_begin H) [] H
        = Some ([], H')"
proof -
  obtain H :: "nat hash_t" and h' where H: "hash_create 9 (Some strcmp) (Some Hashfunc_djb2) quiet_heap = (Some H, h')"
    by (simp add: hash_create_def quiet_heap_def heap_simps)
  note C = hash_create_ok [OF _ _ H]
  have "hash_ok H" "hash_nodes H = []" using C(1,2) by (simp_all add: hash_bounded_def)
  then show ?thesis
    using H scan_visits_all [of H "\<lambda>n. hn_data n = 0"] by (auto simp: hash_count_def hash_ok_def nodes_ok_def)
qed

text \<open>
  The two string hash functions are the polynomials djb2 (base 33, from 5381) and sdbm (base
  65599, from 0) of the characters, modulo \<open>2 ^ 64\<close>: the shifts and the wrap-around of the loops
  compute nothing else.
\<close>

theorem hash_functions_polynomial:
  "unat (Hashfunc_djb2 str) = foldl (\<lambda>h c. h * 33 + of_char c) 5381 str mod 2 ^ 64
   \<and> unat (Hashfunc_sdbm str) = foldl (\<lambda>h c. h * 65599 + of_char c) 0 str mod 2 ^ 64"
  using djb2_loop_poly [of 5381 str] sdbm_loop_poly [of 0 str]
  by (simp add: Hashfunc_djb2_def Hashfunc_sdbm_def poly_hash_def unsigned_of_nat take_bit_eq_mod)

end
