(* ===== verification/Rhizo_AttrCache.thy ===== *)
theory Rhizo_AttrCache
  imports Rhizo_Hash
begin

text \<open>
  Model of \<^verbatim>\<open>src/fs/attrcache.c\<close>: the cache of file attributes of the client. It is a bounded
  hash table from paths to \<^verbatim>\<open>stat\<close> results with the time they were fetched. The result of
  \<^verbatim>\<open>time(NULL)\<close> is the argument \<open>now\<close> of the operations that ask for it (each asks once), and
  the modify mutex is the flag \<open>ac_locked\<close>; what other threads may do between two operations is
  the subject of the theory of interleavings. A node of this cache owns three blocks: itself,
  its key and its entry.

  What is proved: the cache is a bounded map that \<open>AttrCache_set\<close> updates and
  \<open>AttrCache_get\<close> never answers from after the maximal age; how \<open>AttrCache_shrink\<close> chooses
  what to drop; that its table invariant and the mutex survive every operation; and the memory
  each operation owes.
\<close>

abbreviation (input) ATTRCACHE_DEFAULT_BATCH_SIZE :: nat where "ATTRCACHE_DEFAULT_BATCH_SIZE \<equiv> 50"

record cache_entry =
  ce_stat :: stat
  ce_creation_ts :: int

record attr_cache =
  ac_table :: "cache_entry hash_t"
  ac_max_age_sec :: nat
  ac_batch_size :: nat
  ac_locked :: bool

definition CacheEntry_create :: "'a heap_scheme \<Rightarrow> cache_entry option \<times> 'a heap_scheme" where
  "CacheEntry_create h =
     (if alloc_ok h then (Some \<lparr>ce_stat = zero_stat, ce_creation_ts = 0\<rparr>, alloc_next h)
      else (None, alloc_next h))"

definition CacheEntry_destroy :: "cache_entry option \<Rightarrow> 'a heap_scheme \<Rightarrow> 'a heap_scheme" where
  "CacheEntry_destroy e h = (case e of None \<Rightarrow> h | Some _ \<Rightarrow> release 1 h)"

text \<open>\<^verbatim>\<open>CacheEntry_hash_destroy\<close> frees the entry, the key and the node.\<close>

abbreviation (input) CacheEntry_hash_destroy_blocks :: int where
  "CacheEntry_hash_destroy_blocks \<equiv> 3"

definition AttrCache_init :: "nat \<Rightarrow> nat \<Rightarrow> bool \<Rightarrow> 'a heap_scheme \<Rightarrow> attr_cache option \<times> 'a heap_scheme" where
  \<comment> \<open>the third argument: whether \<^verbatim>\<open>pthread_mutex_init\<close> succeeds\<close>
  "AttrCache_init max_size max_age_sec mutex_ok h =
     (case hash_create max_size (Some strcmp) (Some Hashfunc_djb2) h of
        (None, h1) \<Rightarrow> (None, h1)
      | (Some H, h1) \<Rightarrow>
          (if \<not> mutex_ok then (None, hash_destroy h1)
           else (Some \<lparr>ac_table = hash_set_allocator CacheEntry_hash_destroy_blocks H,
                       ac_max_age_sec = max_age_sec,
                       ac_batch_size = ATTRCACHE_DEFAULT_BATCH_SIZE, ac_locked = False\<rparr>, h1)))"

definition AttrCache_deinit :: "attr_cache \<Rightarrow> 'a heap_scheme \<Rightarrow> 'a heap_scheme" where
  "AttrCache_deinit cache h =
     (case hash_free_nodes (ac_table cache) h of
        None \<Rightarrow> add_fault Null_deref h
      | Some (_, h1) \<Rightarrow> hash_destroy h1)"

definition Attrcache_lock_modify_mutex :: "attr_cache \<Rightarrow> attr_cache" where
  "Attrcache_lock_modify_mutex cache = cache\<lparr>ac_locked := True\<rparr>"

definition Attrcache_unlock_modify_mutex :: "attr_cache \<Rightarrow> attr_cache" where
  "Attrcache_unlock_modify_mutex cache = cache\<lparr>ac_locked := False\<rparr>"

definition AttrCache_entry_is_deprecated :: "int \<Rightarrow> attr_cache \<Rightarrow> cache_entry \<Rightarrow> bool" where
  "AttrCache_entry_is_deprecated now cache e \<longleftrightarrow>
     now = -1 \<or> ce_creation_ts e + int (ac_max_age_sec cache) < now"

text \<open>Deleting a node of the table; a NULL dereference leaves the table as it was.\<close>

definition cache_delete :: "cache_entry hnode \<Rightarrow> attr_cache \<Rightarrow> 'a heap_scheme \<Rightarrow> attr_cache \<times> 'a heap_scheme" where
  "cache_delete node cache h =
     (case hash_delete_free (ac_table cache) node h of
        (None, h1) \<Rightarrow> (cache, h1)
      | (Some H, h1) \<Rightarrow> (cache\<lparr>ac_table := H\<rparr>, h1))"

definition AttrCache_get :: "int \<Rightarrow> attr_cache \<Rightarrow> string option \<Rightarrow> 'a heap_scheme
    \<Rightarrow> cache_entry option \<times> attr_cache \<times> 'a heap_scheme" where
  "AttrCache_get now cache path h =
     (case path of None \<Rightarrow> (None, cache, h) | Some p \<Rightarrow>
      (case hash_lookup (ac_table cache) p of
         None \<Rightarrow> (None, cache, h)
       | Some node \<Rightarrow>
           (if AttrCache_entry_is_deprecated now cache (hn_data node)
            then (None, cache_delete node cache h)
            else (Some (hn_data node), cache, h))))"

definition AttrCache_copy_stat :: "int \<Rightarrow> attr_cache \<Rightarrow> string option \<Rightarrow> 'a heap_scheme
    \<Rightarrow> stat option \<times> attr_cache \<times> 'a heap_scheme" where
  \<comment> \<open>\<open>Some\<close> is the return value true with what was copied\<close>
  "AttrCache_copy_stat now cache path h =
     (let (e, cache1, h1) = AttrCache_get now (Attrcache_lock_modify_mutex cache) path h
      in (map_option ce_stat e, Attrcache_unlock_modify_mutex cache1, h1))"

definition AttrCache_shrink :: "int \<Rightarrow> attr_cache \<Rightarrow> 'a heap_scheme \<Rightarrow> bool \<times> attr_cache \<times> 'a heap_scheme" where
  "AttrCache_shrink now cache h =
     (let H = ac_table cache;
          shrink_num = (if ac_batch_size cache < hash_count H then ac_batch_size cache else hash_count H)
      in if shrink_num = 0 then (True, cache, h)
         else if now = -1 then (False, Attrcache_unlock_modify_mutex cache, h)
         else let
           cache1 = Attrcache_lock_modify_mutex cache;
           expired = (\<lambda>node. ce_creation_ts (hn_data node) + int (ac_max_age_sec cache) < now)
         in case scan_loop (Suc (length (hash_nodes H))) (\<lambda>_. True) (\<lambda>_ node. expired node)
                   (\<lambda>removed node. if expired node then removed + 1 else removed)
                   (hash_scan_begin H) (0::nat) H of
              None \<Rightarrow> (False, cache1, add_fault Null_deref h)
            | Some (removed, H1) \<Rightarrow>
                (if removed < shrink_num then
                   (case scan_loop (Suc (length (hash_nodes H1))) (\<lambda>removed. removed < shrink_num)
                           (\<lambda>_ _. True) (\<lambda>removed _. removed + 1) (hash_scan_begin H1) removed H1 of
                      None \<Rightarrow> (False, cache1, add_fault Null_deref h)
                    | Some (_, H2) \<Rightarrow> (True, Attrcache_unlock_modify_mutex (cache1\<lparr>ac_table := H2\<rparr>), h))
                 else (True, Attrcache_unlock_modify_mutex (cache1\<lparr>ac_table := H1\<rparr>), h)))"

definition AttrCache_set :: "int \<Rightarrow> attr_cache \<Rightarrow> string \<Rightarrow> cache_entry option \<Rightarrow> 'a heap_scheme
    \<Rightarrow> bool \<times> attr_cache \<times> 'a heap_scheme" where
  "AttrCache_set now cache path entry h =
     (case entry of
        None \<Rightarrow> (False, Attrcache_unlock_modify_mutex cache, h)
      | Some e \<Rightarrow>
          (if hash_maxcount (ac_table cache) = 0 then (True, cache, h)
           else let
             (_, cache1, h1) =
               (if hash_isfull (ac_table cache) then AttrCache_shrink now cache h else (True, cache, h));
             cache2 = Attrcache_lock_modify_mutex cache1;
             (cache3, h2) =
               (case hash_lookup (ac_table cache2) path of
                  None \<Rightarrow> (cache2, h1)
                | Some node \<Rightarrow> cache_delete node cache2 h1);
             (inserted, H, h3) = hash_alloc_insert path e (ac_table cache3) h2
           in (inserted, Attrcache_unlock_modify_mutex (cache3\<lparr>ac_table := H\<rparr>), h3)))"

definition AttrCache_remove :: "attr_cache \<Rightarrow> string option \<Rightarrow> 'a heap_scheme \<Rightarrow> attr_cache \<times> 'a heap_scheme" where
  "AttrCache_remove cache path h =
     (case path of None \<Rightarrow> (cache, h) | Some p \<Rightarrow>
      (case hash_lookup (ac_table cache) p of
         None \<Rightarrow> (cache, h)
       | Some node \<Rightarrow>
           (let (cache1, h1) = cache_delete node (Attrcache_lock_modify_mutex cache) h
            in (Attrcache_unlock_modify_mutex cache1, h1))))"

section \<open>Abstraction and invariant\<close>

definition cache_map :: "attr_cache \<Rightarrow> string \<Rightarrow> cache_entry option" where
  "cache_map cache = hash_find (ac_table cache)"

definition cache_size :: "attr_cache \<Rightarrow> nat" where
  "cache_size cache = hash_count (ac_table cache)"

definition cache_ok :: "attr_cache \<Rightarrow> bool" where
  "cache_ok cache \<longleftrightarrow> hash_bounded (ac_table cache) \<and> hash_node_blocks (ac_table cache) = 3
     \<and> 0 < ac_batch_size cache \<and> \<not> ac_locked cache"

definition fresh_entry :: "int \<Rightarrow> attr_cache \<Rightarrow> cache_entry \<Rightarrow> bool" where
  "fresh_entry now cache e \<longleftrightarrow> \<not> AttrCache_entry_is_deprecated now cache e"

lemma lock_simps [simp]:
  "ac_table (Attrcache_lock_modify_mutex c) = ac_table c" "ac_locked (Attrcache_lock_modify_mutex c)"
  "ac_max_age_sec (Attrcache_lock_modify_mutex c) = ac_max_age_sec c"
  "ac_batch_size (Attrcache_lock_modify_mutex c) = ac_batch_size c"
  "ac_table (Attrcache_unlock_modify_mutex c) = ac_table c" "\<not> ac_locked (Attrcache_unlock_modify_mutex c)"
  "ac_max_age_sec (Attrcache_unlock_modify_mutex c) = ac_max_age_sec c"
  "ac_batch_size (Attrcache_unlock_modify_mutex c) = ac_batch_size c"
  by (simp_all add: Attrcache_lock_modify_mutex_def Attrcache_unlock_modify_mutex_def)

lemma cache_delete_ok:
  assumes "hash_bounded (ac_table cache)" "hash_node_blocks (ac_table cache) = 3"
    "hash_lookup (ac_table cache) p = Some node"
  obtains h' where "cache_delete node cache h = (cache\<lparr>ac_table := table_drop p (ac_table cache)\<rparr>, h')"
    "live h' = live h - 3" "faults h' = faults h"
  using hash_delete_free_ok [of "ac_table cache" p node h] assms
  by (auto intro!: that simp: cache_delete_def hash_bounded_def heap_simps)

lemma drop_bounded:
  assumes "hash_bounded H" "hash_lookup H p = Some n"
  shows "hash_bounded (table_drop p H)" "hash_find (table_drop p H) = (hash_find H)(p := None)"
    "hash_node_blocks (table_drop p H) = hash_node_blocks H"
    "hash_maxcount (table_drop p H) = hash_maxcount H"
    "Suc (hash_count (table_drop p H)) = hash_count H"
  using table_drop_ok [of H p n] assms by (simp_all add: hash_bounded_def hash_count_def)

lemma cache_map_lookup: "cache_map cache p = map_option hn_data (hash_lookup (ac_table cache) p)"
  by (simp add: cache_map_def hash_find_def)

section \<open>Initialisation, lookup and removal\<close>

lemma AttrCache_init_ok:
  assumes "AttrCache_init max_size age b h = (Some cache, h')" "max_size \<le> 2 ^ 60"
  shows "cache_ok cache" "cache_map cache = Map.empty" "hash_maxcount (ac_table cache) = max_size"
    "ac_max_age_sec cache = age" "ac_batch_size cache = 50" "live h' = live h + 2" "faults h' = faults h"
proof -
  from assms(1) obtain H where H: "hash_create max_size (Some strcmp) (Some Hashfunc_djb2) h = (Some H, h')"
    and c: "cache = \<lparr>ac_table = hash_set_allocator 3 H, ac_max_age_sec = age, ac_batch_size = 50, ac_locked = False\<rparr>"
    by (auto simp: AttrCache_init_def split: prod.splits option.splits if_splits)
  note C = hash_create_ok [OF _ assms(2) H]
  show "cache_ok cache" "cache_map cache = Map.empty" "hash_maxcount (ac_table cache) = max_size"
    using C(1-4) by (simp_all add: cache_ok_def cache_map_def c hash_bounded_def hash_find_def
        fun_eq_iff hash_set_allocator_def [of 3 H, THEN arg_cong, of hash_node_blocks]
        hash_set_allocator_def [of 3 H, THEN arg_cong, of hash_nodecount]
        hash_set_allocator_def [of 3 H, THEN arg_cong, of hash_maxcount])
  show "ac_max_age_sec cache = age" "ac_batch_size cache = 50" by (simp_all add: c)
  show "live h' = live h + 2" "faults h' = faults h" using C(6,7) by simp_all
qed

lemma AttrCache_init_fail:
  "AttrCache_init max_size age b h = (None, h') \<Longrightarrow> live h' = live h \<and> faults h' = faults h"
  by (auto simp: AttrCache_init_def hash_destroy_def hash_create_def heap_simps
      split: prod.splits option.splits if_splits)

lemma AttrCache_get_cases:
  assumes "cache_ok cache"
  obtains
    (absent) "cache_map cache p = None" "AttrCache_get now cache (Some p) h = (None, cache, h)"
  | (expired) e h' where "cache_map cache p = Some e" "\<not> fresh_entry now cache e"
      "AttrCache_get now cache (Some p) h
         = (None, cache\<lparr>ac_table := table_drop p (ac_table cache)\<rparr>, h')"
      "live h' = live h - 3" "faults h' = faults h"
  | (hit) e where "cache_map cache p = Some e" "fresh_entry now cache e"
      "AttrCache_get now cache (Some p) h = (Some e, cache, h)"
proof (cases "hash_lookup (ac_table cache) p")
  case None
  then show thesis by (intro absent) (simp_all add: cache_map_lookup AttrCache_get_def)
next
  case (Some n)
  show thesis
  proof (cases "fresh_entry now cache (hn_data n)")
    case True
    with Some show thesis by (intro hit) (simp_all add: cache_map_lookup AttrCache_get_def fresh_entry_def)
  next
    case False
    from cache_delete_ok [OF _ _ Some, of h] assms obtain h' where
      "cache_delete n cache h = (cache\<lparr>ac_table := table_drop p (ac_table cache)\<rparr>, h')"
      "live h' = live h - 3" "faults h' = faults h" by (auto simp: cache_ok_def)
    with Some False show thesis
      by (intro expired [of "hn_data n" h'])
         (simp_all add: cache_map_lookup AttrCache_get_def fresh_entry_def)
  qed
qed

lemma unlock_locked:
  "\<not> ac_locked c \<Longrightarrow> Attrcache_unlock_modify_mutex ((Attrcache_lock_modify_mutex c)\<lparr>ac_table := X\<rparr>)
     = c\<lparr>ac_table := X\<rparr>"
  by (cases c) (simp add: Attrcache_lock_modify_mutex_def Attrcache_unlock_modify_mutex_def)

lemma cache_ok_drop:
  assumes "cache_ok cache" "cache_map cache p \<noteq> None"
  shows "cache_ok (cache\<lparr>ac_table := table_drop p (ac_table cache)\<rparr>)"
    "cache_map (cache\<lparr>ac_table := table_drop p (ac_table cache)\<rparr>) = (cache_map cache)(p := None)"
proof -
  obtain n where n: "hash_lookup (ac_table cache) p = Some n"
    using assms(2) by (auto simp: cache_map_lookup)
  then show "cache_ok (cache\<lparr>ac_table := table_drop p (ac_table cache)\<rparr>)"
    "cache_map (cache\<lparr>ac_table := table_drop p (ac_table cache)\<rparr>) = (cache_map cache)(p := None)"
    using assms drop_bounded [OF _ n] by (simp_all add: cache_ok_def cache_map_def)
qed

lemma AttrCache_get_lock:
  "AttrCache_get now (Attrcache_lock_modify_mutex c) (Some p) h =
     (let (r, c', h') = AttrCache_get now c (Some p) h in (r, Attrcache_lock_modify_mutex c', h'))"
  by (simp add: AttrCache_get_def cache_delete_def AttrCache_entry_is_deprecated_def
      Attrcache_lock_modify_mutex_def Let_def split: option.splits prod.splits)

lemma AttrCache_copy_stat_get:
  assumes "cache_ok c"
  shows "AttrCache_copy_stat now c (Some p) h =
    (let (r, c', h') = AttrCache_get now c (Some p) h in (map_option ce_stat r, c', h'))"
proof -
  obtain r c' h' where G: "AttrCache_get now c (Some p) h = (r, c', h')"
    by (cases "AttrCache_get now c (Some p) h")
  then have "\<not> ac_locked c'"
    by (rule_tac AttrCache_get_cases [OF assms, of p now h]) (use assms in \<open>auto simp: cache_ok_def\<close>)
  then have "Attrcache_unlock_modify_mutex (Attrcache_lock_modify_mutex c') = c'"
    by (cases c') (simp add: Attrcache_lock_modify_mutex_def Attrcache_unlock_modify_mutex_def)
  with G show ?thesis by (simp add: AttrCache_copy_stat_def AttrCache_get_lock)
qed

lemma AttrCache_get_ok:
  assumes "cache_ok cache" "AttrCache_get now cache (Some p) h = (r, cache', h')"
  shows "cache_ok cache'"
    "cache_map cache' = (case cache_map cache p of Some e \<Rightarrow>
        if fresh_entry now cache e then cache_map cache else (cache_map cache)(p := None)
      | None \<Rightarrow> cache_map cache)"
    "r = (case cache_map cache p of Some e \<Rightarrow> if fresh_entry now cache e then Some e else None | None \<Rightarrow> None)"
    "ac_max_age_sec cache' = ac_max_age_sec cache" "faults h' = faults h"
  using assms cache_ok_drop [OF assms(1), of p]
  by (cases rule: AttrCache_get_cases [OF assms(1), of p now h]; auto)+

lemma AttrCache_remove_cases:
  assumes "cache_ok cache"
  obtains
    (absent) "cache_map cache p = None" "AttrCache_remove cache (Some p) h = (cache, h)"
  | (removed) h' where "cache_map cache p \<noteq> None"
      "AttrCache_remove cache (Some p) h = (cache\<lparr>ac_table := table_drop p (ac_table cache)\<rparr>, h')"
      "live h' = live h - 3" "faults h' = faults h"
proof (cases "hash_lookup (ac_table cache) p")
  case None
  then show thesis by (intro absent) (simp_all add: cache_map_lookup AttrCache_remove_def)
next
  case (Some n)
  let ?c = "Attrcache_lock_modify_mutex cache"
  from cache_delete_ok [of ?c p n h] Some assms obtain h' where
    "cache_delete n ?c h = (?c\<lparr>ac_table := table_drop p (ac_table ?c)\<rparr>, h')"
    "live h' = live h - 3" "faults h' = faults h" by (auto simp: cache_ok_def)
  with Some assms show thesis
    by (intro removed [of h'])
       (simp_all add: cache_map_lookup AttrCache_remove_def cache_ok_def unlock_locked)
qed

lemma AttrCache_remove_ok:
  assumes "cache_ok cache"
  shows "cache_ok (fst (AttrCache_remove cache (Some p) h))"
    "cache_map (fst (AttrCache_remove cache (Some p) h)) = (cache_map cache)(p := None)"
    "faults (snd (AttrCache_remove cache (Some p) h)) = faults h"
    "live (snd (AttrCache_remove cache (Some p) h)) = live h - (if cache_map cache p = None then 0 else 3)"
  using cache_ok_drop [OF assms, of p] assms
  by (cases rule: AttrCache_remove_cases [OF assms, of p h]; auto simp: fun_upd_idem)+

section \<open>Shrinking\<close>

lemma walk_filter:
  "walk (\<lambda>_. True) (\<lambda>_ n. d n) (\<lambda>c n. if d n then c + 1 else c) (c::nat) ns
     = (c + length (filter d ns), filter (\<lambda>n. \<not> d n) ns)"
  by (induction ns arbitrary: c) auto

lemma walk_take:
  "walk (\<lambda>c. c < m) (\<lambda>_ _. True) (\<lambda>c _. c + 1) (c::nat) ns
     = (c + min (m - c) (length ns), drop (m - c) ns)"
proof (induction ns arbitrary: c)
  case (Cons n ns)
  show ?case
  proof (cases "c < m")
    case True
    then have "m - c = Suc (m - Suc c)" by simp
    with True Cons [of "Suc c"] show ?thesis by simp
  qed simp
qed simp

definition expired_node :: "int \<Rightarrow> attr_cache \<Rightarrow> cache_entry hnode \<Rightarrow> bool" where
  "expired_node now cache n \<longleftrightarrow> ce_creation_ts (hn_data n) + int (ac_max_age_sec cache) < now"

definition shrink_target :: "attr_cache \<Rightarrow> nat" where
  "shrink_target cache = min (ac_batch_size cache) (cache_size cache)"

definition shrink_kept :: "int \<Rightarrow> attr_cache \<Rightarrow> cache_entry hnode list" where
  \<comment> \<open>what is left: of the nodes that have not expired, without as many of the first as the batch still lacks\<close>
  "shrink_kept now cache =
     (let ns = hash_nodes (ac_table cache);
          n_expired = length (filter (expired_node now cache) ns)
      in drop (shrink_target cache - n_expired) (filter (\<lambda>n. \<not> expired_node now cache n) ns))"

lemma hash_ok_nodes: "hash_ok H \<Longrightarrow> hash_count H = length (hash_nodes H)"
  by (simp add: hash_ok_def nodes_ok_def hash_count_def)

lemma AttrCache_shrink_ok:
  assumes "cache_ok cache" "now \<noteq> -1"
  shows "\<exists>H. AttrCache_shrink now cache h = (True, cache\<lparr>ac_table := H\<rparr>, h) \<and> hash_ok H
    \<and> hash_nodes H = shrink_kept now cache
    \<and> H = (ac_table cache)\<lparr>hash_table := hash_table H, hash_nodecount := hash_nodecount H\<rparr>"
proof -
  let ?H = "ac_table cache" and ?d = "\<lambda>n. expired_node now cache n"
  have ok: "hash_ok ?H" using assms by (simp add: cache_ok_def hash_bounded_def)
  have unlocked: "Attrcache_unlock_modify_mutex ((Attrcache_lock_modify_mutex cache)\<lparr>ac_table := X\<rparr>)
      = cache\<lparr>ac_table := X\<rparr>" for X
    using assms by (simp add: cache_ok_def unlock_locked)
  have target: "(if ac_batch_size cache < hash_count ?H then ac_batch_size cache else hash_count ?H)
      = shrink_target cache" by (simp add: shrink_target_def cache_size_def)
  show ?thesis
  proof (cases "shrink_target cache = 0")
    case True
    then have "hash_nodes ?H = []"
      using assms hash_ok_nodes [OF ok] by (auto simp: shrink_target_def cache_ok_def cache_size_def min_def split: if_splits)
    then show ?thesis using True target ok
      by (intro exI [of _ ?H]) (simp add: AttrCache_shrink_def Let_def shrink_kept_def)
  next
    case False
    obtain H1 where H1: "scan_loop (Suc (length (hash_nodes ?H))) (\<lambda>_. True) (\<lambda>_ n. ?d n)
        (\<lambda>removed n. if ?d n then removed + 1 else removed) (hash_scan_begin ?H) (0::nat) ?H
        = Some (length (filter ?d (hash_nodes ?H)), H1)"
      and ok1: "hash_ok H1" and n1: "hash_nodes H1 = filter (\<lambda>n. \<not> ?d n) (hash_nodes ?H)"
      and f1: "H1 = ?H\<lparr>hash_table := hash_table H1, hash_nodecount := hash_nodecount H1\<rparr>"
      by (rule scan_all [OF ok, of "\<lambda>_. True" "\<lambda>_ n. ?d n"
            "\<lambda>removed n. if ?d n then removed + 1 else removed" "0::nat", unfolded walk_filter fst_conv snd_conv add_0])
    let ?r = "length (filter ?d (hash_nodes ?H))"
    obtain c H2 where H2: "scan_loop (Suc (length (hash_nodes H1))) (\<lambda>removed. removed < shrink_target cache)
        (\<lambda>_ _. True) (\<lambda>removed _. removed + 1) (hash_scan_begin H1) ?r H1 = Some (c, H2)"
      and ok2: "hash_ok H2" and n2: "hash_nodes H2 = drop (shrink_target cache - ?r) (hash_nodes H1)"
      and f2: "H2 = H1\<lparr>hash_table := hash_table H2, hash_nodecount := hash_nodecount H2\<rparr>"
      by (rule scan_all [OF ok1, of "\<lambda>removed. removed < shrink_target cache" "\<lambda>_ _. True"
            "\<lambda>removed _. removed + 1" ?r, unfolded walk_take fst_conv snd_conv])
    have f12: "H2 = ?H\<lparr>hash_table := hash_table H2, hash_nodecount := hash_nodecount H2\<rparr>"
      by (subst f2, subst f1) simp
    show ?thesis
    proof (cases "?r < shrink_target cache")
      case True
      moreover have "hash_nodes H2 = shrink_kept now cache"
        unfolding n2 n1 by (simp add: shrink_kept_def Let_def)
      ultimately show ?thesis
        using False assms(2) H1 H2 ok2 f12
        by (intro exI [of _ H2])
           (simp add: AttrCache_shrink_def Let_def target unlocked flip: expired_node_def)
    next
      case no: False
      then have "hash_nodes H1 = shrink_kept now cache"
        unfolding n1 by (simp add: shrink_kept_def Let_def)
      then show ?thesis
        using no False assms(2) H1 ok1 f1
        by (intro exI [of _ H1])
           (simp add: AttrCache_shrink_def Let_def target unlocked flip: expired_node_def)
    qed
  qed
qed

lemma length_shrink_kept:
  assumes "hash_ok (ac_table cache)"
  shows "length (shrink_kept now cache) = cache_size cache
    - max (length (filter (expired_node now cache) (hash_nodes (ac_table cache)))) (shrink_target cache)"
  using sum_length_filter_compl [of "expired_node now cache" "hash_nodes (ac_table cache)"]
    hash_ok_nodes [OF assms]
  by (simp add: shrink_kept_def Let_def cache_size_def max_def) linarith

lemma set_shrink_kept: "set (shrink_kept now cache) \<subseteq> set (hash_nodes (ac_table cache))"
  by (auto simp: shrink_kept_def Let_def dest: in_set_dropD)

lemma hash_find_restrict:
  assumes "hash_ok H" "hash_ok H'" "set (hash_nodes H') \<subseteq> set (hash_nodes H)"
  shows "hash_find H' \<subseteq>\<^sub>m hash_find H"
  unfolding map_le_def
proof
  fix k assume "k \<in> dom (hash_find H')"
  then obtain n where "hash_lookup H' k = Some n" by (auto simp: hash_find_def)
  then show "hash_find H' k = hash_find H k"
    using assms hash_lookup_iff [OF assms(1), of k n] hash_lookup_iff [OF assms(2), of k n]
    by (auto simp: hash_find_def)
qed

text \<open>What \<open>AttrCache_set\<close> starts from: the cache, shrunk if it was full.\<close>

definition cache_with_room :: "int \<Rightarrow> attr_cache \<Rightarrow> 'a heap_scheme \<Rightarrow> attr_cache" where
  "cache_with_room now cache h =
     (if hash_isfull (ac_table cache) then fst (snd (AttrCache_shrink now cache h)) else cache)"

lemma cache_with_room_ok:
  assumes "cache_ok cache" "now \<noteq> -1" "0 < hash_maxcount (ac_table cache)"
  shows "cache_ok (cache_with_room now cache h)" "hash_room (ac_table (cache_with_room now cache h))"
    "cache_map (cache_with_room now cache h) \<subseteq>\<^sub>m cache_map cache"
    "hash_maxcount (ac_table (cache_with_room now cache h)) = hash_maxcount (ac_table cache)"
    "ac_max_age_sec (cache_with_room now cache h) = ac_max_age_sec cache"
proof -
  let ?B = "cache_with_room now cache h" and ?H = "ac_table cache"
  have ok: "hash_ok ?H" "hash_nodecount ?H \<le> hash_maxcount ?H"
    using assms by (simp_all add: cache_ok_def hash_bounded_def)
  have "cache_ok ?B \<and> hash_room (ac_table ?B) \<and> cache_map ?B \<subseteq>\<^sub>m cache_map cache
     \<and> hash_maxcount (ac_table ?B) = hash_maxcount ?H \<and> ac_max_age_sec ?B = ac_max_age_sec cache"
  proof (cases "hash_isfull ?H")
    case False
    then have "?B = cache" by (simp add: cache_with_room_def)
    with False assms ok show ?thesis by (simp add: hash_isfull_def hash_room_def)
  next
    case True
    from AttrCache_shrink_ok [OF assms(1,2), of h] obtain H where
      H: "AttrCache_shrink now cache h = (True, cache\<lparr>ac_table := H\<rparr>, h)" "hash_ok H"
      "hash_nodes H = shrink_kept now cache" "hash_maxcount H = hash_maxcount ?H"
      "hash_node_blocks H = hash_node_blocks ?H"
      by (metis hash_t.ext_inject hash_t.surjective hash_t.update_convs(1,3))
    have B: "?B = cache\<lparr>ac_table := H\<rparr>" using True H(1) by (simp add: cache_with_room_def)
    have "0 < shrink_target cache"
      using True assms by (simp add: hash_isfull_def shrink_target_def cache_size_def hash_count_def cache_ok_def)
    then have "hash_nodecount H < hash_maxcount H"
      using H(2-4) True length_shrink_kept [OF ok(1), of now] hash_ok_nodes [OF H(2)] assms(3)
      by (simp add: hash_isfull_def cache_size_def hash_count_def)
    then show ?thesis
      using B H assms(1) hash_find_restrict [OF ok(1) H(2)] set_shrink_kept [of now cache]
      by (simp add: cache_ok_def hash_bounded_def hash_room_def cache_map_def)
  qed
  then show "cache_ok ?B" "hash_room (ac_table ?B)" "cache_map ?B \<subseteq>\<^sub>m cache_map cache"
    "hash_maxcount (ac_table ?B) = hash_maxcount ?H" "ac_max_age_sec ?B = ac_max_age_sec cache" by simp_all
qed

lemma AttrCache_set_unfold:
  assumes "cache_ok cache" "now \<noteq> -1" "0 < hash_maxcount (ac_table cache)"
  shows "AttrCache_set now cache path (Some e) h =
    (let base = Attrcache_lock_modify_mutex (cache_with_room now cache h);
         (cache3, h2) = (case hash_lookup (ac_table base) path of
                  None \<Rightarrow> (base, h) | Some node \<Rightarrow> cache_delete node base h);
         (inserted, H, h3) = hash_alloc_insert path e (ac_table cache3) h2
     in (inserted, Attrcache_unlock_modify_mutex (cache3\<lparr>ac_table := H\<rparr>), h3))"
proof -
  obtain x where "(if hash_isfull (ac_table cache) then AttrCache_shrink now cache h else (True, cache, h))
      = (x, cache_with_room now cache h, h)"
    using AttrCache_shrink_ok [OF assms(1,2), of h] by (auto simp: cache_with_room_def)
  then show ?thesis using assms(3)
    by (simp add: AttrCache_set_def Let_def case_prod_beta split: option.split split del: if_split)
qed

definition without_path :: "string \<Rightarrow> cache_entry hash_t \<Rightarrow> cache_entry hash_t" where
  "without_path path H = (if hash_find H path = None then H else table_drop path H)"

lemma AttrCache_set_cases:
  assumes "cache_ok cache" "now \<noteq> -1" "0 < hash_maxcount (ac_table cache)"
    and base: "base = cache_with_room now cache h"
  obtains
    (ok) b h' where "AttrCache_set now cache path (Some e) h
        = (True, base\<lparr>ac_table := table.replace b path e (ac_table base)\<rparr>, h')"
      "live h' = live h + 1 - (if cache_map base path = None then 0 else 3)" "faults h' = faults h"
  | (nomem) h' where "AttrCache_set now cache path (Some e) h
        = (False, base\<lparr>ac_table := without_path path (ac_table base)\<rparr>, h')"
      "live h' = live h - (if cache_map base path = None then 0 else 3)" "faults h' = faults h"
proof -
  let ?L = "Attrcache_lock_modify_mutex base" and ?T = "without_path path (ac_table base)"
  have B: "cache_ok base" using cache_with_room_ok(1) [OF assms(1-3)] base by simp
  obtain h2 where D: "(case hash_lookup (ac_table ?L) path of None \<Rightarrow> (?L, h)
      | Some node \<Rightarrow> cache_delete node ?L h) = (?L\<lparr>ac_table := ?T\<rparr>, h2)"
    "live h2 = live h - (if cache_map base path = None then 0 else 3)" "faults h2 = faults h"
  proof (cases "hash_lookup (ac_table base) path")
    case None
    then show thesis
      by (intro that [of h])
         (simp_all add: without_path_def cache_map_lookup hash_find_def Attrcache_lock_modify_mutex_def)
  next
    case (Some n)
    from cache_delete_ok [of ?L path n h] Some B obtain h2 where
      "cache_delete n ?L h = (?L\<lparr>ac_table := table_drop path (ac_table base)\<rparr>, h2)"
      "live h2 = live h - 3" "faults h2 = faults h" by (auto simp: cache_ok_def)
    with Some show thesis
      by (intro that [of h2]) (simp_all add: without_path_def cache_map_lookup hash_find_def)
  qed
  have S: "AttrCache_set now cache path (Some e) h =
    (let (inserted, H, h3) = hash_alloc_insert path e ?T h2
     in (inserted, base\<lparr>ac_table := H\<rparr>, h3))"
    using B D(1) unlock_locked [of base]
    by (simp add: AttrCache_set_unfold [OF assms(1-3)] flip: base) (simp add: Let_def cache_ok_def case_prod_beta)
  show thesis
  proof (cases "alloc_ok h2")
    case True
    have "table_put b path e ?T = table.replace b path e (ac_table base)" for b
      by (simp add: table.replace_def without_path_def)
    with True D(2,3) S show thesis
      by (intro ok [of "alloc_ok (alloc_next h2)" "if must_grow ?T then realloc_next (alloc_next h2) else alloc_next h2"])
         (simp_all add: hash_alloc_insert_simps heap_simps)
  next
    case False
    with D(2,3) S show thesis
      by (intro nomem [of "alloc_next h2"]) (simp_all add: hash_alloc_insert_simps heap_simps)
  qed
qed

lemma AttrCache_set_ok:
  assumes C: "cache_ok cache" "now \<noteq> -1" "0 < hash_maxcount (ac_table cache)"
    and S: "AttrCache_set now cache path (Some e) h = (r, cache', h')"
    and base: "base = cache_with_room now cache h"
  shows "cache_ok cache'" "cache_map cache' = (cache_map base)(path := (if r then Some e else None))"
    "hash_maxcount (ac_table cache') = hash_maxcount (ac_table cache)"
    "ac_max_age_sec cache' = ac_max_age_sec cache"
    "live h' = live h + (if r then 1 else 0) - (if cache_map base path = None then 0 else 3)"
    "faults h' = faults h"
proof -
  note B = cache_with_room_ok [OF C, of h, folded base]
  have bounded: "hash_bounded (ac_table base)" using B(1) by (simp add: cache_ok_def)
  have "cache_ok cache' \<and> cache_map cache' = (cache_map base)(path := (if r then Some e else None))
    \<and> hash_maxcount (ac_table cache') = hash_maxcount (ac_table cache)
    \<and> ac_max_age_sec cache' = ac_max_age_sec cache
    \<and> live h' = live h + (if r then 1 else 0) - (if cache_map base path = None then 0 else 3)
    \<and> faults h' = faults h"
  proof (rule AttrCache_set_cases [OF C base, of path e], goal_cases)
    case ok: (1 b h1)
    with table.replace_ok [OF bounded, of path b e] table_replace_fields [OF bounded, of path b e] B S
    show ?thesis by (auto simp: cache_ok_def cache_map_def)
  next
    case nomem: (2 h1)
    show ?thesis
    proof (cases "cache_map base path = None")
      case True
      with nomem B S show ?thesis
        by (auto simp: without_path_def cache_map_def fun_upd_idem)
    next
      case False
      then obtain n where "hash_lookup (ac_table base) path = Some n" by (auto simp: cache_map_lookup)
      with False nomem B S drop_bounded [OF bounded] show ?thesis
        by (auto simp: without_path_def cache_map_def cache_ok_def)
    qed
  qed
  then show "cache_ok cache'" "cache_map cache' = (cache_map base)(path := (if r then Some e else None))"
    "hash_maxcount (ac_table cache') = hash_maxcount (ac_table cache)"
    "ac_max_age_sec cache' = ac_max_age_sec cache"
    "live h' = live h + (if r then 1 else 0) - (if cache_map base path = None then 0 else 3)"
    "faults h' = faults h" by simp_all
qed

section \<open>Sequences of operations\<close>

datatype cache_op =
    Cache_get int string
  | Cache_set int string cache_entry
  | Cache_remove string
  | Cache_shrink int

fun cache_step :: "attr_cache \<times> heap \<Rightarrow> cache_op \<Rightarrow> attr_cache \<times> heap" where
  "cache_step (c, h) (Cache_get now p) = snd (AttrCache_copy_stat now c (Some p) h)"
| "cache_step (c, h) (Cache_set now p e) = snd (AttrCache_set now c p (Some e) h)"
| "cache_step (c, h) (Cache_remove p) = AttrCache_remove c (Some p) h"
| "cache_step (c, h) (Cache_shrink now) = snd (AttrCache_shrink now c h)"

fun time_known :: "cache_op \<Rightarrow> bool" where
  "time_known (Cache_get now p) = (now \<noteq> -1)"
| "time_known (Cache_set now p e) = (now \<noteq> -1)"
| "time_known (Cache_remove p) = True"
| "time_known (Cache_shrink now) = (now \<noteq> -1)"

text \<open>The specification: what the last update said about each path. The cache may forget, but not invent.\<close>

fun last_said :: "(string \<Rightarrow> cache_entry option) \<Rightarrow> cache_op \<Rightarrow> string \<Rightarrow> cache_entry option" where
  "last_said m (Cache_set now p e) = m(p \<mapsto> e)"
| "last_said m (Cache_remove p) = m(p := None)"
| "last_said m x = m"

lemma map_le_upd_None: "m \<subseteq>\<^sub>m m' \<Longrightarrow> m(p := None) \<subseteq>\<^sub>m m'"
  by (auto simp: map_le_def)

lemma map_le_upd_both: "m \<subseteq>\<^sub>m m' \<Longrightarrow> m(p := x) \<subseteq>\<^sub>m m'(p := x)"
  by (auto simp: map_le_def)

lemma map_le_upd_set: "m \<subseteq>\<^sub>m m' \<Longrightarrow> m(p := (if r then Some e else None)) \<subseteq>\<^sub>m m'(p \<mapsto> e)"
  by (auto simp: map_le_def)

lemma cache_shrink_keeps:
  assumes "cache_ok c" "now \<noteq> -1" "AttrCache_shrink now c h = (r, c', h')"
  shows "r \<and> h' = h \<and> cache_ok c' \<and> cache_map c' \<subseteq>\<^sub>m cache_map c
    \<and> hash_maxcount (ac_table c') = hash_maxcount (ac_table c) \<and> ac_max_age_sec c' = ac_max_age_sec c
    \<and> hash_nodes (ac_table c') = shrink_kept now c"
proof -
  from AttrCache_shrink_ok [OF assms(1,2), of h] obtain H where
    H: "AttrCache_shrink now c h = (True, c\<lparr>ac_table := H\<rparr>, h)" "hash_ok H"
    "hash_nodes H = shrink_kept now c" "hash_maxcount H = hash_maxcount (ac_table c)"
    "hash_node_blocks H = hash_node_blocks (ac_table c)"
    by (metis hash_t.ext_inject hash_t.surjective hash_t.update_convs(1,3))
  have ok: "hash_ok (ac_table c)" "hash_nodecount (ac_table c) \<le> hash_maxcount (ac_table c)"
    using assms(1) by (simp_all add: cache_ok_def hash_bounded_def)
  have "hash_nodecount H \<le> hash_nodecount (ac_table c)"
    using length_shrink_kept [OF ok(1), of now] hash_ok_nodes [OF H(2)] H(3)
    by (simp add: hash_count_def cache_size_def)
  with H ok assms hash_find_restrict [OF ok(1) H(2)] set_shrink_kept [of now c] show ?thesis
    by (auto simp: cache_ok_def hash_bounded_def cache_map_def)
qed

lemma AttrCache_set_zero:
  "hash_maxcount (ac_table c) = 0 \<Longrightarrow> AttrCache_set now c p (Some e) h = (True, c, h)"
  by (simp add: AttrCache_set_def)

lemma cache_empty: "cache_ok c \<Longrightarrow> hash_maxcount (ac_table c) = 0 \<Longrightarrow> cache_map c = Map.empty"
  using table.size_zero [of "ac_table c"] by (simp add: cache_ok_def hash_bounded_def cache_map_def hash_count_def)

lemma cache_step_ok:
  assumes "cache_ok c" "time_known x" "cache_map c \<subseteq>\<^sub>m m" "cache_step (c, h) x = (c', h')"
  shows "cache_ok c' \<and> cache_map c' \<subseteq>\<^sub>m last_said m x
    \<and> hash_maxcount (ac_table c') = hash_maxcount (ac_table c) \<and> ac_max_age_sec c' = ac_max_age_sec c
    \<and> faults h' = faults h"
proof (cases x)
  case (Cache_get now p)
  then obtain r where G: "AttrCache_get now c (Some p) h = (r, c', h')"
    using assms(4) AttrCache_copy_stat_get [OF assms(1), of now p h] by (auto split: prod.splits)
  note G' = AttrCache_get_ok [OF assms(1) G]
  have "hash_maxcount (ac_table c') = hash_maxcount (ac_table c)"
    by (rule AttrCache_get_cases [OF assms(1), of p now h])
       (use G assms(1) drop_bounded [of "ac_table c" p] in \<open>auto simp: cache_map_lookup cache_ok_def\<close>)
  with Cache_get G' assms(3) show ?thesis
    by (auto intro: map_le_upd_None split: option.splits if_splits)
next
  case (Cache_set now p e)
  then obtain r where S: "AttrCache_set now c p (Some e) h = (r, c', h')" using assms(4) by (metis cache_step.simps(2) prod.collapse)
  show ?thesis
  proof (cases "0 < hash_maxcount (ac_table c)")
    case True
    have now: "now \<noteq> -1" using assms(2) Cache_set by simp
    note S' = AttrCache_set_ok [OF assms(1) now True S refl]
    have "cache_map (cache_with_room now c h) \<subseteq>\<^sub>m m"
      using cache_with_room_ok(3) [OF assms(1) now True] assms(3) by (rule map_le_trans)
    with S' Cache_set show ?thesis by (simp add: map_le_upd_set)
  next
    case False
    then have "c' = c" "h' = h" "cache_map c = Map.empty"
      using S cache_empty [OF assms(1)] by (auto simp: AttrCache_set_zero)
    with assms(1) Cache_set show ?thesis by simp
  qed
next
  case (Cache_remove p)
  then have R: "AttrCache_remove c (Some p) h = (c', h')" using assms(4) by simp
  have "hash_maxcount (ac_table c') = hash_maxcount (ac_table c) \<and> ac_max_age_sec c' = ac_max_age_sec c"
    by (rule AttrCache_remove_cases [OF assms(1), of p h])
       (use R assms(1) drop_bounded [of "ac_table c" p] in \<open>auto simp: cache_map_lookup cache_ok_def\<close>)
  with Cache_remove R AttrCache_remove_ok [OF assms(1), of p h] assms(3) show ?thesis
    by (simp add: map_le_upd_both)
next
  case (Cache_shrink now)
  then obtain r where "AttrCache_shrink now c h = (r, c', h')" using assms(4) by (metis cache_step.simps(4) prod.collapse)
  with cache_shrink_keeps [OF assms(1) _ this] assms(2,3) Cache_shrink show ?thesis
    by (auto intro: map_le_trans)
qed

lemma cache_run_ok:
  assumes "cache_ok c" "\<forall>x \<in> set ops. time_known x" "cache_map c \<subseteq>\<^sub>m m"
    "foldl cache_step (c, h) ops = (c', h')"
  shows "cache_ok c' \<and> cache_map c' \<subseteq>\<^sub>m foldl last_said m ops
    \<and> hash_maxcount (ac_table c') = hash_maxcount (ac_table c) \<and> ac_max_age_sec c' = ac_max_age_sec c
    \<and> faults h' = faults h"
  using assms
proof (induction ops arbitrary: c h m)
  case (Cons x ops)
  obtain c1 h1 where s: "cache_step (c, h) x = (c1, h1)" by (cases "cache_step (c, h) x")
  with Cons.prems cache_step_ok [of c x m h c1 h1] Cons.IH [of c1 "last_said m x" h1] show ?case
    by simp
qed simp

section \<open>Properties\<close>

text \<open>
  C16: the attribute cache never invents and never outlives its age. After any sequence of
  lookups, updates, removals and shrinkings from initialisation, under any pattern of allocation
  failures, what \<open>AttrCache_get\<close> answers for a path is the entry the last \<open>AttrCache_set\<close> for
  that path stored, with no \<open>AttrCache_remove\<close> since, and it is at most \<open>max_age_sec\<close> old.
\<close>

theorem AttrCache_answers:
  assumes "AttrCache_init max_size age True h0 = (Some c0, h1)" "max_size \<le> 2 ^ 60"
    and "\<forall>x \<in> set ops. time_known x" "foldl cache_step (c0, h1) ops = (c, h)"
    and "fst (AttrCache_get now c (Some p) h) = Some e"
  shows "foldl last_said Map.empty ops p = Some e \<and> now \<noteq> -1 \<and> now \<le> ce_creation_ts e + int age"
proof -
  note I = AttrCache_init_ok [OF assms(1,2)]
  have R: "cache_ok c" "cache_map c \<subseteq>\<^sub>m foldl last_said Map.empty ops" "ac_max_age_sec c = age"
    using cache_run_ok [OF I(1) assms(3) _ assms(4), of Map.empty] I(2,4) by simp_all
  have "cache_map c p = Some e \<and> fresh_entry now c e"
    by (rule AttrCache_get_cases [OF R(1), of p now h]) (use assms(5) in auto)
  with R show ?thesis
    by (auto simp: map_le_def fresh_entry_def AttrCache_entry_is_deprecated_def dom_def)
qed

definition sample_entry :: cache_entry where
  "sample_entry = \<lparr>ce_stat = zero_stat, ce_creation_ts = 10\<rparr>"

lemma sample_set:
  assumes "AttrCache_init 9 3 True h0 = (Some c, h)" "outcomes h = []"
  obtains c' h' where "AttrCache_set 10 c ''a'' (Some sample_entry) h = (True, c', h')"
    "cache_ok c'" "cache_map c' ''a'' = Some sample_entry" "ac_max_age_sec c' = 3"
proof -
  note I = AttrCache_init_ok [OF assms(1)]
  obtain r c' h' where S: "AttrCache_set 10 c ''a'' (Some sample_entry) h = (r, c', h')"
    by (cases "AttrCache_set 10 c ''a'' (Some sample_entry) h")
  have "hash_lookup (ac_table c) ''a'' = None" "\<not> hash_isfull (ac_table c)"
    using I(1-3) cache_map_lookup [of c "''a''"] table.size_zero [of "ac_table c"]
    by (simp_all add: cache_ok_def hash_isfull_def hash_count_def cache_map_def)
  then have r: "r" using S I(3) assms(2)
    by (simp add: AttrCache_set_def Let_def hash_alloc_insert_simps heap_simps)
  have ok: "cache_ok c" "(10::int) \<noteq> -1" "0 < hash_maxcount (ac_table c)" using I by simp_all
  from AttrCache_set_ok [OF ok S refl] r I(4) S show thesis by (intro that) simp_all
qed

lemma sample_init: "\<exists>c h. AttrCache_init 9 3 True quiet_heap = (Some c, h) \<and> outcomes h = []"
  by (simp add: AttrCache_init_def hash_create_def quiet_heap_def heap_simps)

theorem AttrCache_answers_witness:
  "\<exists>c0 h1 c h. AttrCache_init 9 3 True quiet_heap = (Some c0, h1)
    \<and> foldl cache_step (c0, h1) [Cache_set 10 ''a'' sample_entry] = (c, h)
    \<and> fst (AttrCache_get 12 c (Some ''a'') h) = Some sample_entry
    \<and> (12::int) \<le> ce_creation_ts sample_entry + int 3"
proof -
  from sample_init obtain c0 h1 where i: "AttrCache_init 9 3 True quiet_heap = (Some c0, h1)" "outcomes h1 = []"
    by blast
  from sample_set [OF i] obtain c h where s: "AttrCache_set 10 c0 ''a'' (Some sample_entry) h1 = (True, c, h)"
    "cache_ok c" "cache_map c ''a'' = Some sample_entry" "ac_max_age_sec c = 3" by blast
  have run: "foldl cache_step (c0, h1) [Cache_set 10 ''a'' sample_entry] = (c, h)" using s(1) by simp
  have hit: "fst (AttrCache_get 12 c (Some ''a'') h) = Some sample_entry"
    using s(2-4) by (cases rule: AttrCache_get_cases [OF s(2), of "''a''" 12 h])
      (auto simp: fresh_entry_def AttrCache_entry_is_deprecated_def sample_entry_def)
  have known: "\<forall>x \<in> set [Cache_set 10 ''a'' sample_entry]. time_known x" by simp
  from AttrCache_answers [OF i(1) _ known run hit] i(1) run hit show ?thesis by auto
qed

text \<open>
  No sequence of operations breaks the cache: from initialisation on, whatever allocations
  fail, its table keeps its invariant, it never holds more than \<open>max_size\<close> entries, the mutex is
  released after every operation and no operation dereferences NULL or frees twice.
\<close>

theorem AttrCache_invariant:
  assumes "AttrCache_init max_size age True h0 = (Some c0, h1)" "max_size \<le> 2 ^ 60"
    and "\<forall>x \<in> set ops. time_known x" "foldl cache_step (c0, h1) ops = (c, h)"
  shows "hash_ok (ac_table c) \<and> cache_size c \<le> max_size \<and> \<not> ac_locked c \<and> faults h = faults h0"
proof -
  note I = AttrCache_init_ok [OF assms(1,2)]
  have "cache_ok c" "hash_maxcount (ac_table c) = max_size" "faults h = faults h0"
    using cache_run_ok [OF I(1) assms(3) _ assms(4), of Map.empty] I by simp_all
  then show ?thesis by (simp add: cache_ok_def hash_bounded_def cache_size_def hash_count_def)
qed

theorem AttrCache_invariant_witness:
  "\<exists>c0 h1 c h. AttrCache_init 9 3 True quiet_heap = (Some c0, h1)
    \<and> foldl cache_step (c0, h1) [Cache_set 10 ''a'' sample_entry, Cache_shrink 11] = (c, h)
    \<and> cache_size c \<le> 9 \<and> faults h = []"
proof -
  from sample_init obtain c0 h1 where i: "AttrCache_init 9 3 True quiet_heap = (Some c0, h1)" by blast
  obtain c h where run: "foldl cache_step (c0, h1) [Cache_set 10 ''a'' sample_entry, Cache_shrink 11] = (c, h)"
    by (cases "foldl cache_step (c0, h1) [Cache_set 10 ''a'' sample_entry, Cache_shrink 11]")
  have known: "\<forall>x \<in> set [Cache_set 10 ''a'' sample_entry, Cache_shrink 11]. time_known x" by simp
  from AttrCache_invariant [OF i(1) _ known run] i run show ?thesis by (auto simp: quiet_heap_def)
qed

text \<open>
  \<open>AttrCache_shrink\<close> removes every expired entry and, when these are fewer than the batch
  size (or the number of entries, if smaller), the first others in table order until the batch
  is reached: neither the oldest entries nor only a batch, as its comment has it. It frees
  nothing: the heap is as before, so the three blocks of every removed node are lost.
\<close>

theorem AttrCache_shrink_effect:
  assumes "cache_ok c" "now \<noteq> -1" "AttrCache_shrink now c h = (r, c', h')"
  shows "r \<and> h' = h \<and> cache_ok c'
    \<and> (let ns = hash_nodes (ac_table c); n_expired = length (filter (expired_node now c) ns);
           batch = min (ac_batch_size c) (cache_size c)
       in hash_nodes (ac_table c') = drop (batch - n_expired) (filter (\<lambda>n. \<not> expired_node now c n) ns)
          \<and> cache_size c' = cache_size c - max n_expired batch)"
proof -
  note K = cache_shrink_keeps [OF assms]
  then have "cache_size c' = length (shrink_kept now c)"
    using hash_ok_nodes [of "ac_table c'"] by (simp add: cache_ok_def hash_bounded_def cache_size_def)
  moreover have "hash_ok (ac_table c)" using assms(1) by (simp add: cache_ok_def hash_bounded_def)
  note length_shrink_kept [OF this, of now]
  ultimately show ?thesis using K by (simp add: shrink_kept_def shrink_target_def Let_def)
qed

theorem AttrCache_shrink_effect_witness:
  "\<exists>c h1 c2 h2 r c' h'. AttrCache_init 9 3 True quiet_heap = (Some c, h1)
    \<and> AttrCache_set 10 c ''a'' (Some sample_entry) h1 = (True, c2, h2)
    \<and> AttrCache_shrink 11 c2 h2 = (r, c', h') \<and> r \<and> live h' = live h2"
proof -
  from sample_init obtain c h1 where i: "AttrCache_init 9 3 True quiet_heap = (Some c, h1)" "outcomes h1 = []"
    by blast
  from sample_set [OF i] obtain c2 h2 where s: "AttrCache_set 10 c ''a'' (Some sample_entry) h1 = (True, c2, h2)"
    "cache_ok c2" by blast
  obtain r c' h' where k: "AttrCache_shrink 11 c2 h2 = (r, c', h')" by (cases "AttrCache_shrink 11 c2 h2")
  from AttrCache_shrink_effect [OF s(2) _ k] i(1) s(1) k show ?thesis by auto
qed

text \<open>
  An update that succeeds is seen by the next lookup of that path while it is fresh, and when
  the cache was not full all other paths keep their entries. One that fails for lack of memory
  has dropped the old entry of the path, and only that.
\<close>

theorem AttrCache_set_get:
  assumes "cache_ok c" "now \<noteq> -1" "0 < hash_maxcount (ac_table c)" "\<not> hash_isfull (ac_table c)"
    and "AttrCache_set now c p (Some e) h = (r, c', h')"
  shows "cache_map c' = (cache_map c)(p := (if r then Some e else None))
    \<and> fst (AttrCache_get now' c' (Some p) h'') = (if r \<and> fresh_entry now' c e then Some e else None)
    \<and> live h' = live h + (if r then 1 else 0) - (if cache_map c p = None then 0 else 3)"
proof -
  have base: "c = cache_with_room now c h" using assms(4) by (simp add: cache_with_room_def)
  note S = AttrCache_set_ok [OF assms(1,2,3,5) base]
  have "fresh_entry now' c' e \<longleftrightarrow> fresh_entry now' c e"
    by (simp add: fresh_entry_def AttrCache_entry_is_deprecated_def S(4))
  then have "fst (AttrCache_get now' c' (Some p) h'') = (if r \<and> fresh_entry now' c e then Some e else None)"
    by (rule_tac AttrCache_get_cases [OF S(1), of p now' h'']) (use S(2) in \<open>auto split: if_splits\<close>)
  with S(2,5) show ?thesis by simp
qed

theorem AttrCache_set_get_witness:
  "\<exists>c h1 r c' h'. AttrCache_init 9 3 True quiet_heap = (Some c, h1)
    \<and> AttrCache_set 10 c ''a'' (Some sample_entry) h1 = (r, c', h')
    \<and> cache_map c' = (cache_map c)(''a'' := (if r then Some sample_entry else None))"
proof -
  from sample_init obtain c h1 where i: "AttrCache_init 9 3 True quiet_heap = (Some c, h1)" by blast
  note I = AttrCache_init_ok [OF i]
  obtain r c' h' where s: "AttrCache_set 10 c ''a'' (Some sample_entry) h1 = (r, c', h')"
    by (cases "AttrCache_set 10 c ''a'' (Some sample_entry) h1")
  have "\<not> hash_isfull (ac_table c)"
    using I(1-3) table.size_zero [of "ac_table c"]
    by (simp add: cache_ok_def hash_isfull_def hash_count_def cache_map_def)
  from AttrCache_set_get [OF _ _ _ this s, of 0 quiet_heap] I(1,3)
  have "cache_map c' = (cache_map c)(''a'' := (if r then Some sample_entry else None))" by simp
  with i s show ?thesis by blast
qed

end
