(* ===== verification/Rhizo_Mapping.thy ===== *)
theory Rhizo_Mapping
  imports Rhizo_Wire
begin

text \<open>
  Model of \<^verbatim>\<open>src/mapping.c\<close> and \<^verbatim>\<open>src/posix.c\<close>: the translation between the local
  representation of error numbers, permissions, open flags, file types, attributes and file
  system statistics and the protocol's. What is proved: the tables are inverse to each other as
  far as the protocol can express the value, every constructor of a struct either succeeds
  owning a known number of heap blocks or fails leaving none behind, and the attributes of a
  file survive the trip through \<^verbatim>\<open>Attrs_create\<close> and \<^verbatim>\<open>Attrs_copy_to_stat\<close> up to the precision
  of the protocol.
\<close>

section \<open>Error numbers\<close>

definition errno_map :: "(rhizo_errno \<times> int) list" where
  "errno_map = [
     (ERRNO_NONE, 0),
     (ERRNO_PERM, EPERM),
     (ERRNO_NOENT, ENOENT),
     (ERRNO_NOMEM, ENOMEM),
     (ERRNO_ACCES, EACCES),
     (ERRNO_BUSY, EBUSY),
     (ERRNO_EXIST, EEXIST),
     (ERRNO_NOTDIR, ENOTDIR),
     (ERRNO_ISDIR, EISDIR),
     (ERRNO_INVAL, EINVAL),
     (ERRNO_FBIG, EFBIG),
     (ERRNO_NOSPC, ENOSPC),
     (ERRNO_ROFS, EROFS),
     (ERRNO_SPIPE, ESPIPE),
     (ERRNO_UNKNOWN, EIO),
     (ERRNO_INVALID_REQUEST, EINVAL),
     (ERRNO_UNSERIALIZABLE, EIO)]"

text \<open>The search loops of both functions: the first matching entry, or the default.\<close>

fun errno_from_loop :: "(rhizo_errno \<times> int) list \<Rightarrow> int \<Rightarrow> rhizo_errno \<Rightarrow> rhizo_errno" where
  "errno_from_loop [] lerrno perrno = perrno"
| "errno_from_loop (e # es) lerrno perrno =
     (if snd e = lerrno then fst e else errno_from_loop es lerrno perrno)"

fun errno_to_loop :: "(rhizo_errno \<times> int) list \<Rightarrow> rhizo_errno \<Rightarrow> int \<Rightarrow> int" where
  "errno_to_loop [] perrno lerrno = lerrno"
| "errno_to_loop (e # es) perrno lerrno =
     (if fst e = perrno then snd e else errno_to_loop es perrno lerrno)"

definition Errno_from_local :: "int \<Rightarrow> rhizo_errno" where
  "Errno_from_local lerrno = errno_from_loop errno_map lerrno ERRNO_UNKNOWN"

definition Errno_to_local :: "rhizo_errno \<Rightarrow> int" where
  "Errno_to_local perrno = errno_to_loop errno_map perrno EIO"

text \<open>
  The interface of a pair of first-match tables: a protocol column without duplicates and an
  entry that maps the default back to itself. Everything about the round trip of error numbers
  follows from it.
\<close>

locale flag_table =
  fixes tbl :: "(rhizo_errno \<times> int) list" and dflt_p :: rhizo_errno and dflt_l :: int
  assumes distinct_protocol: "distinct (map fst tbl)"
    and default_listed: "(dflt_p, dflt_l) \<in> set tbl"
begin

lemma to_loop_listed: "(p, l) \<in> set tbl \<Longrightarrow> errno_to_loop tbl p d = l"
  using distinct_protocol
proof (induction tbl)
  case (Cons e es)
  then show ?case by (cases e) (auto dest: in_set_zipE[of "_" "_" "map fst es" "map snd es"] simp: image_iff)
qed simp

lemma from_loop_hit: "l \<in> snd ` set tbl \<Longrightarrow> (errno_from_loop tbl l d, l) \<in> set tbl"
  by (induction tbl) auto

lemma from_loop_miss: "l \<notin> snd ` set tbl \<Longrightarrow> errno_from_loop tbl l d = d"
  by (induction tbl) auto

lemma roundtrip_listed: "l \<in> snd ` set tbl \<Longrightarrow> errno_to_loop tbl (errno_from_loop tbl l dp) dl = l"
  by (blast intro: to_loop_listed from_loop_hit)

lemma roundtrip_unlisted:
  "l \<notin> snd ` set tbl \<Longrightarrow> errno_to_loop tbl (errno_from_loop tbl l dflt_p) dl = dflt_l"
  using from_loop_miss to_loop_listed default_listed by simp

lemma roundtrip:
  "errno_to_loop tbl (errno_from_loop tbl l dflt_p) dl = (if l \<in> snd ` set tbl then l else dflt_l)"
  by (simp add: roundtrip_listed roundtrip_unlisted)

end

interpretation errnos: flag_table errno_map ERRNO_UNKNOWN EIO
  by unfold_locales (simp_all add: errno_map_def)

definition local_errnos :: "int set" where
  \<comment> \<open>the error numbers the protocol can carry unchanged\<close>
  "local_errnos = {0, EPERM, ENOENT, ENOMEM, EACCES, EBUSY, EEXIST, ENOTDIR, EISDIR, EINVAL,
     EFBIG, ENOSPC, EROFS, ESPIPE, EIO}"

lemma local_errnos_map: "snd ` set errno_map = local_errnos"
  by (auto simp: errno_map_def local_errnos_def)

lemma Errno_from_local_None: "Errno_from_local e = ERRNO_NONE \<longleftrightarrow> e = 0"
  by (auto simp: Errno_from_local_def errno_map_def)

lemma Errno_from_local_0 [simp]: "Errno_from_local 0 = ERRNO_NONE"
  by (simp add: Errno_from_local_None)

lemma Errno_to_local_NONE [simp]: "Errno_to_local ERRNO_NONE = 0"
  by (simp add: Errno_to_local_def errno_map_def)

lemma Errno_to_local_0: "Errno_to_local p = 0 \<longleftrightarrow> p = ERRNO_NONE"
  by (cases p) (simp_all add: Errno_to_local_def errno_map_def)

lemma Errno_local_trip:
  "Errno_to_local (Errno_from_local e) = (if e \<in> local_errnos then e else EIO)"
  unfolding Errno_to_local_def Errno_from_local_def local_errnos_map [symmetric]
  by (rule errnos.roundtrip)

section \<open>Permissions\<close>

abbreviation (input) S_IRUSR :: mode_t where "S_IRUSR \<equiv> 0x100"
abbreviation (input) S_IWUSR :: mode_t where "S_IWUSR \<equiv> 0x80"
abbreviation (input) S_IXUSR :: mode_t where "S_IXUSR \<equiv> 0x40"
abbreviation (input) S_IRGRP :: mode_t where "S_IRGRP \<equiv> 0x20"
abbreviation (input) S_IWGRP :: mode_t where "S_IWGRP \<equiv> 0x10"
abbreviation (input) S_IXGRP :: mode_t where "S_IXGRP \<equiv> 0x8"
abbreviation (input) S_IROTH :: mode_t where "S_IROTH \<equiv> 0x4"
abbreviation (input) S_IWOTH :: mode_t where "S_IWOTH \<equiv> 0x2"
abbreviation (input) S_IXOTH :: mode_t where "S_IXOTH \<equiv> 0x1"

definition PermissionSet_create :: "'a heap_scheme \<Rightarrow> permission_set option \<times> 'a heap_scheme" where
  "PermissionSet_create h =
     (if alloc_ok h then (Some \<lparr>ps_read = False, ps_write = False, ps_execute = False\<rparr>, alloc_next h)
      else (None, alloc_next h))"

definition PermissionSet_destroy :: "permission_set option \<Rightarrow> 'a heap_scheme \<Rightarrow> 'a heap_scheme" where
  "PermissionSet_destroy ps h = (case ps of None \<Rightarrow> h | Some _ \<Rightarrow> release 1 h)"

definition Permissions_destroy :: "permissions option \<Rightarrow> 'a heap_scheme \<Rightarrow> 'a heap_scheme" where
  "Permissions_destroy permissions h =
     (case permissions of
        None \<Rightarrow> h
      | Some p \<Rightarrow> release 1 (PermissionSet_destroy (p_world p)
          (PermissionSet_destroy (p_group p) (PermissionSet_destroy (p_owner p) h))))"

definition Permissions_create :: "mode_t \<Rightarrow> 'a heap_scheme \<Rightarrow> permissions option \<times> 'a heap_scheme" where
  "Permissions_create mode h =
     (if \<not> alloc_ok h then (None, alloc_next h)
      else let
        p = \<lparr>p_owner = None, p_group = None, p_world = None\<rparr>;
        (own, h1) = PermissionSet_create (alloc_next h)
      in if own = None then (None, Permissions_destroy (Some p) h1)
      else let
        p = p\<lparr>p_owner := own\<rparr>;
        (grp, h2) = PermissionSet_create h1
      in if grp = None then (None, Permissions_destroy (Some p) h2)
      else let
        p = p\<lparr>p_group := grp\<rparr>;
        (wld, h3) = PermissionSet_create h2
      in if wld = None then (None, Permissions_destroy (Some p) h3)
      else (Some \<lparr>
          p_owner = Some \<lparr>ps_read = mode AND S_IRUSR \<noteq> 0, ps_write = mode AND S_IWUSR \<noteq> 0,
                          ps_execute = mode AND S_IXUSR \<noteq> 0\<rparr>,
          p_group = Some \<lparr>ps_read = mode AND S_IRGRP \<noteq> 0, ps_write = mode AND S_IWGRP \<noteq> 0,
                          ps_execute = mode AND S_IXGRP \<noteq> 0\<rparr>,
          p_world = Some \<lparr>ps_read = mode AND S_IROTH \<noteq> 0, ps_write = mode AND S_IWOTH \<noteq> 0,
                          ps_execute = mode AND S_IXOTH \<noteq> 0\<rparr>\<rparr>, h3))"

text \<open>
  \<^verbatim>\<open>*success\<close> is the constructor: \<open>Some\<close> of the bitmask for true, \<open>None\<close> for false. The
  function only reads.
\<close>

definition set_bits :: "permission_set \<Rightarrow> mode_t \<Rightarrow> mode_t \<Rightarrow> mode_t \<Rightarrow> mode_t" where
  "set_bits ps r w x = (if ps_read ps then r else 0) OR (if ps_write ps then w else 0)
     OR (if ps_execute ps then x else 0)"

definition Permissions_to_bitmask :: "permissions option \<Rightarrow> mode_t option" where
  "Permissions_to_bitmask permissions =
     (case permissions of
        None \<Rightarrow> None
      | Some p \<Rightarrow> (case p_owner p of None \<Rightarrow> None | Some own \<Rightarrow>
          (case p_group p of None \<Rightarrow> None | Some grp \<Rightarrow>
          (case p_world p of None \<Rightarrow> None | Some wld \<Rightarrow>
             Some (set_bits own S_IRUSR S_IWUSR S_IXUSR OR set_bits grp S_IRGRP S_IWGRP S_IXGRP
                   OR set_bits wld S_IROTH S_IWOTH S_IXOTH)))))"

definition PermissionSet_to_string :: "permission_set option \<Rightarrow> bool \<times> string" where
  "PermissionSet_to_string permset =
     (case permset of
        None \<Rightarrow> (False, ''EEE'')
      | Some ps \<Rightarrow> (True, [if ps_read ps then CHR ''r'' else CHR ''-'',
                           if ps_write ps then CHR ''w'' else CHR ''-'',
                           if ps_execute ps then CHR ''x'' else CHR ''-'']))"

text \<open>
  The three calls write at offsets 0, 3 and 6, each over the terminator of the one before, and
  \<^verbatim>\<open>&&\<close> stops at the first that fails: the string ends there. \<open>None\<close> is the buffer left as it
  was.
\<close>

definition Permissions_to_string :: "permissions option \<Rightarrow> bool \<times> string option" where
  "Permissions_to_string permissions =
     (case permissions of
        None \<Rightarrow> (False, None)
      | Some p \<Rightarrow> (let (ok1, s1) = PermissionSet_to_string (p_owner p) in
          if \<not> ok1 then (False, Some s1)
          else let (ok2, s2) = PermissionSet_to_string (p_group p) in
            if \<not> ok2 then (False, Some (s1 @ s2))
            else let (ok3, s3) = PermissionSet_to_string (p_world p) in
              (ok3, Some (s1 @ s2 @ s3))))"

definition complete_permissions :: "permissions \<Rightarrow> bool" where
  "complete_permissions p \<longleftrightarrow> p_owner p \<noteq> None \<and> p_group p \<noteq> None \<and> p_world p \<noteq> None"

lemma PermissionSet_create_simps [simp]:
  "alloc_ok h \<Longrightarrow> PermissionSet_create h =
     (Some \<lparr>ps_read = False, ps_write = False, ps_execute = False\<rparr>, alloc_next h)"
  "\<not> alloc_ok h \<Longrightarrow> PermissionSet_create h = (None, alloc_next h)"
  by (simp_all add: PermissionSet_create_def)

lemma PermissionSet_destroy_simps [simp]:
  "PermissionSet_destroy None h = h" "PermissionSet_destroy (Some ps) h = release 1 h"
  by (simp_all add: PermissionSet_destroy_def)

lemma Permissions_create_cases:
  obtains (fail) h' where "Permissions_create mode h = (None, h')" "live h' = live h"
      "faults h' = faults h"
  | (ok) p h' where "Permissions_create mode h = (Some p, h')" "complete_permissions p"
      "live h' = live h + 4" "faults h' = faults h"
proof -
  let ?h1 = "alloc_next h" and ?h2 = "alloc_next (alloc_next h)"
  let ?h3 = "alloc_next (alloc_next (alloc_next h))"
  show ?thesis
    by (cases "alloc_ok h"; cases "alloc_ok ?h1"; cases "alloc_ok ?h2"; cases "alloc_ok ?h3")
       (auto intro: that simp: Permissions_create_def Permissions_destroy_def heap_simps
          complete_permissions_def)
qed

lemma permissions_blocks_complete: "complete_permissions p \<Longrightarrow> permissions_blocks p = 4"
  by (auto simp: complete_permissions_def permissions_blocks_def)

lemma bit_of_mode: "mode AND 2 ^ n \<noteq> 0 \<longleftrightarrow> bit mode n" for mode :: "'a::len word"
  by (metis and_exp_eq_0_iff_not_bit)

lemma single_bit_test: "b = 2 ^ n \<Longrightarrow> (if mode AND b \<noteq> 0 then b else 0) = mode AND b"
  for mode :: "'a::len word"
  by (rule bit_word_eqI) (auto simp: bit_of_mode bit_simps)

lemma single_bit_tests:
  fixes mode :: mode_t
  shows "(if mode AND 0x100 \<noteq> 0 then 0x100 else 0) = mode AND 0x100"
    "(if mode AND 0x80 \<noteq> 0 then 0x80 else 0) = mode AND 0x80"
    "(if mode AND 0x40 \<noteq> 0 then 0x40 else 0) = mode AND 0x40"
    "(if mode AND 0x20 \<noteq> 0 then 0x20 else 0) = mode AND 0x20"
    "(if mode AND 0x10 \<noteq> 0 then 0x10 else 0) = mode AND 0x10"
    "(if mode AND 0x8 \<noteq> 0 then 0x8 else 0) = mode AND 0x8"
    "(if mode AND 0x4 \<noteq> 0 then 0x4 else 0) = mode AND 0x4"
    "(if mode AND 0x2 \<noteq> 0 then 0x2 else 0) = mode AND 0x2"
    "(if mode AND 0x1 \<noteq> 0 then 0x1 else 0) = mode AND 0x1"
  using single_bit_test [of "0x100" 8 mode] single_bit_test [of "0x80" 7 mode]
    single_bit_test [of "0x40" 6 mode] single_bit_test [of "0x20" 5 mode]
    single_bit_test [of "0x10" 4 mode] single_bit_test [of "0x8" 3 mode]
    single_bit_test [of "0x4" 2 mode] single_bit_test [of "0x2" 1 mode]
    single_bit_test [of "0x1" 0 mode]
  by simp_all

lemma mode_bits_union:
  "((mode AND S_IRUSR OR mode AND S_IWUSR OR mode AND S_IXUSR)
     OR (mode AND S_IRGRP OR mode AND S_IWGRP OR mode AND S_IXGRP)
     OR (mode AND S_IROTH OR mode AND S_IWOTH OR mode AND S_IXOTH)) = mode AND 0x1FF"
  by (simp flip: bit.conj_disj_distrib)

lemma Permissions_bitmask_trip:
  assumes "Permissions_create mode h = (Some p, h')"
  shows "Permissions_to_bitmask (Some p) = Some (mode AND 0x1FF)"
proof -
  have "Permissions_to_bitmask (Some p) = Some
     ((mode AND S_IRUSR OR mode AND S_IWUSR OR mode AND S_IXUSR)
      OR (mode AND S_IRGRP OR mode AND S_IWGRP OR mode AND S_IXGRP)
      OR (mode AND S_IROTH OR mode AND S_IWOTH OR mode AND S_IXOTH))"
    using assms unfolding Permissions_create_def PermissionSet_create_def
    by (simp add: Let_def split: if_splits)
       (clarsimp simp only: Permissions_to_bitmask_def set_bits_def single_bit_tests option.case permission_set.simps permissions.simps)
  then show ?thesis by (simp only: mode_bits_union)
qed

lemma Permissions_to_bitmask_None: "Permissions_to_bitmask (Some p) = None \<longleftrightarrow> \<not> complete_permissions p"
  by (auto simp: Permissions_to_bitmask_def complete_permissions_def split: option.splits)

section \<open>File types\<close>

abbreviation (input) S_IFMT :: mode_t where "S_IFMT \<equiv> 0xF000"
abbreviation (input) S_IFSOCK :: mode_t where "S_IFSOCK \<equiv> 0xC000"
abbreviation (input) S_IFLNK :: mode_t where "S_IFLNK \<equiv> 0xA000"
abbreviation (input) S_IFREG :: mode_t where "S_IFREG \<equiv> 0x8000"
abbreviation (input) S_IFBLK :: mode_t where "S_IFBLK \<equiv> 0x6000"
abbreviation (input) S_IFDIR :: mode_t where "S_IFDIR \<equiv> 0x4000"
abbreviation (input) S_IFCHR :: mode_t where "S_IFCHR \<equiv> 0x2000"
abbreviation (input) S_IFIFO :: mode_t where "S_IFIFO \<equiv> 0x1000"

definition FileType_to_local :: "file_type \<Rightarrow> mode_t" where
  "FileType_to_local filetype =
     (case filetype of
        FT_DIRECTORY \<Rightarrow> S_IFDIR
      | FT_CHARACTER_DEVICE \<Rightarrow> S_IFCHR
      | FT_BLOCK_DEVICE \<Rightarrow> S_IFBLK
      | FT_FIFO \<Rightarrow> S_IFIFO
      | FT_SYMLINK \<Rightarrow> S_IFLNK
      | FT_REGULAR_FILE \<Rightarrow> S_IFREG
      | FT_SOCKET \<Rightarrow> S_IFSOCK
      | FT_unlisted _ \<Rightarrow> S_IFREG)"

definition FileType_from_local :: "mode_t \<Rightarrow> file_type" where
  "FileType_from_local stat_result =
     (let fmt = stat_result AND S_IFMT in
      if fmt = S_IFDIR then FT_DIRECTORY
      else if fmt = S_IFLNK then FT_SYMLINK
      else if fmt = S_IFBLK then FT_BLOCK_DEVICE
      else if fmt = S_IFIFO then FT_FIFO
      else if fmt = S_IFSOCK then FT_SOCKET
      else if fmt = S_IFREG then FT_REGULAR_FILE
      else if fmt = S_IFCHR then FT_CHARACTER_DEVICE
      else FT_REGULAR_FILE)"

definition S_ISREG :: "mode_t \<Rightarrow> bool" where
  "S_ISREG m \<longleftrightarrow> m AND S_IFMT = S_IFREG"

definition listed_file_type :: "file_type \<Rightarrow> bool" where
  "listed_file_type ft = (case ft of FT_unlisted _ \<Rightarrow> False | _ \<Rightarrow> True)"

definition local_file_formats :: "mode_t set" where
  "local_file_formats = {S_IFDIR, S_IFLNK, S_IFBLK, S_IFIFO, S_IFSOCK, S_IFREG, S_IFCHR}"

lemma FileType_from_mask: "FileType_from_local (m AND 0xF000) = FileType_from_local m"
  by (simp add: FileType_from_local_def and.assoc)

lemma FileType_trip_protocol:
  assumes "perm AND S_IFMT = 0"
  shows "FileType_from_local (FileType_to_local ft OR perm)
           = (if listed_file_type ft then ft else FT_REGULAR_FILE)"
  using assms
  by (cases ft)
     (simp_all add: FileType_from_local_def FileType_to_local_def bit.conj_disj_distrib2
        listed_file_type_def)

lemma FileType_trip_local:
  "m AND S_IFMT \<in> local_file_formats \<Longrightarrow> FileType_to_local (FileType_from_local m) = m AND S_IFMT"
  by (auto simp: local_file_formats_def FileType_from_local_def FileType_to_local_def)

lemma FileType_to_local_mask [simp]: "FileType_to_local ft AND S_IFMT = FileType_to_local ft"
  by (cases ft) (simp_all add: FileType_to_local_def)

lemma FileType_to_local_nonzero: "FileType_to_local ft AND 0x1FF = 0"
  by (cases ft) (simp_all add: FileType_to_local_def)

section \<open>Open flags\<close>

abbreviation (input) O_RDONLY :: "32 word" where "O_RDONLY \<equiv> 0"
abbreviation (input) O_WRONLY :: "32 word" where "O_WRONLY \<equiv> 1"
abbreviation (input) O_RDWR :: "32 word" where "O_RDWR \<equiv> 2"
abbreviation (input) O_CREAT :: "32 word" where "O_CREAT \<equiv> 0x40"
abbreviation (input) O_EXCL :: "32 word" where "O_EXCL \<equiv> 0x80"
abbreviation (input) O_TRUNC :: "32 word" where "O_TRUNC \<equiv> 0x200"
abbreviation (input) O_APPEND :: "32 word" where "O_APPEND \<equiv> 0x400"

definition OpenFlags_from_bitmask :: "32 word \<Rightarrow> 'a heap_scheme \<Rightarrow> open_flags option \<times> 'a heap_scheme" where
  "OpenFlags_from_bitmask flags h =
     (if \<not> alloc_ok h then (None, alloc_next h)
      else (Some \<lparr>of_rdonly = flags AND O_RDONLY \<noteq> 0, of_wronly = flags AND O_WRONLY \<noteq> 0,
                  of_rdwr = flags AND O_RDWR \<noteq> 0, of_creat = flags AND O_CREAT \<noteq> 0,
                  of_excl = flags AND O_EXCL \<noteq> 0, of_trunc = flags AND O_TRUNC \<noteq> 0,
                  of_append = flags AND O_APPEND \<noteq> 0\<rparr>, alloc_next h))"

definition OpenFlags_to_bitmask :: "open_flags option \<Rightarrow> 32 word option" where
  "OpenFlags_to_bitmask openflags =
     (case openflags of
        None \<Rightarrow> None
      | Some f \<Rightarrow> Some ((if of_rdonly f then O_RDONLY else 0) OR (if of_wronly f then O_WRONLY else 0)
          OR (if of_rdwr f then O_RDWR else 0) OR (if of_creat f then O_CREAT else 0)
          OR (if of_excl f then O_EXCL else 0) OR (if of_trunc f then O_TRUNC else 0)
          OR (if of_append f then O_APPEND else 0)))"

definition OpenFlags_destroy :: "open_flags option \<Rightarrow> 'a heap_scheme \<Rightarrow> 'a heap_scheme" where
  "OpenFlags_destroy openflags h = (case openflags of None \<Rightarrow> h | Some _ \<Rightarrow> release 1 h)"

lemma single_flag_tests:
  fixes flags :: "32 word"
  shows "(if flags AND 0x1 \<noteq> 0 then 0x1 else 0) = flags AND 0x1"
    "(if flags AND 0x2 \<noteq> 0 then 0x2 else 0) = flags AND 0x2"
    "(if flags AND 0x40 \<noteq> 0 then 0x40 else 0) = flags AND 0x40"
    "(if flags AND 0x80 \<noteq> 0 then 0x80 else 0) = flags AND 0x80"
    "(if flags AND 0x200 \<noteq> 0 then 0x200 else 0) = flags AND 0x200"
    "(if flags AND 0x400 \<noteq> 0 then 0x400 else 0) = flags AND 0x400"
  using single_bit_test [of "0x1" 0 flags] single_bit_test [of "0x2" 1 flags]
    single_bit_test [of "0x40" 6 flags] single_bit_test [of "0x80" 7 flags]
    single_bit_test [of "0x200" 9 flags] single_bit_test [of "0x400" 10 flags]
  by simp_all

lemma flag_bits_union:
  fixes flags :: "32 word"
  shows "0 OR flags AND O_WRONLY OR flags AND O_RDWR OR flags AND O_CREAT OR flags AND O_EXCL
     OR flags AND O_TRUNC OR flags AND O_APPEND = flags AND 0x6C3"
  by (simp flip: bit.conj_disj_distrib)

lemma OpenFlags_bitmask_trip:
  assumes "OpenFlags_from_bitmask flags h = (Some f, h')"
  shows "OpenFlags_to_bitmask (Some f) = Some (flags AND 0x6C3)"
proof -
  have "OpenFlags_to_bitmask (Some f) = Some (0 OR flags AND O_WRONLY OR flags AND O_RDWR
     OR flags AND O_CREAT OR flags AND O_EXCL OR flags AND O_TRUNC OR flags AND O_APPEND)"
    using assms unfolding OpenFlags_from_bitmask_def
    by (simp split: if_splits)
       (clarsimp simp only: OpenFlags_to_bitmask_def single_flag_tests option.case open_flags.simps
          if_cancel or.left_neutral)
  then show ?thesis by (simp only: flag_bits_union)
qed

section \<open>Group membership (posix.c)\<close>

text \<open>The group list is read into a zeroed buffer of the size asked for first.\<close>

definition posix_current_user_in_group :: "'w env \<Rightarrow> nat \<Rightarrow> 'w mach \<Rightarrow> int \<times> 'w mach" where
  "posix_current_user_in_group E gid m =
     (let n_groups = sys_ret E Sys_getgroups_count m; m1 = sys_next E Sys_getgroups_count m in
      if n_groups = -1 then (-1, m1)
      else if \<not> alloc_ok m1 then (-1, alloc_next m1)
      else let
        n = nat n_groups;
        r = os_getgroups E n (world m1);
        m2 = sys_made (Sys_getgroups n) r (alloc_next m1)
      in case fst r of
           Inl _ \<Rightarrow> (-1, release 1 m2)
         | Inr ids \<Rightarrow>
             (if gid \<in> set (take n (ids @ replicate n 0)) then 1 else 0, release 1 m2))"

lemma posix_group_frame:
  "live (snd (posix_current_user_in_group E gid m)) = live m \<and>
   faults (snd (posix_current_user_in_group E gid m)) = faults m"
  by (simp add: posix_current_user_in_group_def Let_def heap_simps sys_simps split: sum.splits)

section \<open>Attributes\<close>

definition TimeSet_create :: "'a heap_scheme \<Rightarrow> time_set option \<times> 'a heap_scheme" where
  "TimeSet_create h =
     (if alloc_ok h then
        (Some \<lparr>ts_access_sec = 0, ts_modify_sec = 0, ts_creation_sec = 0, ts_has_creation_sec = False,
               ts_access_usec = 0, ts_modify_usec = 0, ts_creation_usec = 0,
               ts_has_access_usec = False, ts_has_modify_usec = False,
               ts_has_creation_usec = False\<rparr>, alloc_next h)
      else (None, alloc_next h))"

definition TimeSet_destroy :: "time_set option \<Rightarrow> 'a heap_scheme \<Rightarrow> 'a heap_scheme" where
  "TimeSet_destroy ts h = (case ts of None \<Rightarrow> h | Some _ \<Rightarrow> release 1 h)"

definition Attrs_destroy :: "attrs option \<Rightarrow> 'a heap_scheme \<Rightarrow> 'a heap_scheme" where
  "Attrs_destroy attrs h =
     (case attrs of
        None \<Rightarrow> h
      | Some a \<Rightarrow> release 1 (release (of_opt (\<lambda>_. 1) (a_name a))
          (TimeSet_destroy (a_timestamps a) (Permissions_destroy (a_permissions a) h))))"

definition usec_of_nsec :: "int \<Rightarrow> int" where
  "usec_of_nsec ns = int32 (ns sdiv 1000)"

definition nsec_of_usec :: "int \<Rightarrow> int" where
  "nsec_of_usec us = int32 (us * 1000)"

definition stat_times :: "stat \<Rightarrow> time_set" where
  "stat_times sb = \<lparr>ts_access_sec = st_atim_sec sb, ts_modify_sec = st_mtim_sec sb,
     ts_creation_sec = st_ctim_sec sb, ts_has_creation_sec = True,
     ts_access_usec = usec_of_nsec (st_atim_nsec sb), ts_modify_usec = usec_of_nsec (st_mtim_nsec sb),
     ts_creation_usec = usec_of_nsec (st_ctim_nsec sb), ts_has_access_usec = True,
     ts_has_modify_usec = True, ts_has_creation_usec = True\<rparr>"

definition Attrs_create :: "'w env \<Rightarrow> stat \<Rightarrow> string option \<Rightarrow> 'w mach \<Rightarrow> attrs option \<times> 'w mach" where
  "Attrs_create E sb name m =
     (if \<not> alloc_ok m then (None, alloc_next m)
      else let
        a = \<lparr>a_size = st_size sb, a_is_owner = False, a_is_in_group = False, a_timestamps = None,
             a_filetype = FT_DIRECTORY, a_permissions = None, a_name = None\<rparr>;
        m1 = alloc_next m;
        name_failed = (name \<noteq> None \<and> \<not> alloc_ok m1);
        m2 = (if name = None then m1 else alloc_next m1)
      in if name_failed then (None, Attrs_destroy (Some a) m2)
      else let
        a = a\<lparr>a_name := name\<rparr>;
        (permissions, m3) = Permissions_create (st_mode sb) m2
      in if permissions = None then (None, Attrs_destroy (Some a) m3)
      else let
        a = a\<lparr>a_permissions := permissions\<rparr>;
        (ts, m4) = TimeSet_create m3
      in if ts = None then (None, Attrs_destroy (Some a) m4)
      else let
        a = a\<lparr>a_timestamps := Some (stat_times sb), a_filetype := FileType_from_local (st_mode sb),
              a_is_owner := (os_getuid E = st_uid sb)\<rparr>;
        (is_in_group, m5) = posix_current_user_in_group E (st_gid sb) m4
      in if is_in_group = -1 then (None, Attrs_destroy (Some a) m5)
      else (Some (a\<lparr>a_is_in_group := (is_in_group \<noteq> 0)\<rparr>), m5))"

text \<open>
  \<^verbatim>\<open>attrs->timestamps\<close> is dereferenced without a check: NULL there is a fault. The stat struct
  has been zeroed by then, and it keeps what was written before a failing check.
\<close>

definition Attrs_copy_to_stat :: "attrs option \<Rightarrow> stat \<Rightarrow> 'a heap_scheme \<Rightarrow> bool \<times> stat \<times> 'a heap_scheme" where
  "Attrs_copy_to_stat attrs sb h =
     (case attrs of
        None \<Rightarrow> (False, sb, h)
      | Some a \<Rightarrow>
         (let filetype = FileType_to_local (a_filetype a) in
          case Permissions_to_bitmask (a_permissions a) of
            None \<Rightarrow> (False, zero_stat, h)
          | Some permissions \<Rightarrow>
             (let sb1 = zero_stat\<lparr>st_size := a_size a, st_mode := filetype OR permissions,
                                  st_nlink := 1\<rparr> in
              case a_timestamps a of
                None \<Rightarrow> (False, sb1, add_fault Null_deref h)
              | Some ts \<Rightarrow>
                 (let sb2 = sb1\<lparr>st_atim_sec := ts_access_sec ts, st_mtim_sec := ts_modify_sec ts\<rparr> in
                  if \<not> ts_has_creation_sec ts then (False, sb2, h)
                  else (True, sb2\<lparr>st_ctim_sec := ts_creation_sec ts,
                          st_atim_nsec := nsec_of_usec (ts_access_usec ts),
                          st_mtim_nsec := nsec_of_usec (ts_modify_usec ts),
                          st_ctim_nsec := nsec_of_usec (ts_creation_usec ts)\<rparr>, h)))))"

section \<open>File system statistics\<close>

definition StatFs_create :: "statvfs \<Rightarrow> 'a heap_scheme \<Rightarrow> stat_fs option \<times> 'a heap_scheme" where
  "StatFs_create sv h =
     (if \<not> alloc_ok h then (None, alloc_next h)
      else (Some \<lparr>sf_bsize = f_bsize sv, sf_frsize = f_frsize sv, sf_blocks = f_blocks sv,
                  sf_bfree = f_bfree sv, sf_bavail = f_bavail sv, sf_files = f_files sv,
                  sf_ffree = f_ffree sv, sf_favail = f_favail sv, sf_fsid = f_fsid sv,
                  sf_flag = f_flag sv, sf_namemax = f_namemax sv\<rparr>, alloc_next h))"

definition StatFs_destroy :: "stat_fs option \<Rightarrow> 'a heap_scheme \<Rightarrow> 'a heap_scheme" where
  "StatFs_destroy sf h = (case sf of None \<Rightarrow> h | Some _ \<Rightarrow> release 1 h)"

section \<open>What the constructors promise\<close>

lemma destroy_simps [simp]:
  "TimeSet_destroy None h = h" "TimeSet_destroy (Some ts) h = release 1 h"
  "Permissions_destroy None h = h" "Attrs_destroy None h = h"
  "StatFs_destroy None h = h" "StatFs_destroy (Some sf) h = release 1 h"
  "OpenFlags_destroy None h = h" "OpenFlags_destroy (Some f) h = release 1 h"
  by (simp_all add: TimeSet_destroy_def Permissions_destroy_def Attrs_destroy_def
      StatFs_destroy_def OpenFlags_destroy_def)

lemma Permissions_destroy_Some [simp]:
  "Permissions_destroy (Some p) h = release (permissions_blocks p) h"
  by (auto simp: Permissions_destroy_def permissions_blocks_def heap_simps algebra_simps
      PermissionSet_destroy_def split: option.splits)

lemma Attrs_destroy_Some [simp]: "Attrs_destroy (Some a) h = release (attrs_blocks a) h"
  by (auto simp: Attrs_destroy_def attrs_blocks_def heap_simps algebra_simps
      TimeSet_destroy_def of_opt_def split: option.splits)

definition complete_attrs :: "stat \<Rightarrow> string option \<Rightarrow> attrs \<Rightarrow> bool" where
  \<comment> \<open>what a successful \<open>Attrs_create\<close> has filled in\<close>
  "complete_attrs sb name a \<longleftrightarrow>
     a_size a = st_size sb \<and> a_name a = name \<and> a_timestamps a = Some (stat_times sb) \<and>
     a_filetype a = FileType_from_local (st_mode sb) \<and>
     (\<exists>p. a_permissions a = Some p \<and> complete_permissions p \<and>
        Permissions_to_bitmask (Some p) = Some (st_mode sb AND 0x1FF))"

lemma Attrs_create_cases:
  obtains (fail) m' where "Attrs_create E sb name m = (None, m')" "live m' = live m"
      "faults m' = faults m"
  | (ok) a m' where "Attrs_create E sb name m = (Some a, m')" "complete_attrs sb name a"
      "live m' = live m + attrs_blocks a" "faults m' = faults m"
      "a_is_owner a \<longleftrightarrow> os_getuid E = st_uid sb"
proof -
  let ?m1 = "alloc_next m"
  let ?m2 = "if name = None then ?m1 else alloc_next ?m1"
  show thesis
  proof (cases "alloc_ok m \<and> (name = None \<or> alloc_ok ?m1)")
    case False
    then show thesis
      by (intro fail [of "snd (Attrs_create E sb name m)"])
         (auto simp: Attrs_create_def attrs_blocks_def heap_simps)
  next
    case True
    have m2: "live ?m2 = live m + 1 + of_opt (\<lambda>_. 1) name" "faults ?m2 = faults m"
      using True by (auto simp: heap_simps of_opt_def split: option.splits)
    show thesis
    proof (rule Permissions_create_cases [of "st_mode sb" ?m2])
      fix h'
      assume "Permissions_create (st_mode sb) ?m2 = (None, h')" "live h' = live ?m2"
        "faults h' = faults ?m2"
      with True m2 show thesis
        by (intro fail [of "snd (Attrs_create E sb name m)"])
           (auto simp: Attrs_create_def attrs_blocks_def heap_simps)
    next
      fix p m3
      assume p: "Permissions_create (st_mode sb) ?m2 = (Some p, m3)" "complete_permissions p"
        "live m3 = live ?m2 + 4" "faults m3 = faults ?m2"
      note blocks = permissions_blocks_complete [OF p(2)]
      note trip = Permissions_bitmask_trip [OF p(1)]
      obtain g m5 where g: "posix_current_user_in_group E (st_gid sb) (alloc_next m3) = (g, m5)"
        by (cases "posix_current_user_in_group E (st_gid sb) (alloc_next m3)")
      have m5: "live m5 = live (alloc_next m3)" "faults m5 = faults m3"
        using posix_group_frame [of E "st_gid sb" "alloc_next m3"] by (simp_all add: g heap_simps)
      show thesis
      proof (cases "alloc_ok m3 \<and> g \<noteq> -1")
        case False
        with True m2 p g m5 blocks show thesis
          by (intro fail [of "snd (Attrs_create E sb name m)"])
             (auto simp: Attrs_create_def attrs_blocks_def heap_simps TimeSet_create_def)
      next
        case ok': True
        with True m2 p g m5 blocks trip show thesis
          by (intro ok [of "the (fst (Attrs_create E sb name m))" "snd (Attrs_create E sb name m)"])
             (auto simp: Attrs_create_def attrs_blocks_def heap_simps TimeSet_create_def
               complete_attrs_def)
      qed
    qed
  qed
qed

lemma StatFs_create_simps [simp]:
  "fst (StatFs_create sv h) = None \<longleftrightarrow> \<not> alloc_ok h" "snd (StatFs_create sv h) = alloc_next h"
  by (simp_all add: StatFs_create_def)

section \<open>Attributes there and back\<close>

lemma usec_range: "0 \<le> ns \<Longrightarrow> ns < 10 ^ 9 \<Longrightarrow> usec_of_nsec ns = ns div 1000"
  by (cases "ns = 0") (simp_all add: usec_of_nsec_def signed_divide_int_def int32_id)

lemma nsec_trip:
  assumes "0 \<le> ns" "ns < 10 ^ 9"
  shows "nsec_of_usec (usec_of_nsec ns) = ns - ns mod 1000"
proof -
  have "ns div 1000 * 1000 = ns - ns mod 1000"
    by (simp add: minus_mod_eq_div_mult)
  with assms show ?thesis
    by (simp add: usec_range nsec_of_usec_def int32_id)
qed

definition timed_stat :: "stat \<Rightarrow> bool" where
  \<comment> \<open>the nanosecond fields are below one second, as POSIX has it\<close>
  "timed_stat sb \<longleftrightarrow> 0 \<le> st_atim_nsec sb \<and> st_atim_nsec sb < 10 ^ 9 \<and>
     0 \<le> st_mtim_nsec sb \<and> st_mtim_nsec sb < 10 ^ 9 \<and>
     0 \<le> st_ctim_nsec sb \<and> st_ctim_nsec sb < 10 ^ 9"

definition protocol_stat :: "stat \<Rightarrow> stat" where
  \<comment> \<open>the part of a stat the protocol carries\<close>
  "protocol_stat sb = zero_stat\<lparr>st_size := st_size sb,
     st_mode := FileType_to_local (FileType_from_local (st_mode sb)) OR (st_mode sb AND 0x1FF),
     st_nlink := 1,
     st_atim_sec := st_atim_sec sb, st_atim_nsec := st_atim_nsec sb - st_atim_nsec sb mod 1000,
     st_mtim_sec := st_mtim_sec sb, st_mtim_nsec := st_mtim_nsec sb - st_mtim_nsec sb mod 1000,
     st_ctim_sec := st_ctim_sec sb, st_ctim_nsec := st_ctim_nsec sb - st_ctim_nsec sb mod 1000\<rparr>"

lemma complete_attrs_to_stat:
  "complete_attrs sb name a \<Longrightarrow> timed_stat sb \<Longrightarrow>
     Attrs_copy_to_stat (Some a) sb0 h = (True, protocol_stat sb, h)"
  by (auto simp: complete_attrs_def Attrs_copy_to_stat_def protocol_stat_def timed_stat_def
      stat_times_def nsec_trip)

section \<open>Properties\<close>

text \<open>
  C21: a stat the server packs with \<open>Attrs_create\<close> and the client unpacks with
  \<open>Attrs_copy_to_stat\<close> comes back with its size, its times to the microsecond, one link and,
  when the file has one of the seven formats of POSIX, with its format and its nine permission
  bits (set-user-id, set-group-id and sticky are lost).
\<close>

theorem stat_round_trip:
  assumes "Attrs_create E sb name m = (Some a, m')" "timed_stat sb"
  shows "Attrs_copy_to_stat (Some a) sb0 h = (True, protocol_stat sb, h)
    \<and> (st_mode sb AND S_IFMT \<in> local_file_formats
         \<longrightarrow> st_mode (protocol_stat sb) = st_mode sb AND 0xF1FF)"
proof -
  have "complete_attrs sb name a"
    using assms(1) by (rule_tac Attrs_create_cases [of E sb name m]) auto
  moreover have "st_mode sb AND 0xF000 OR st_mode sb AND 0x1FF = st_mode sb AND 0xF1FF"
    by (simp flip: bit.conj_disj_distrib)
  ultimately show ?thesis
    using complete_attrs_to_stat assms(2) FileType_trip_local [of "st_mode sb"]
    by (simp add: protocol_stat_def)
qed

theorem stat_round_trip_witness:
  "\<exists>a m'. Attrs_create quiet_env (zero_stat\<lparr>st_mode := 0x81A4, st_size := 7, st_mtim_nsec := 1999\<rparr>)
      (Some ''f'') quiet_mach = (Some a, m')
    \<and> Attrs_copy_to_stat (Some a) zero_stat quiet_heap
        = (True, zero_stat\<lparr>st_mode := 0x81A4, st_size := 7, st_nlink := 1, st_mtim_nsec := 1000\<rparr>, quiet_heap)"
proof -
  let ?sb = "zero_stat\<lparr>st_mode := 0x81A4, st_size := 7, st_mtim_nsec := 1999\<rparr>"
  obtain a m' where a: "Attrs_create quiet_env ?sb (Some ''f'') quiet_mach = (Some a, m')"
    by (simp add: Attrs_create_def Permissions_create_def quiet_mach_def TimeSet_create_def heap_simps
        posix_current_user_in_group_def sys_ret_def quiet_env_def sys_simps Let_def alloc_ok_def alloc_next_def
        sys_next_def sys_made_def)
  have "timed_stat ?sb" by (simp add: timed_stat_def zero_stat_def)
  from stat_round_trip [OF a this, of zero_stat quiet_heap] a show ?thesis
    by (simp add: protocol_stat_def zero_stat_def FileType_from_local_def FileType_to_local_def)
qed

text \<open>
  Under every pattern of allocation failures \<open>Attrs_create\<close> either returns NULL and has
  given back every block it took, or returns attributes that own exactly what was allocated, so
  that \<open>Attrs_destroy\<close> restores the balance; it never faults.
\<close>

theorem Attrs_create_balanced:
  "case Attrs_create E sb name m of
     (None, m') \<Rightarrow> live m' = live m \<and> faults m' = faults m
   | (Some a, m') \<Rightarrow> live m' = live m + attrs_blocks a \<and> live (Attrs_destroy (Some a) m') = live m
       \<and> faults (Attrs_destroy (Some a) m') = faults m"
  by (rule Attrs_create_cases [of E sb name m]) (auto simp: heap_simps)

text \<open>
  An error number survives the way through the protocol if it is one of the fifteen the
  protocol has a code for, and becomes EIO otherwise; no error becomes a success, and every
  protocol code other than the one for no error is reported as an error.
\<close>

theorem errno_round_trip:
  "Errno_to_local (Errno_from_local e) = (if e \<in> local_errnos then e else EIO)
   \<and> (Errno_from_local e = ERRNO_NONE \<longleftrightarrow> e = 0) \<and> (Errno_to_local p = 0 \<longleftrightarrow> p = ERRNO_NONE)"
  by (simp add: Errno_local_trip Errno_from_local_None Errno_to_local_0)

text \<open>
  The mode and the flags of a request survive the way through the protocol on the bits the
  protocol has fields for: the nine permission bits, and the access mode, create, exclusive,
  truncate and append flags.
\<close>

theorem mode_and_flags_round_trip:
  assumes "Permissions_create mode h = (Some p, h1)" "OpenFlags_from_bitmask flags h1 = (Some f, h2)"
  shows "Permissions_to_bitmask (Some p) = Some (mode AND 0x1FF)
    \<and> OpenFlags_to_bitmask (Some f) = Some (flags AND 0x6C3)"
  using Permissions_bitmask_trip [OF assms(1)] OpenFlags_bitmask_trip [OF assms(2)] by simp

theorem mode_and_flags_round_trip_witness:
  "\<exists>p f h1 h2. Permissions_create 0x1A4 quiet_heap = (Some p, h1)
    \<and> OpenFlags_from_bitmask 0x8241 h1 = (Some f, h2)
    \<and> Permissions_to_bitmask (Some p) = Some 0x1A4 \<and> OpenFlags_to_bitmask (Some f) = Some 0x241"
proof -
  obtain p h1 where p: "Permissions_create 0x1A4 quiet_heap = (Some p, h1)" "outcomes h1 = []"
    by (simp add: Permissions_create_def quiet_heap_def heap_simps)
  obtain f h2 where f: "OpenFlags_from_bitmask 0x8241 h1 = (Some f, h2)"
    using p(2) by (simp add: OpenFlags_from_bitmask_def heap_simps)
  show ?thesis using p(1) f mode_and_flags_round_trip [OF p(1) f] by simp
qed

end
