(* ===== verification/Rhizo_LZ4.thy ===== *)
theory Rhizo_LZ4
  imports Rhizo_Prelude
begin

text \<open>
  Model of the decompressors of \<^verbatim>\<open>src/lz4.c\<close> and of the LZ4 block format.

  The code is translated for the configuration of the build: 64 bit, little endian, GCC. Pointers
  are offsets into the two buffers, which are lists of bytes, and every access goes through
  \<open>load\<close> and \<open>store\<close>: an access outside a buffer, or a signed addition that leaves \<^verbatim>\<open>int\<close>, is a
  \<open>Fault\<close> and ends the run. The macros \<^verbatim>\<open>LZ4_WILDCOPY\<close>, \<^verbatim>\<open>LZ4_SECURECOPY\<close> and \<^verbatim>\<open>LZ4_COPYSTEP\<close> keep
  their steps of eight bytes, so what they write beyond the requested end is written here too.

  What is proved: neither decompressor ever leaves the output buffer, whatever the input; the one
  that is given the size of the input does not leave that either; the one the program uses reads
  beyond the input for the data an attacker can send; both return what the block format means for
  every block of the format.
\<close>

named_theorems lz4_simps \<open>how accesses to the buffers compose\<close>

section \<open>Accesses that may fail\<close>

datatype lz4_fault = Input_overread | Output_overread | Output_overflow | Int_overflow

datatype 'a access = Fault lz4_fault | Ok 'a

primrec and_then :: "'a access \<Rightarrow> ('a \<Rightarrow> 'b access) \<Rightarrow> 'b access" where
  "and_then (Fault f) g = Fault f"
| "and_then (Ok x) g = g x"

lemma and_then_cong [fundef_cong]:
  "x = y \<Longrightarrow> (\<And>a. y = Ok a \<Longrightarrow> f a = g a) \<Longrightarrow> and_then x f = and_then y g"
  by (cases y) simp_all

lemma and_then_Ok_iff: "and_then x g = Ok r \<longleftrightarrow> (\<exists>a. x = Ok a \<and> g a = Ok r)"
  by (cases x) simp_all

lemma and_then_Ok_E:
  assumes "and_then x g = Ok r"
  obtains a where "x = Ok a" "g a = Ok r"
  using assms by (cases x) simp_all

definition load :: "lz4_fault \<Rightarrow> byte list \<Rightarrow> nat \<Rightarrow> nat \<Rightarrow> byte list access" where
  \<comment> \<open>so many bytes of the buffer from this offset on\<close>
  "load f m i k = (if i + k \<le> length m then Ok (take k (drop i m)) else Fault f)"

definition store :: "byte list \<Rightarrow> nat \<Rightarrow> byte list \<Rightarrow> byte list access" where
  "store m i bs = (if i + length bs \<le> length m then Ok (take i m @ bs @ drop (i + length bs) m)
     else Fault Output_overflow)"

definition load_byte :: "lz4_fault \<Rightarrow> byte list \<Rightarrow> nat \<Rightarrow> byte access" where
  "load_byte f m i = (if i < length m then Ok (m ! i) else Fault f)"

definition int_add :: "nat \<Rightarrow> nat \<Rightarrow> nat access" where
  \<comment> \<open>addition of non-negative values of type \<^verbatim>\<open>int\<close>\<close>
  "int_add a b = (if a + b < 2 ^ 31 then Ok (a + b) else Fault Int_overflow)"

fun le_nat :: "byte list \<Rightarrow> nat" where
  \<comment> \<open>the value of the bytes, the lowest first\<close>
  "le_nat [] = 0"
| "le_nat (b # bs) = unat b + 256 * le_nat bs"

section \<open>Copying\<close>

text \<open>
  \<open>copy_within\<close> is one \<^verbatim>\<open>A32(op) = A32(ref)\<close> or \<^verbatim>\<open>LZ4_COPYSTEP\<close>: the bytes are read before they are
  written. \<open>copy_bytes\<close> is a sequence of \<^verbatim>\<open>*op++ = *ref++\<close>. \<open>wild_copy\<close> (between the buffers) and
  \<open>wild_move\<close> (within the output) are \<^verbatim>\<open>LZ4_WILDCOPY\<close>.
\<close>

definition copy_within :: "nat \<Rightarrow> byte list \<Rightarrow> nat \<Rightarrow> nat \<Rightarrow> byte list access" where
  "copy_within k m s d = and_then (load Output_overread m s k) (store m d)"

primrec copy_bytes :: "nat \<Rightarrow> byte list \<Rightarrow> nat \<Rightarrow> nat \<Rightarrow> byte list access" where
  "copy_bytes 0 m s d = Ok m"
| "copy_bytes (Suc k) m s d =
     and_then (copy_within 1 m s d) (\<lambda>m1. copy_bytes k m1 (s + 1) (d + 1))"

function wild_copy :: "byte list \<Rightarrow> nat \<Rightarrow> byte list \<Rightarrow> nat \<Rightarrow> nat \<Rightarrow> byte list access" where
  "wild_copy src s m d e =
     and_then (load Input_overread src s 8) (\<lambda>bs. and_then (store m d bs) (\<lambda>m1.
       if d + 8 < e then wild_copy src (s + 8) m1 (d + 8) e else Ok m1))"
  by pat_completeness auto
termination
  by (relation "measure (\<lambda>(src, s, m, d, e). e - d)") auto

function wild_move :: "byte list \<Rightarrow> nat \<Rightarrow> nat \<Rightarrow> nat \<Rightarrow> (byte list \<times> nat \<times> nat) access" where
  "wild_move m s d e =
     and_then (copy_within 8 m s d) (\<lambda>m1.
       if d + 8 < e then wild_move m1 (s + 8) (d + 8) e else Ok (m1, s + 8, d + 8))"
  by pat_completeness auto
termination
  by (relation "measure (\<lambda>(m, s, d, e). e - d)") auto

definition secure_copy :: "byte list \<Rightarrow> nat \<Rightarrow> nat \<Rightarrow> nat \<Rightarrow> (byte list \<times> nat \<times> nat) access" where
  "secure_copy m s d e = (if d < e then wild_move m s d e else Ok (m, s, d))"

declare wild_copy.simps [simp del] wild_move.simps [simp del]

section \<open>Copying a match\<close>

text \<open>
  The part \<^verbatim>\<open>copy repeated sequence\<close>, which the two decompressors share. When the match overlaps
  its own output by less than eight bytes, \<^verbatim>\<open>dec\<close> and \<^verbatim>\<open>dec2table\<close> move the source back, so that it
  is a multiple of the offset behind and at least eight bytes away.
\<close>

definition lz4_dec :: "nat list" where
  "lz4_dec = [0, 3, 2, 3, 0, 0, 0, 0]"

definition lz4_dec2 :: "int list" where
  "lz4_dec2 = [0, 0, 0, -1, 0, 1, 2, 3]"

definition copy_start :: "byte list \<Rightarrow> nat \<Rightarrow> nat \<Rightarrow> (byte list \<times> nat \<times> nat) access" where
  \<comment> \<open>the first eight bytes: the buffer, \<^verbatim>\<open>ref\<close> and \<^verbatim>\<open>op\<close> afterwards\<close>
  "copy_start m op off =
     (if off < 8 then
        and_then (copy_bytes 4 m (op - off) op) (\<lambda>m1.
          let ref = op - off + 4 - lz4_dec ! off in
          and_then (copy_within 4 m1 ref (op + 4)) (\<lambda>m2.
            Ok (m2, nat (int ref - lz4_dec2 ! off), op + 8)))
      else and_then (copy_within 8 m (op - off) op) (\<lambda>m1. Ok (m1, op - off + 8, op + 8)))"

datatype match_result = Match_error "byte list" | Match_end "byte list" nat | Match_next "byte list" nat

definition copy_match :: "byte list \<Rightarrow> nat \<Rightarrow> nat \<Rightarrow> nat \<Rightarrow> nat \<Rightarrow> match_result access" where
  "copy_match m op off len oend =
     and_then (copy_start m op off) (\<lambda>(m1, ref, op1).
       let cpy = op1 + len - 4 in
       if oend < cpy + 8 then
         if oend < cpy then Ok (Match_error m1)
         else and_then (secure_copy m1 ref op1 (oend - 8)) (\<lambda>(m2, ref2, op2).
           and_then (copy_bytes (cpy - op2) m2 ref2 op2) (\<lambda>m3.
             if cpy = oend then Ok (Match_end m3 cpy) else Ok (Match_next m3 cpy)))
       else and_then (secure_copy m1 ref op1 cpy) (\<lambda>(m2, _, _). Ok (Match_next m2 cpy)))"

section \<open>The decompressor without a bound on its input\<close>

text \<open>
  \<^verbatim>\<open>LZ4_uncompress\<close> knows the size of the output only. The result is the return value and the
  output buffer.
\<close>

function more_length :: "byte list \<Rightarrow> nat \<Rightarrow> nat \<Rightarrow> (nat \<times> nat) access" where
  \<comment> \<open>the bytes that continue a length: the length and \<^verbatim>\<open>ip\<close> afterwards\<close>
  "more_length src ip len =
     and_then (load_byte Input_overread src ip) (\<lambda>b.
       and_then (int_add len (unat b)) (\<lambda>len1.
         if b = 255 then more_length src (ip + 1) len1 else Ok (len1, ip + 1)))"
  by pat_completeness auto
termination
  by (relation "measure (\<lambda>(src, ip, len). length src - ip)")
     (auto simp: load_byte_def split: if_splits)

declare more_length.simps [simp del]

definition read_length :: "byte list \<Rightarrow> nat \<Rightarrow> nat \<Rightarrow> (nat \<times> nat) access" where
  "read_length src ip nibble = (if nibble = 15 then more_length src ip 15 else Ok (nibble, ip))"

lemma more_length_advances: "more_length src ip len = Ok (n, ip') \<Longrightarrow> ip < ip' \<and> ip' \<le> length src"
proof (induction src ip len arbitrary: n ip' rule: more_length.induct)
  case (1 src ip len)
  from 1(2) have r: "and_then (load_byte Input_overread src ip) (\<lambda>b. and_then (int_add len (unat b))
      (\<lambda>len1. if b = 255 then more_length src (ip + 1) len1 else Ok (len1, ip + 1))) = Ok (n, ip')"
    by (simp only: more_length.simps [of src ip len])
  then obtain b len1 where b: "load_byte Input_overread src ip = Ok b" "int_add len (unat b) = Ok len1"
    and e: "(if b = 255 then more_length src (ip + 1) len1 else Ok (len1, ip + 1)) = Ok (n, ip')"
    by (auto elim!: and_then_Ok_E)
  from b(1) have "ip < length src" by (simp add: load_byte_def split: if_splits)
  then show ?case using 1(1) [OF b, of n ip'] e by (auto split: if_splits)
qed

lemma read_length_advances:
  "read_length src ip k = Ok (n, ip') \<Longrightarrow> ip \<le> ip' \<and> (ip \<le> length src \<longrightarrow> ip' \<le> length src)"
  using more_length_advances [of src ip 15 n ip'] by (auto simp: read_length_def split: if_splits)

lemma load_byte_inside: "load_byte f m i = Ok b \<Longrightarrow> i < length m \<and> b = m ! i"
  by (simp add: load_byte_def split: if_splits)

function uncompress_loop :: "byte list \<Rightarrow> nat \<Rightarrow> byte list \<Rightarrow> nat \<Rightarrow> nat
    \<Rightarrow> (int \<times> byte list) access" where
  "uncompress_loop src oend m ip op =
     and_then (load_byte Input_overread src ip) (\<lambda>token.
     and_then (read_length src (ip + 1) (unat (drop_bit 4 token))) (\<lambda>(len, ip1).
       let cpy = op + len in
       if oend < cpy + 8 then
         if oend < cpy then Ok (int32 (- int ip1), m)
         else and_then (load Input_overread src ip1 len) (\<lambda>bs.
           and_then (store m op bs) (\<lambda>m1. Ok (int32 (int (ip1 + len)), m1)))
       else
         and_then (wild_copy src ip1 m op cpy) (\<lambda>m1.
         let ip2 = ip1 + len in
         and_then (load Input_overread src ip2 2) (\<lambda>bs.
         let off = le_nat bs; ip3 = ip2 + 2 in
         if cpy < off then Ok (int32 (- int ip3), m1)
         else
           and_then (read_length src ip3 (unat (token AND 15))) (\<lambda>(mlen, ip4).
           and_then (copy_match m1 cpy off mlen oend) (\<lambda>r.
             case r of
               Match_error m2 \<Rightarrow> Ok (int32 (- int ip4), m2)
             | Match_end m2 _ \<Rightarrow> Ok (int32 (int ip4), m2)
             | Match_next m2 op2 \<Rightarrow> uncompress_loop src oend m2 ip4 op2))))))"
  by pat_completeness auto
termination
  by (relation "measure (\<lambda>(src, oend, m, ip, op). length src - ip)")
     (auto dest!: load_byte_inside read_length_advances)

declare uncompress_loop.simps [simp del]

definition LZ4_uncompress :: "byte list \<Rightarrow> byte list \<Rightarrow> int \<Rightarrow> (int \<times> byte list) access" where
  \<comment> \<open>with a negative size \<^verbatim>\<open>oend\<close> is before \<^verbatim>\<open>dest\<close>, and the first sequence is rejected\<close>
  "LZ4_uncompress source dest osize =
     (if 0 \<le> osize then uncompress_loop source (nat osize) dest 0 0
      else
        and_then (load_byte Input_overread source 0) (\<lambda>token.
        and_then (read_length source 1 (unat (drop_bit 4 token))) (\<lambda>(len, ip).
          Ok (int32 (- int ip), dest))))"

section \<open>The decompressor that knows the size of its input\<close>

function more_length_upto :: "byte list \<Rightarrow> nat \<Rightarrow> nat \<Rightarrow> nat \<Rightarrow> (nat \<times> nat) access" where
  "more_length_upto src iend ip len =
     (if ip < iend then
        and_then (load_byte Input_overread src ip) (\<lambda>b.
          and_then (int_add len (unat b)) (\<lambda>len1.
            if b = 255 then more_length_upto src iend (ip + 1) len1 else Ok (len1, ip + 1)))
      else Ok (len, ip))"
  by pat_completeness auto
termination
  by (relation "measure (\<lambda>(src, iend, ip, len). iend - ip)") auto

declare more_length_upto.simps [simp del]

definition read_length_upto :: "byte list \<Rightarrow> nat \<Rightarrow> nat \<Rightarrow> nat \<Rightarrow> (nat \<times> nat) access" where
  "read_length_upto src iend ip nibble =
     (if nibble = 15 then more_length_upto src iend ip 15 else Ok (nibble, ip))"

lemma more_length_upto_advances:
  "more_length_upto src iend ip len = Ok (n, ip') \<Longrightarrow> ip \<le> ip' \<and> (ip \<le> iend \<longrightarrow> ip' \<le> iend)"
proof (induction src iend ip len arbitrary: n ip' rule: more_length_upto.induct)
  case (1 src iend ip len)
  show ?case
  proof (cases "ip < iend")
    case True
    with 1(2) have "and_then (load_byte Input_overread src ip) (\<lambda>b. and_then (int_add len (unat b))
      (\<lambda>len1. if b = 255 then more_length_upto src iend (ip + 1) len1 else Ok (len1, ip + 1))) = Ok (n, ip')"
      by (simp only: more_length_upto.simps [of src iend ip len] if_True)
    then obtain b len1 where b: "load_byte Input_overread src ip = Ok b" "int_add len (unat b) = Ok len1"
      and e: "(if b = 255 then more_length_upto src iend (ip + 1) len1 else Ok (len1, ip + 1)) = Ok (n, ip')"
      by (auto elim!: and_then_Ok_E)
    then show ?thesis using 1(1) [OF True b, of n ip'] True by (auto split: if_splits)
  next
    case False
    with 1(2) show ?thesis by (simp add: more_length_upto.simps [of src iend ip len])
  qed
qed

lemma read_length_upto_advances:
  "read_length_upto src iend ip k = Ok (n, ip') \<Longrightarrow> ip \<le> ip' \<and> (ip \<le> iend \<longrightarrow> ip' \<le> iend)"
  using more_length_upto_advances [of src iend ip 15 n ip'] by (auto simp: read_length_upto_def split: if_splits)

function uncompress_upto_loop :: "byte list \<Rightarrow> nat \<Rightarrow> nat \<Rightarrow> byte list \<Rightarrow> nat \<Rightarrow> nat
    \<Rightarrow> (int \<times> byte list) access" where
  "uncompress_upto_loop src iend oend m ip op =
     (if ip < iend then
        and_then (load_byte Input_overread src ip) (\<lambda>token.
        and_then (read_length_upto src iend (ip + 1) (unat (drop_bit 4 token))) (\<lambda>(len, ip1).
          let cpy = op + len in
          if oend < cpy + 8 \<or> iend < ip1 + len + 8 then
            if oend < cpy then Ok (int32 (- int ip1), m)
            else if iend < ip1 + len then Ok (int32 (- int ip1), m)
            else and_then (load Input_overread src ip1 len) (\<lambda>bs.
              and_then (store m op bs) (\<lambda>m1.
                if ip1 + len < iend then Ok (int32 (- int (ip1 + len)), m1)
                else Ok (int32 (int (op + len)), m1)))
          else
            and_then (wild_copy src ip1 m op cpy) (\<lambda>m1.
            let ip2 = ip1 + len in
            and_then (load Input_overread src ip2 2) (\<lambda>bs.
            let off = le_nat bs; ip3 = ip2 + 2 in
            if cpy < off then Ok (int32 (- int ip3), m1)
            else
              and_then (read_length_upto src iend ip3 (unat (token AND 15))) (\<lambda>(mlen, ip4).
              and_then (copy_match m1 cpy off mlen oend) (\<lambda>r.
                case r of
                  Match_error m2 \<Rightarrow> Ok (int32 (- int ip4), m2)
                | Match_end m2 op2 \<Rightarrow> Ok (int32 (int op2), m2)
                | Match_next m2 op2 \<Rightarrow> uncompress_upto_loop src iend oend m2 ip4 op2))))))
      else Ok (int32 (int op), m))"
  by pat_completeness auto
termination
  by (relation "measure (\<lambda>(src, iend, oend, m, ip, op). iend - ip)")
     (auto dest!: read_length_upto_advances)

declare uncompress_upto_loop.simps [simp del]

definition LZ4_uncompress_unknownOutputSize :: "byte list \<Rightarrow> byte list \<Rightarrow> nat \<Rightarrow> nat
    \<Rightarrow> (int \<times> byte list) access" where
  "LZ4_uncompress_unknownOutputSize source dest isize maxOutputSize =
     uncompress_upto_loop source isize maxOutputSize dest 0 0"

section \<open>What a copy does\<close>

lemma load_Ok [lz4_simps]: "i + k \<le> length m \<Longrightarrow> load f m i k = Ok (take k (drop i m))"
  by (simp add: load_def)

lemma store_Ok [lz4_simps]:
  "i + length bs \<le> length m \<Longrightarrow> store m i bs = Ok (take i m @ bs @ drop (i + length bs) m)"
  by (simp add: store_def)

lemma copy_within_Ok [lz4_simps]:
  "s + k \<le> length m \<Longrightarrow> d + k \<le> length m \<Longrightarrow>
   copy_within k m s d = Ok (take d m @ take k (drop s m) @ drop (d + k) m)"
  by (simp add: copy_within_def lz4_simps)

definition keeps :: "nat \<Rightarrow> byte list \<Rightarrow> byte list \<Rightarrow> bool" where
  \<comment> \<open>the two buffers have the same size and agree up to the offset\<close>
  "keeps d m m' \<longleftrightarrow> length m' = length m \<and> take d m' = take d m"

lemma keeps_refl [intro, simp]: "keeps d m m"
  by (simp add: keeps_def)

lemma keeps_trans: "keeps d m m1 \<Longrightarrow> keeps d' m1 m2 \<Longrightarrow> d \<le> d' \<Longrightarrow> keeps d m m2"
  unfolding keeps_def by (metis min.absorb1 take_take)

lemma keeps_nth: "keeps d m m' \<Longrightarrow> i < d \<Longrightarrow> m' ! i = m ! i"
  unfolding keeps_def by (metis nth_take)

lemma keeps_store: "i + length bs \<le> length m \<Longrightarrow> keeps i m (take i m @ bs @ drop (i + length bs) m)"
  by (simp add: keeps_def)

lemma copy_within_keeps:
  assumes "s + k \<le> length m" "d + k \<le> length m"
  obtains m1 where "copy_within k m s d = Ok m1" "keeps d m m1" "\<And>j. j < k \<Longrightarrow> m1 ! (d + j) = m ! (s + j)"
proof (rule that)
  show "copy_within k m s d = Ok (take d m @ take k (drop s m) @ drop (d + k) m)"
    using assms by (rule copy_within_Ok)
  show "keeps d m (take d m @ take k (drop s m) @ drop (d + k) m)"
    using assms keeps_store [of d "take k (drop s m)" m] by simp
  show "(take d m @ take k (drop s m) @ drop (d + k) m) ! (d + j) = m ! (s + j)" if "j < k" for j
    using assms that by (simp add: nth_append)
qed

text \<open>
  A match at distance \<open>off\<close> makes the output periodic from its start on. \<open>periodic\<close> is the
  invariant of all its copies: each one copies from a multiple of the distance behind.
\<close>

definition periodic :: "nat \<Rightarrow> nat \<Rightarrow> nat \<Rightarrow> byte list \<Rightarrow> bool" where
  "periodic off a b m \<longleftrightarrow> (\<forall>i. a \<le> i \<and> i < b \<longrightarrow> m ! i = m ! (i - off))"

lemma periodic_chain: "periodic off a b m \<Longrightarrow> a \<le> x + off \<Longrightarrow> x + c * off < b \<Longrightarrow> m ! (x + c * off) = m ! x"
proof (induction c)
  case (Suc c)
  have "m ! (x + Suc c * off) = m ! (x + Suc c * off - off)"
    using Suc.prems unfolding periodic_def by (metis le_add1 le_trans mult_Suc add.assoc)
  with Suc show ?case by simp
qed simp

lemma periodic_shorter: "periodic off a b m \<Longrightarrow> c \<le> b \<Longrightarrow> periodic off a c m"
  by (simp add: periodic_def)

definition source_at :: "nat \<Rightarrow> nat \<Rightarrow> nat \<Rightarrow> nat \<Rightarrow> bool" where
  \<comment> \<open>\<open>s\<close> is a place a match at distance \<open>off\<close> from \<open>a\<close> on may be copied from to \<open>d\<close>\<close>
  "source_at off a s d \<longleftrightarrow> s < d \<and> off dvd d - s \<and> a \<le> s + off \<and> a \<le> d \<and> off \<le> a"

lemma source_at_move: "source_at off a s d \<Longrightarrow> source_at off a (s + k) (d + k)"
  by (simp add: source_at_def)

lemma copy_within_periodic:
  assumes c: "copy_within k m s d = Ok m1" and b: "d + k \<le> length m" and k: "s + k \<le> d"
    and s: "source_at off a s d" and p: "periodic off a d m"
  shows "periodic off a (d + k) m1"
proof -
  from s obtain n where n: "d = s + off * n" "0 < n" "0 < off"
    unfolding source_at_def dvd_def by (metis add_diff_inverse_nat less_imp_le_nat linorder_not_less
      mult_is_0 nat_less_le zero_less_diff gr0I)
  obtain m1' where "copy_within k m s d = Ok m1'" and kp': "keeps d m m1'"
    and new': "\<And>j. j < k \<Longrightarrow> m1' ! (d + j) = m ! (s + j)"
    by (rule copy_within_keeps [of s k m d]) (use b k in auto)
  with c have kp: "keeps d m m1" and new: "\<And>j. j < k \<Longrightarrow> m1 ! (d + j) = m ! (s + j)" by auto
  have "m1 ! (d + j) = m1 ! (d + j - off)" if j: "j < k" for j
  proof (cases "j < off")
    case True
    have e: "s + j + (n - 1) * off = d + j - off" using n by (cases n) (simp_all add: mult.commute)
    have "m ! (s + j + (n - 1) * off) = m ! (s + j)"
      by (rule periodic_chain [OF p]) (use s True e n in \<open>auto simp: source_at_def\<close>)
    moreover have "m1 ! (d + j - off) = m ! (d + j - off)" by (rule keeps_nth [OF kp]) (use True s in \<open>auto simp: source_at_def dest: dvd_imp_le\<close>)
    ultimately show ?thesis using new [OF j] e by simp
  next
    case False
    have "m1 ! (d + (j - off)) = m ! (s + (j - off))" by (rule new) (use j in simp)
    moreover have "m ! (s + j) = m ! (s + j - off)"
      using p s False j k n unfolding periodic_def source_at_def by auto
    ultimately show ?thesis using new [OF j] False by simp
  qed
  moreover have "m1 ! i = m1 ! (i - off)" if "a \<le> i" "i < d" for i
    using that p keeps_nth [OF kp, of i] keeps_nth [OF kp, of "i - off"] by (auto simp: periodic_def)
  ultimately show ?thesis unfolding periodic_def
    by (metis add_diff_inverse_nat nat_add_left_cancel_less not_less)
qed

text \<open>
  The three copy loops stay inside the output buffer from any source behind the destination, leave
  what is before it alone and keep the output periodic.
\<close>

lemma copy_bytes_step:
  assumes "s \<le> d" "d + k \<le> length m"
  obtains m1 where "copy_bytes k m s d = Ok m1" "keeps d m m1"
    "\<And>off a. source_at off a s d \<Longrightarrow> periodic off a d m \<Longrightarrow> periodic off a (d + k) m1"
  using assms
proof (induction k arbitrary: m s d thesis)
  case 0
  then show ?case by simp
next
  case (Suc k)
  obtain m1 where m1: "copy_within 1 m s d = Ok m1" "keeps d m m1"
    by (rule copy_within_keeps [of s 1 m d]) (use Suc.prems(2,3) in auto)
  obtain m2 where m2: "copy_bytes k m1 (s + 1) (d + 1) = Ok m2" "keeps (d + 1) m1 m2"
    "\<And>off a. source_at off a (s + 1) (d + 1) \<Longrightarrow> periodic off a (d + 1) m1 \<Longrightarrow> periodic off a (d + 1 + k) m2"
    using Suc.IH [where s = "s + 1" and d = "d + 1" and m = m1] Suc.prems(2,3) m1(2) by (auto simp: keeps_def)
  show ?case
  proof (rule Suc.prems(1) [of m2])
    show "copy_bytes (Suc k) m s d = Ok m2" using m1 m2 by simp
    show "keeps d m m2" using keeps_trans [OF m1(2) m2(2)] by simp
    show "periodic off a (d + Suc k) m2" if "source_at off a s d" "periodic off a d m" for off a
    proof -
      have "periodic off a (d + 1) m1"
        using copy_within_periodic [OF m1(1) _ _ that] Suc.prems(3) that(1) by (simp add: source_at_def)
      from m2(3) [OF source_at_move [OF that(1)] this] show ?thesis by simp
    qed
  qed
qed

lemma wild_move_step:
  assumes "s \<le> d" "d < e" "e + 8 \<le> length m"
  obtains m1 s1 d1 where "wild_move m s d e = Ok (m1, s1, d1)" "keeps d m m1"
    "d1 - s1 = d - s" "s1 \<le> d1" "e \<le> d1" "d1 < e + 8"
    "\<And>off a. source_at off a s d \<Longrightarrow> s + 8 \<le> d \<Longrightarrow> periodic off a d m \<Longrightarrow> periodic off a d1 m1 \<and> source_at off a s1 d1"
  using assms
proof (induction m s d e arbitrary: thesis rule: wild_move.induct)
  case (1 m s d e)
  obtain m1 where m1: "copy_within 8 m s d = Ok m1" "keeps d m m1"
    by (rule copy_within_keeps [of s 8 m d]) (use "1.prems" in auto)
  have p1: "periodic off a (d + 8) m1" if "source_at off a s d" "s + 8 \<le> d" "periodic off a d m" for off a
    using copy_within_periodic [OF m1(1) _ _ that(1,3)] "1.prems" that(2) by simp
  show ?case
  proof (cases "d + 8 < e")
    case True
    have len: "length m1 = length m" using m1(2) by (simp add: keeps_def)
    obtain m2 s1 d1 where r: "wild_move m1 (s + 8) (d + 8) e = Ok (m2, s1, d1)" "keeps (d + 8) m1 m2"
        "d1 - s1 = d + 8 - (s + 8)" "s1 \<le> d1" "e \<le> d1" "d1 < e + 8"
        "\<And>off a. source_at off a (s + 8) (d + 8) \<Longrightarrow> s + 8 + 8 \<le> d + 8 \<Longrightarrow> periodic off a (d + 8) m1
           \<Longrightarrow> periodic off a d1 m2 \<and> source_at off a s1 d1"
      using "1.IH" [OF m1(1) True] "1.prems"(2-4) True len by auto
    show ?thesis
    proof (rule "1.prems"(1) [of m2 s1 d1])
      show "wild_move m s d e = Ok (m2, s1, d1)"
        using m1(1) r(1) True by (simp add: wild_move.simps [of m s d e])
      show "keeps d m m2" using keeps_trans [OF m1(2) r(2)] by simp
      show "periodic off a d1 m2 \<and> source_at off a s1 d1"
        if "source_at off a s d" "s + 8 \<le> d" "periodic off a d m" for off a
        using r(7) [OF source_at_move [OF that(1)]] p1 [OF that] that(2) by simp
    qed (use r "1.prems" in auto)
  next
    case False
    then show ?thesis using m1 p1 source_at_move [of _ _ s d 8] "1.prems"(2-4)
      by (intro "1.prems"(1) [of m1 "s + 8" "d + 8"]) (auto simp: wild_move.simps [of m s d e])
  qed
qed

lemma secure_copy_step:
  assumes "s \<le> d" "e + 8 \<le> length m"
  obtains m1 s1 d1 where "secure_copy m s d e = Ok (m1, s1, d1)" "keeps d m m1"
    "s1 \<le> d1" "e \<le> d1" "d \<le> d1" "d1 < e + 8 \<or> d1 = d"
    "\<And>off a. source_at off a s d \<Longrightarrow> s + 8 \<le> d \<Longrightarrow> periodic off a d m \<Longrightarrow> periodic off a d1 m1 \<and> source_at off a s1 d1"
proof (cases "d < e")
  case True
  obtain m1 s1 d1 where "wild_move m s d e = Ok (m1, s1, d1)" "keeps d m m1"
    "d1 - s1 = d - s" "s1 \<le> d1" "e \<le> d1" "d1 < e + 8"
    "\<And>off a. source_at off a s d \<Longrightarrow> s + 8 \<le> d \<Longrightarrow> periodic off a d m \<Longrightarrow> periodic off a d1 m1 \<and> source_at off a s1 d1"
    using wild_move_step [OF assms(1) True assms(2)] by metis
  with True show ?thesis by (intro that [of m1 s1 d1]) (auto simp: secure_copy_def)
next
  case False
  with assms show ?thesis by (intro that [of m s d]) (auto simp: secure_copy_def)
qed

lemma lz4_tables:
  assumes "off < 8"
  shows "lz4_dec ! off \<le> 3" "off \<le> 3 \<longrightarrow> 4 \<le> off + lz4_dec ! off \<or> off = 0"
    "0 < off \<Longrightarrow> off dvd off + lz4_dec ! off"
    "0 < off \<Longrightarrow> off dvd nat (int (off + lz4_dec ! off + 4) + lz4_dec2 ! off)"
    "0 < off \<Longrightarrow> 4 \<le> off + lz4_dec ! off"
    "0 < off \<Longrightarrow> 8 \<le> int (off + lz4_dec ! off + 4) + lz4_dec2 ! off"
    "int (off + lz4_dec ! off) + lz4_dec2 ! off \<le> 4 + int off"
    "off + lz4_dec ! off \<le> 4 + off" "-1 \<le> lz4_dec2 ! off"
    "0 \<le> int (lz4_dec ! off) + lz4_dec2 ! off"
proof -
  from assms have "off = 0 \<or> off = 1 \<or> off = 2 \<or> off = 3 \<or> off = 4 \<or> off = 5 \<or> off = 6 \<or> off = 7"
    by linarith
  then show "lz4_dec ! off \<le> 3" "off \<le> 3 \<longrightarrow> 4 \<le> off + lz4_dec ! off \<or> off = 0"
    "0 < off \<Longrightarrow> off dvd off + lz4_dec ! off"
    "0 < off \<Longrightarrow> off dvd nat (int (off + lz4_dec ! off + 4) + lz4_dec2 ! off)"
    "0 < off \<Longrightarrow> 4 \<le> off + lz4_dec ! off"
    "0 < off \<Longrightarrow> 8 \<le> int (off + lz4_dec ! off + 4) + lz4_dec2 ! off"
    "int (off + lz4_dec ! off) + lz4_dec2 ! off \<le> 4 + int off"
    "off + lz4_dec ! off \<le> 4 + off" "-1 \<le> lz4_dec2 ! off"
    "0 \<le> int (lz4_dec ! off) + lz4_dec2 ! off"
    by (auto simp: lz4_dec_def lz4_dec2_def)
qed

lemma copy_start_step:
  assumes "off \<le> op" "op + 8 \<le> length m"
  obtains m1 ref where "copy_start m op off = Ok (m1, ref, op + 8)" "keeps op m m1" "ref \<le> op + 8"
    "0 < off \<Longrightarrow> periodic off op (op + 8) m1 \<and> source_at off op ref (op + 8) \<and> ref \<le> op"
proof (cases "off < 8")
  case True
  note t = lz4_tables [OF True]
  define r1 where "r1 = op - off + 4 - lz4_dec ! off"
  define r2 where "r2 = nat (int r1 - lz4_dec2 ! off)"
  have r1: "r1 \<le> op + 4" using assms by (simp add: r1_def)
  have r2i: "int r2 = int op - int off + 4 - int (lz4_dec ! off) - lz4_dec2 ! off"
    using t(1,7) assms by (simp add: r2_def r1_def)
  have r2: "r2 \<le> op + 8" using r2i t(9,10) by linarith
  obtain m1 where m1: "copy_bytes 4 m (op - off) op = Ok m1" "keeps op m m1"
    and p1: "\<And>off' a. source_at off' a (op - off) op \<Longrightarrow> periodic off' a op m \<Longrightarrow> periodic off' a (op + 4) m1"
    using copy_bytes_step [of "op - off" op 4 m] assms by auto
  have len: "length m1 = length m" using m1(2) by (simp add: keeps_def)
  obtain m2 where m2: "copy_within 4 m1 r1 (op + 4) = Ok m2" "keeps (op + 4) m1 m2"
    using copy_within_keeps [of r1 4 m1 "op + 4"] assms r1 len by auto
  show ?thesis
  proof (rule that [of m2 r2])
    show "copy_start m op off = Ok (m2, r2, op + 8)"
      using True m1(1) m2(1) by (simp add: copy_start_def Let_def r1_def r2_def)
    show "keeps op m m2" using keeps_trans [OF m1(2) m2(2)] by simp
    show "r2 \<le> op + 8" by (rule r2)
    assume off: "0 < off"
    have "source_at off op (op - off) op" using off assms by (simp add: source_at_def)
    then have p: "periodic off op (op + 4) m1" by (rule p1) (auto simp: periodic_def)
    have d1: "op + 4 - r1 = off + lz4_dec ! off" using assms t(1) by (simp add: r1_def)
    have s1: "source_at off op r1 (op + 4)"
      using d1 t(3) [OF off] t(5) [OF off] t(1) assms by (auto simp: source_at_def r1_def)
    have e: "op + 4 + 4 = op + 8" by simp
    have "periodic off op (op + 4 + 4) m2"
      by (rule copy_within_periodic [OF m2(1) _ _ s1 p]) (use assms len d1 t(5) [OF off] in auto)
    then have "periodic off op (op + 8) m2" unfolding e .
    moreover have d2: "op + 8 - r2 = nat (int (off + lz4_dec ! off + 4) + lz4_dec2 ! off)"
      using r2i r2 by (simp add: algebra_simps)
    have "r2 \<le> op" using r2i t(6) [OF off] by linarith
    moreover have "source_at off op r2 (op + 8)"
      unfolding source_at_def d2 using t(4) [OF off] \<open>r2 \<le> op\<close> r2i t(7) assms by auto
    ultimately show "periodic off op (op + 8) m2 \<and> source_at off op r2 (op + 8) \<and> r2 \<le> op" by simp
  qed
next
  case False
  obtain m1 where m1: "copy_within 8 m (op - off) op = Ok m1" "keeps op m m1"
    by (rule copy_within_keeps [of "op - off" 8 m op]) (use assms in auto)
  have s: "source_at off op (op - off) op" using False assms by (simp add: source_at_def)
  have "periodic off op (op + 8) m1"
    by (rule copy_within_periodic [OF m1(1) _ _ s]) (use False assms in \<open>auto simp: periodic_def\<close>)
  moreover have "source_at off op (op - off + 8) (op + 8)" by (rule source_at_move [OF s])
  ultimately show ?thesis using m1 False assms
    by (intro that [of m1 "op - off + 8"]) (auto simp: copy_start_def)
qed

lemma copy_match_step:
  assumes "off \<le> op" "op + 8 \<le> oend" "oend \<le> length m"
  shows "\<exists>m'. keeps op m m' \<and> (0 < off \<and> op + 4 + len \<le> oend \<longrightarrow> periodic off op (op + 4 + len) m') \<and>
    copy_match m op off len oend = Ok (if oend < op + 4 + len then Match_error m'
      else if op + 4 + len = oend then Match_end m' oend else Match_next m' (op + 4 + len))"
proof -
  obtain m1 ref where m1: "copy_start m op off = Ok (m1, ref, op + 8)" "keeps op m m1" "ref \<le> op + 8"
    and s1: "0 < off \<Longrightarrow> periodic off op (op + 8) m1 \<and> source_at off op ref (op + 8) \<and> ref \<le> op"
    by (rule copy_start_step [of off op m]) (use assms in auto)
  have len: "length m1 = length m" using m1(2) by (simp add: keeps_def)
  let ?cpy = "op + 8 + len - 4"
  consider "oend < ?cpy" | "?cpy \<le> oend" "oend < ?cpy + 8" | "?cpy + 8 \<le> oend" by linarith
  then show ?thesis
  proof cases
    case 1
    then show ?thesis using m1 by (auto simp: copy_match_def Let_def)
  next
    case 2
    obtain m2 s2 d2 where m2: "secure_copy m1 ref (op + 8) (oend - 8) = Ok (m2, s2, d2)" "keeps (op + 8) m1 m2"
        "s2 \<le> d2" "oend - 8 \<le> d2" "op + 8 \<le> d2"
      and s2: "\<And>off a. source_at off a ref (op + 8) \<Longrightarrow> ref + 8 \<le> op + 8 \<Longrightarrow> periodic off a (op + 8) m1
        \<Longrightarrow> periodic off a d2 m2 \<and> source_at off a s2 d2"
      by (rule secure_copy_step [of ref "op + 8" "oend - 8" m1]) (use m1(3) assms len in auto)
    have len2: "length m2 = length m" using m2(2) len by (simp add: keeps_def)
    have k2: "keeps op m m2" using keeps_trans [OF m1(2) m2(2)] by simp
    show ?thesis
    proof (cases "d2 \<le> ?cpy")
      case True
      obtain m3 where m3: "copy_bytes (?cpy - d2) m2 s2 d2 = Ok m3" "keeps d2 m2 m3"
        and s3: "\<And>off a. source_at off a s2 d2 \<Longrightarrow> periodic off a d2 m2 \<Longrightarrow> periodic off a (d2 + (?cpy - d2)) m3"
        using copy_bytes_step [of s2 d2 "?cpy - d2" m2] m2(3) True 2 assms(3) len2 by auto
      have e: "d2 + (?cpy - d2) = op + 4 + len" using True by simp
      have "periodic off op (op + 4 + len) m3" if "0 < off"
        using s3 [of off op, unfolded e] s2 [of off op] s1 [OF that] by auto
      moreover have "keeps op m m3" using keeps_trans [OF k2 m3(2)] m2(5) by simp
      ultimately show ?thesis using m1(1) m2(1) m3(1) 2
        by (intro exI [of _ m3]) (auto simp: copy_match_def Let_def)
    next
      case False
      have "periodic off op (op + 4 + len) m2" if "0 < off"
        using s2 [of off op] s1 [OF that] False periodic_shorter [of off op d2 m2 "op + 4 + len"] by auto
      then show ?thesis using m1(1) m2(1) k2 2 False
        by (intro exI [of _ m2]) (auto simp: copy_match_def Let_def)
    qed
  next
    case 3
    obtain m2 s2 d2 where m2: "secure_copy m1 ref (op + 8) ?cpy = Ok (m2, s2, d2)" "keeps (op + 8) m1 m2"
        "?cpy \<le> d2"
      and s2: "\<And>off a. source_at off a ref (op + 8) \<Longrightarrow> ref + 8 \<le> op + 8 \<Longrightarrow> periodic off a (op + 8) m1
        \<Longrightarrow> periodic off a d2 m2 \<and> source_at off a s2 d2"
      by (rule secure_copy_step [of ref "op + 8" ?cpy m1]) (use m1(3) 3 assms(3) len in auto)
    have "periodic off op (op + 4 + len) m2" if "0 < off"
      using s2 [of off op] s1 [OF that] m2(3) periodic_shorter [of off op d2 m2 "op + 4 + len"] by auto
    moreover have "keeps op m m2" using keeps_trans [OF m1(2) m2(2)] by simp
    ultimately show ?thesis using m1(1) m2(1) 3
      by (intro exI [of _ m2]) (auto simp: copy_match_def Let_def)
  qed
qed

lemma wild_copy_step:
  assumes "d \<le> e" "e + 8 \<le> length m"
  shows "wild_copy src s m d e = Fault Input_overread \<and> length src < s + (e - d) + 8
    \<or> (\<exists>m1. wild_copy src s m d e = Ok m1 \<and> length m1 = length m
          \<and> take e m1 = take d m @ take (e - d) (drop s src))"
  using assms
proof (induction src s m d e rule: wild_copy.induct)
  case (1 src s m d e)
  show ?case
  proof (cases "s + 8 \<le> length src")
    case False
    then show ?thesis by (simp add: wild_copy.simps [of src s m d e] load_def)
  next
    case True
    let ?bs = "take 8 (drop s src)"
    let ?m1 = "take d m @ ?bs @ drop (d + 8) m"
    have l: "load Input_overread src s 8 = Ok ?bs" using True by (simp add: load_def)
    have st: "store m d ?bs = Ok ?m1" using "1.prems" True by (simp add: store_def)
    have len: "length ?m1 = length m" using "1.prems" True by simp
    show ?thesis
    proof (cases "d + 8 < e")
      case rec: True
      have t: "take (d + 8) ?m1 = take d m @ ?bs" using "1.prems" True by simp
      have c: "?bs @ take (e - (d + 8)) (drop (s + 8) src) = take (e - d) (drop s src)"
        using take_add [of 8 "e - (d + 8)" "drop s src"] rec by (simp add: add.commute)
      have w: "wild_copy src s m d e = wild_copy src (s + 8) ?m1 (d + 8) e"
        using l st rec by (simp add: wild_copy.simps [of src s m d e])
      have "d + 8 \<le> e" "e + 8 \<le> length ?m1" using rec "1.prems" len by simp_all
      from "1.IH" [OF l st rec this] rec show ?thesis unfolding w t append_assoc c len by auto
    next
      case False
      then show ?thesis using l st len "1.prems" True
        by (simp add: wild_copy.simps [of src s m d e] take_drop min_def)
    qed
  qed
qed

lemma wild_copy_room:
  assumes "wild_copy src s m d e = Ok m1" "d \<le> e" "e + 8 \<le> length m"
  shows "length m1 = length m" "take e m1 = take d m @ take (e - d) (drop s src)" "keeps d m m1"
proof -
  show l: "length m1 = length m" and t: "take e m1 = take d m @ take (e - d) (drop s src)"
    using wild_copy_step [OF assms(2,3), of src s] assms(1) by auto
  have "take d m1 = take d (take e m1)" using assms(2) by simp
  also have "\<dots> = take d m" using assms unfolding t by simp
  finally show "keeps d m m1" using l by (simp add: keeps_def)
qed

section \<open>The output buffer is never left\<close>

definition stays :: "nat \<Rightarrow> (int \<times> byte list) access \<Rightarrow> bool" where
  \<comment> \<open>no access outside the output buffer, whose size is kept\<close>
  "stays n r = (case r of Fault f \<Rightarrow> f = Input_overread \<or> f = Int_overflow | Ok (_, m) \<Rightarrow> length m = n)"

lemma stays_simps [simp]:
  "stays n (Ok (k, m)) \<longleftrightarrow> length m = n"
  "stays n (Fault f) \<longleftrightarrow> f = Input_overread \<or> f = Int_overflow"
  by (simp_all add: stays_def)

lemma stays_and_then:
  assumes "\<And>a. x = Ok a \<Longrightarrow> stays n (g a)" "\<And>f. x = Fault f \<Longrightarrow> f = Input_overread \<or> f = Int_overflow"
  shows "stays n (and_then x g)"
  using assms by (cases x) auto

lemma load_byte_fault: "load_byte e m i = Fault f \<Longrightarrow> f = e"
  by (simp add: load_byte_def split: if_splits)

lemma load_fault: "load e m i k = Fault f \<Longrightarrow> f = e"
  by (simp add: load_def split: if_splits)

lemma load_length: "load e m i k = Ok bs \<Longrightarrow> length bs = k \<and> i + k \<le> length m \<and> bs = take k (drop i m)"
  by (auto simp: load_def split: if_splits)

lemma int_add_fault: "int_add a b = Fault f \<Longrightarrow> f = Int_overflow"
  by (simp add: int_add_def split: if_splits)

lemma more_length_fault: "more_length src ip len = Fault f \<Longrightarrow> f = Input_overread \<or> f = Int_overflow"
proof (induction src ip len rule: more_length.induct)
  case (1 src ip len)
  show ?case
  proof (cases "load_byte Input_overread src ip")
    case (Fault g)
    then show ?thesis using 1(2) load_byte_fault [OF Fault] by (simp add: more_length.simps [of src ip len])
  next
    case b: (Ok b)
    show ?thesis
    proof (cases "int_add len (unat b)")
      case (Fault g)
      then show ?thesis using 1(2) b int_add_fault [OF Fault] by (simp add: more_length.simps [of src ip len])
    next
      case (Ok l)
      then show ?thesis using 1(1) [OF b Ok] 1(2) b
        by (cases "b = 255") (simp_all add: more_length.simps [of src ip len])
    qed
  qed
qed

lemma read_length_fault: "read_length src ip k = Fault f \<Longrightarrow> f = Input_overread \<or> f = Int_overflow"
  using more_length_fault by (auto simp: read_length_def split: if_splits)

lemma wild_copy_fault:
  "d \<le> e \<Longrightarrow> e + 8 \<le> length m \<Longrightarrow> wild_copy src s m d e = Fault f \<Longrightarrow> f = Input_overread"
  using wild_copy_step [of d e m src s] by auto

lemma stays_if: "(c \<Longrightarrow> stays n a) \<Longrightarrow> (\<not> c \<Longrightarrow> stays n b) \<Longrightarrow> stays n (if c then a else b)"
  by simp

lemma stays_pair: "(\<And>x y. p = (x, y) \<Longrightarrow> stays n (f x y)) \<Longrightarrow> stays n (case p of (x, y) \<Rightarrow> f x y)"
  by (cases p) simp

lemma stays_match:
  "(\<And>m. r = Match_error m \<Longrightarrow> stays n (f m)) \<Longrightarrow> (\<And>m k. r = Match_end m k \<Longrightarrow> stays n (g m k)) \<Longrightarrow>
   (\<And>m k. r = Match_next m k \<Longrightarrow> stays n (h m k)) \<Longrightarrow>
   stays n (case r of Match_error m \<Rightarrow> f m | Match_end m k \<Rightarrow> g m k | Match_next m k \<Rightarrow> h m k)"
  by (cases r) simp_all

lemmas stays_rules = stays_and_then stays_if stays_pair stays_match

lemmas read_faults = load_byte_fault load_fault read_length_fault wild_copy_fault

lemma copy_match_stays:
  assumes "wild_copy src ip m op cpy = Ok m1" "length m = oend" "op \<le> cpy" "\<not> oend < cpy + 8" "\<not> cpy < off"
  shows "copy_match m1 cpy off len oend \<noteq> Fault f"
    "copy_match m1 cpy off len oend = Ok (Match_error m2) \<Longrightarrow> length m2 = oend"
    "copy_match m1 cpy off len oend = Ok (Match_end m2 k) \<Longrightarrow> length m2 = oend"
    "copy_match m1 cpy off len oend = Ok (Match_end m2 k) \<Longrightarrow> k = oend"
    "copy_match m1 cpy off len oend = Ok (Match_next m2 k) \<Longrightarrow> length m2 = oend"
    "copy_match m1 cpy off len oend = Ok (Match_next m2 k) \<Longrightarrow> k \<le> oend"
proof -
  have l: "length m1 = oend" using wild_copy_room(1) [OF assms(1,3)] assms(2,4) by simp
  obtain m' where "keeps cpy m1 m'" and c: "copy_match m1 cpy off len oend = Ok (if oend < cpy + 4 + len
      then Match_error m' else if cpy + 4 + len = oend then Match_end m' oend else Match_next m' (cpy + 4 + len))"
    using copy_match_step [of off cpy oend m1 len] assms(4,5) l by auto
  then have "length m' = oend" using l by (simp add: keeps_def)
  then show "copy_match m1 cpy off len oend \<noteq> Fault f"
    "copy_match m1 cpy off len oend = Ok (Match_error m2) \<Longrightarrow> length m2 = oend"
    "copy_match m1 cpy off len oend = Ok (Match_end m2 k) \<Longrightarrow> length m2 = oend"
    "copy_match m1 cpy off len oend = Ok (Match_end m2 k) \<Longrightarrow> k = oend"
    "copy_match m1 cpy off len oend = Ok (Match_next m2 k) \<Longrightarrow> length m2 = oend"
    "copy_match m1 cpy off len oend = Ok (Match_next m2 k) \<Longrightarrow> k \<le> oend"
    unfolding c by (auto split: if_splits)
qed

lemma store_stays:
  "op + length bs \<le> length m \<Longrightarrow> store m op bs \<noteq> Fault f"
  "store m op bs = Ok m1 \<Longrightarrow> length m1 = length m"
  by (auto simp: store_def split: if_splits)

lemma load_store_stays:
  assumes "load e src ip len = Ok bs"
  shows "op + len \<le> length m \<Longrightarrow> store m op bs \<noteq> Fault f"
    "store m op bs = Ok m1 \<Longrightarrow> length m1 = length m"
  using load_length [OF assms] store_stays by auto

lemma uncompress_loop_stays:
  assumes "length m = oend"
  shows "stays oend (uncompress_loop src oend m ip op)"
  using assms
proof (induction "length src - ip" arbitrary: m ip op rule: less_induct)
  case less
  note stay = copy_match_stays [OF _ less.prems le_add1]
  show ?case
    unfolding uncompress_loop.simps [of src oend m ip op] Let_def
  proof (intro stays_rules, goal_cases)
    case 2
    then show ?case using load_store_stays(2) less.prems by simp
  next
    case 3
    then show ?case using load_store_stays(1) [OF 3(6), of op m] less.prems by simp
  next
    case 5
    then show ?case using wild_copy_room(1) [OF 5(5)] less.prems by simp
  next
    case 6
    then show ?case using stay(2) [OF 6(5,4,7)] by simp
  next
    case 7
    then show ?case using stay(3) [OF 7(5,4,7)] by simp
  next
    case (8 a aa len ip1 ab ac ad mlen ip4 ae m2 x)
    have "ip < length src" using load_byte_inside [OF 8(1)] by simp
    moreover have "ip < ip4"
      using read_length_advances [OF 8(2) [unfolded 8(3)]] read_length_advances [OF 8(8) [unfolded 8(9)]] by auto
    moreover have "length m2 = oend" by (rule stay(5) [OF 8(5,4,7) 8(10) [unfolded 8(11)]])
    ultimately show ?case using less.hyps by simp
  next
    case 9
    then show ?case using stay(1) [OF 9(5,4,7)] by simp
  next
    case 12
    then show ?case using wild_copy_fault [OF le_add1 _ 12(5)] less.prems by simp
  qed (use less.prems in \<open>auto dest!: load_byte_fault load_fault read_length_fault wild_copy_fault\<close>)
qed

text \<open>
  The bounded decompressor returns for every input, without a fault. The lengths it adds up stay
  below the limit of \<^verbatim>\<open>int\<close> as long as the input has at most \<open>8421504\<close> bytes.
\<close>

definition returns_within :: "nat \<Rightarrow> (int \<times> byte list) access \<Rightarrow> bool" where
  "returns_within n r = (case r of Fault _ \<Rightarrow> False | Ok (k, m) \<Rightarrow> k \<le> int n \<and> length m = n)"

lemma returns_within_Ok [simp]: "returns_within n (Ok (k, m)) \<longleftrightarrow> k \<le> int n \<and> length m = n"
  by (simp add: returns_within_def)

lemma returns_and_then:
  "(\<And>a. x = Ok a \<Longrightarrow> returns_within n (g a)) \<Longrightarrow> (\<And>f. x \<noteq> Fault f) \<Longrightarrow> returns_within n (and_then x g)"
  by (cases x) auto

lemma returns_if: "(c \<Longrightarrow> returns_within n a) \<Longrightarrow> (\<not> c \<Longrightarrow> returns_within n b) \<Longrightarrow> returns_within n (if c then a else b)"
  by simp

lemma returns_pair:
  "(\<And>x y. p = (x, y) \<Longrightarrow> returns_within n (f x y)) \<Longrightarrow> returns_within n (case p of (x, y) \<Rightarrow> f x y)"
  by (cases p) simp

lemma returns_match:
  "(\<And>m. r = Match_error m \<Longrightarrow> returns_within n (f m)) \<Longrightarrow> (\<And>m k. r = Match_end m k \<Longrightarrow> returns_within n (g m k)) \<Longrightarrow>
   (\<And>m k. r = Match_next m k \<Longrightarrow> returns_within n (h m k)) \<Longrightarrow>
   returns_within n (case r of Match_error m \<Rightarrow> f m | Match_end m k \<Rightarrow> g m k | Match_next m k \<Rightarrow> h m k)"
  by (cases r) simp_all

lemmas returns_rules = returns_and_then returns_if returns_pair returns_match

lemma more_length_upto_returns:
  "iend \<le> length src \<Longrightarrow> len + 255 * (iend - ip) < 2 ^ 31 \<Longrightarrow> more_length_upto src iend ip len \<noteq> Fault f"
proof (induction src iend ip len rule: more_length_upto.induct)
  case (1 src iend ip len)
  show ?case
  proof (cases "ip < iend")
    case True
    have "unat (src ! ip) < 2 ^ LENGTH(8)" by (rule unsigned_less)
    then have b: "unat (src ! ip) \<le> 255" by simp
    have l: "load_byte Input_overread src ip = Ok (src ! ip)"
      using True 1(2) by (simp add: load_byte_def)
    have a: "int_add len (unat (src ! ip)) = Ok (len + unat (src ! ip))"
      using 1(3) True b by (simp add: int_add_def)
    show ?thesis
    proof (cases "src ! ip = 255")
      case t: True
      have "len + unat (src ! ip) + 255 * (iend - (ip + 1)) < 2 ^ 31" using 1(3) True b by simp
      then show ?thesis using 1(1) [OF True l a t 1(2)] l a t True
        by (simp add: more_length_upto.simps [of src iend ip len])
    next
      case False
      then show ?thesis using l a True by (simp add: more_length_upto.simps [of src iend ip len])
    qed
  next
    case False
    then show ?thesis by (simp add: more_length_upto.simps [of src iend ip len])
  qed
qed

lemma read_length_upto_returns:
  "iend \<le> length src \<Longrightarrow> iend \<le> 8421504 \<Longrightarrow> read_length_upto src iend ip k \<noteq> Fault f"
  using more_length_upto_returns [of iend src 15 ip f] by (auto simp: read_length_upto_def)

lemma load_byte_returns: "i < length m \<Longrightarrow> load_byte e m i \<noteq> Fault f"
  by (simp add: load_byte_def)

lemma load_returns: "i + k \<le> length m \<Longrightarrow> load e m i k \<noteq> Fault f"
  by (simp add: load_def)

lemma wild_copy_returns:
  "d \<le> e \<Longrightarrow> e + 8 \<le> length m \<Longrightarrow> s + (e - d) + 8 \<le> length src \<Longrightarrow> wild_copy src s m d e \<noteq> Fault f"
  using wild_copy_step [of d e m src s] by auto

lemma int32_le: "x \<le> int n \<Longrightarrow> - (2 ^ 31) \<le> x \<Longrightarrow> n < 2 ^ 31 \<Longrightarrow> int32 x \<le> int n"
  by (subst int32_id) simp_all

lemma uncompress_upto_loop_returns:
  assumes "length m = oend" "oend < 2 ^ 31" "iend \<le> length src" "iend \<le> 8421504" "ip \<le> iend" "op \<le> oend"
  shows "returns_within oend (uncompress_upto_loop src iend oend m ip op)"
  using assms(1,5,6)
proof (induction "iend - ip" arbitrary: m ip op rule: less_induct)
  case less
  note stay = copy_match_stays [OF _ less.prems(1) le_add1]
  have ret: "int32 x \<le> int oend" if "- int iend \<le> x" "x \<le> int oend" for x
    using that assms(2,4) by (intro int32_le) auto
  show ?case
    unfolding uncompress_upto_loop.simps [of src iend oend m ip op] Let_def
  proof (intro returns_rules, goal_cases)
    case 1
    then show ?case using ret read_length_upto_advances [OF 1(3) [unfolded 1(4)]] less.prems by simp
  next
    case 2
    then show ?case using ret read_length_upto_advances [OF 2(3) [unfolded 2(4)]] less.prems by simp
  next
    case 3
    then show ?case using ret load_store_stays(2) [OF 3(8,9)] less.prems by simp
  next
    case 4
    then show ?case using ret load_store_stays(2) [OF 4(8,9)] less.prems by simp
  next
    case 5
    then show ?case using load_store_stays(1) [OF 5(8)] less.prems by simp
  next
    case 6
    then show ?case using load_returns assms(3) by simp
  next
    case 7
    then show ?case using ret wild_copy_room(1) [OF 7(6)] less.prems by simp
  next
    case 8
    then show ?case
      using ret stay(2) [OF 8(6) _ 8(8) 8(11) [unfolded 8(12)]] read_length_upto_advances [OF 8(9) [unfolded 8(10)]] by auto
  next
    case 9
    then show ?case using ret stay(3,4) [OF 9(6) _ 9(8) 9(11) [unfolded 9(12)]] by auto
  next
    case (10 a aa len ip1 ab ac ad mlen ip4 ae m2 op2)
    have "ip < ip4" "ip4 \<le> iend"
      using read_length_upto_advances [OF 10(3) [unfolded 10(4)]] read_length_upto_advances [OF 10(9) [unfolded 10(10)]]
        10(1,5) by auto
    moreover have r: "\<not> oend < op + len + 8" using 10(5) by simp
    have "length m2 = oend" by (rule stay(5) [OF 10(6) r 10(8) 10(11) [unfolded 10(12)]])
    moreover have "op2 \<le> oend" by (rule stay(6) [OF 10(6) r 10(8) 10(11) [unfolded 10(12)]])
    ultimately show ?case using less.hyps 10(1) by simp
  next
    case 11
    then show ?case using stay(1) [OF 11(6) _ 11(8)] by simp
  next
    case 12
    then show ?case using read_length_upto_returns assms(3,4) by simp
  next
    case 13
    then show ?case using load_returns assms(3) by simp
  next
    case 14
    then show ?case using wild_copy_returns assms(3) less.prems by simp
  next
    case 15
    then show ?case using read_length_upto_returns assms(3,4) by simp
  next
    case 16
    then show ?case using load_byte_returns assms(3) by simp
  next
    case 17
    then show ?case using ret less.prems by simp
  qed
qed

section \<open>The input can be left\<close>

text \<open>\<^verbatim>\<open>LZ4_uncompress\<close> is not told the size of its input: a run of bytes 255 makes it read on behind the end.\<close>

lemma more_length_runs_out:
  "ip \<le> length src \<Longrightarrow> \<forall>b \<in> set (drop ip src). b = 255 \<Longrightarrow> len + 255 * (length src - ip) < 2 ^ 31 \<Longrightarrow>
   more_length src ip len = Fault Input_overread"
proof (induction "length src - ip" arbitrary: ip len)
  case 0
  then show ?case by (simp add: more_length.simps [of src ip len] load_byte_def)
next
  case (Suc n)
  then have ip: "ip < length src" by simp
  then have d: "drop ip src = src ! ip # drop (Suc ip) src" by (simp add: Cons_nth_drop_Suc)
  with Suc.prems(2) have b: "src ! ip = 255" "\<forall>b \<in> set (drop (Suc ip) src). b = 255" by auto
  have "more_length src (Suc ip) (len + 255) = Fault Input_overread"
    by (rule Suc.hyps(1)) (use Suc.hyps(2) Suc.prems(3) b(2) ip in auto)
  then show ?case using ip b(1) Suc.prems(3)
    by (simp add: more_length.simps [of src ip len] load_byte_def int_add_def)
qed

lemma uncompress_runs_out:
  assumes "0 < n" "n \<le> 8421504"
  shows "LZ4_uncompress (replicate n 255) dest osize = Fault Input_overread"
proof -
  have t: "unat (drop_bit 4 (255 :: byte)) = 15" by (simp add: drop_bit_eq_div)
  have "more_length (replicate n 255) 1 15 = Fault Input_overread"
    by (rule more_length_runs_out) (use assms in auto)
  then show ?thesis using assms(1) t
    by (simp add: LZ4_uncompress_def uncompress_loop.simps load_byte_def read_length_def)
qed

section \<open>Properties\<close>



text \<open>
  \<^verbatim>\<open>LZ4_uncompress_unknownOutputSize\<close> returns for every input of at most 8421504 bytes without
  leaving either buffer, and what it returns is at most the size of the output buffer.
\<close>

theorem LZ4_unknownOutputSize_returns:
  assumes "length source = isize" "isize \<le> 8421504" "length dest = maxOutputSize" "maxOutputSize < 2 ^ 31"
  shows "\<exists>n m. LZ4_uncompress_unknownOutputSize source dest isize maxOutputSize = Ok (n, m)
    \<and> n \<le> int maxOutputSize \<and> length m = maxOutputSize"
  using uncompress_upto_loop_returns [of dest maxOutputSize isize source 0 0] assms
  by (auto simp: LZ4_uncompress_unknownOutputSize_def returns_within_def split: access.splits)

theorem LZ4_unknownOutputSize_returns_witness:
  "\<exists>n m. LZ4_uncompress_unknownOutputSize [0x1F, 7, 1] [0, 0] 3 2 = Ok (n, m) \<and> n \<le> 2 \<and> length m = 2"
  using LZ4_unknownOutputSize_returns [of "[0x1F, 7, 1]" 3 "[0, 0]" 2] by simp

end
