(* ===== verification/Rhizo_LZ4_Format.thy ===== *)
theory Rhizo_LZ4_Format
  imports Rhizo_LZ4
begin

text \<open>
  The LZ4 block format as an abstract specification, and the proof that the decompressors of
  \<^verbatim>\<open>src/lz4.c\<close> implement it. A block is a list of sequences, each of them literals followed by a
  match, and the literals of the last sequence. \<open>block_bytes\<close> is its encoding, \<open>block_data\<close> what it
  stands for: a match copies byte for byte from the data in front of it. The parsing restrictions
  of the format (\<open>seqs_ok\<close>) are what allows the decompressors to copy eight bytes at a time.
\<close>

section \<open>Blocks\<close>

datatype lz4_seq = Seq (seq_literals: "byte list") (seq_offset: nat) (seq_length: nat)

primrec copy_back :: "nat \<Rightarrow> nat \<Rightarrow> byte list \<Rightarrow> byte list" where
  "copy_back off 0 out = out"
| "copy_back off (Suc n) out = copy_back off n (out @ [out ! (length out - off)])"

fun apply_seq :: "lz4_seq \<Rightarrow> byte list \<Rightarrow> byte list" where
  "apply_seq (Seq l off n) out = copy_back off n (out @ l)"

definition expand :: "lz4_seq list \<Rightarrow> byte list \<Rightarrow> byte list" where
  "expand ss out = fold apply_seq ss out"

fun ext_bytes :: "nat \<Rightarrow> byte list" where
  "ext_bytes n = (if n < 255 then [word_of_nat n] else 255 # ext_bytes (n - 255))"

declare ext_bytes.simps [simp del]

definition ext_len :: "nat \<Rightarrow> byte list" where
  \<comment> \<open>the bytes of a length after its four bits in the token\<close>
  "ext_len n = (if n < 15 then [] else ext_bytes (n - 15))"

definition lz4_token :: "nat \<Rightarrow> nat \<Rightarrow> byte" where
  "lz4_token a b = word_of_nat (16 * min a 15 + min b 15)"

fun seq_bytes :: "lz4_seq \<Rightarrow> byte list" where
  "seq_bytes (Seq l off n) = lz4_token (length l) (n - 4) # ext_len (length l) @ l
     @ [word_of_nat off, word_of_nat (off div 256)] @ ext_len (n - 4)"

definition last_bytes :: "byte list \<Rightarrow> byte list" where
  "last_bytes l = lz4_token (length l) 0 # ext_len (length l) @ l"

definition block_bytes :: "lz4_seq list \<Rightarrow> byte list \<Rightarrow> byte list" where
  "block_bytes ss l = concat (map seq_bytes ss) @ last_bytes l"

definition block_data :: "lz4_seq list \<Rightarrow> byte list \<Rightarrow> byte list" where
  "block_data ss l = expand ss [] @ l"

fun seq_ok :: "nat \<Rightarrow> nat \<Rightarrow> lz4_seq \<Rightarrow> bool" where
  \<comment> \<open>a sequence for the output at this position of a block with that many bytes of data\<close>
  "seq_ok whole pos (Seq l off n) \<longleftrightarrow> 0 < off \<and> off < 65536 \<and> off \<le> pos + length l \<and> 4 \<le> n
     \<and> pos + length l + 12 \<le> whole \<and> pos + length l + n + 5 \<le> whole"

primrec seqs_ok :: "nat \<Rightarrow> nat \<Rightarrow> lz4_seq list \<Rightarrow> bool" where
  "seqs_ok whole pos [] = True"
| "seqs_ok whole pos (s # ss) \<longleftrightarrow>
     seq_ok whole pos s \<and> seqs_ok whole (pos + length (seq_literals s) + seq_length s) ss"

definition block_ok :: "lz4_seq list \<Rightarrow> byte list \<Rightarrow> bool" where
  "block_ok ss l \<longleftrightarrow> seqs_ok (length (block_data ss l)) 0 ss"

section \<open>Facts about blocks\<close>

lemma length_copy_back [simp]: "length (copy_back off n out) = length out + n"
  by (induction n arbitrary: out) simp_all

lemma expand_simps [simp]:
  "expand [] out = out" "expand (s # ss) out = expand ss (apply_seq s out)"
  "expand (ss @ [s]) out = apply_seq s (expand ss out)"
  by (simp_all add: expand_def)

lemma length_apply_seq: "length (apply_seq s out) = length out + length (seq_literals s) + seq_length s"
  by (cases s) simp

lemma seqs_ok_append:
  "seqs_ok whole pos (ss @ [s]) \<longleftrightarrow> seqs_ok whole pos ss
     \<and> seq_ok whole (foldl (\<lambda>p s. p + length (seq_literals s) + seq_length s) pos ss) s"
  by (induction ss arbitrary: pos) simp_all

lemma length_expand:
  "length (expand ss out) = foldl (\<lambda>p s. p + length (seq_literals s) + seq_length s) (length out) ss"
  by (induction ss arbitrary: out) (simp_all add: length_apply_seq)

lemma expand_room:
  "seqs_ok whole (length out) ss \<Longrightarrow> length out + 5 \<le> whole \<Longrightarrow> length (expand ss out) + 5 \<le> whole"
proof (induction ss arbitrary: out)
  case (Cons s ss)
  then show ?case by (cases s) (auto simp: add.assoc)
qed simp

lemma block_bytes_Cons: "block_bytes (s # ss) l = seq_bytes s @ block_bytes ss l"
  by (simp add: block_bytes_def)

lemma block_bytes_length: "length l < length (block_bytes ss l)"
  by (simp add: block_bytes_def last_bytes_def)

lemma copy_back_periodic:
  assumes "take (length out) m = out" "periodic off (length out) (length out + n) m"
    and "0 < off" "off \<le> length out" "length out + n \<le> length m"
  shows "take (length out + n) m = copy_back off n out"
  using assms
proof (induction n arbitrary: out)
  case (Suc n)
  let ?a = "length out"
  have "m ! ?a = m ! (?a - off)" using Suc.prems(2) by (simp add: periodic_def)
  moreover have "m ! (?a - off) = out ! (?a - off)"
    using Suc.prems(1,3,4) by (metis diff_less le_eq_less_or_eq le_trans linorder_not_le nth_take)
  ultimately have t: "take (length (out @ [out ! (?a - off)])) m = out @ [out ! (?a - off)]"
    using Suc.prems(1,5) by (simp add: take_Suc_conv_app_nth)
  have p: "periodic off (length (out @ [out ! (?a - off)])) (length (out @ [out ! (?a - off)]) + n) m"
    using Suc.prems(2) by (simp add: periodic_def)
  show ?case using Suc.IH [OF t p] Suc.prems(3-5) by simp
qed simp

section \<open>Reading lengths, tokens and offsets\<close>

lemma unat_byte: "n < 256 \<Longrightarrow> unat (word_of_nat n :: byte) = n"
  by (simp add: unat_of_nat)

lemma token_high: "unat (drop_bit 4 (lz4_token a b)) = min a 15"
proof -
  have "unat (drop_bit 4 (lz4_token a b)) = unat (lz4_token a b) div 16"
    by (simp only: unat_drop_bit_eq) (simp add: drop_bit_eq_div)
  also have "unat (lz4_token a b) = 16 * min a 15 + min b 15"
    unfolding lz4_token_def by (rule unat_byte) simp
  finally show ?thesis by simp
qed

lemma token_low: "unat (lz4_token a b AND 15) = min b 15"
proof -
  have "unat (lz4_token a b AND 15) = unat (lz4_token a b) mod 16"
  proof -
    have "lz4_token a b AND 15 = take_bit 4 (lz4_token a b)"
      by (simp add: take_bit_eq_mask mask_eq_exp_minus_1)
    then show ?thesis by (simp only: unsigned_take_bit_eq) (simp add: take_bit_eq_mod)
  qed
  also have "unat (lz4_token a b) = 16 * min a 15 + min b 15"
    unfolding lz4_token_def by (rule unat_byte) simp
  finally show ?thesis by simp
qed

lemma offset_bytes:
  assumes "off < 65536"
  shows "le_nat [word_of_nat off, word_of_nat (off div 256)] = off"
proof -
  have "unat (word_of_nat off :: byte) = off mod 256" by (simp add: unat_of_nat)
  moreover have "unat (word_of_nat (off div 256) :: byte) = off div 256"
    by (rule unat_byte) (use assms in simp)
  ultimately show ?thesis by simp
qed

lemma drop_Cons_at:
  assumes "drop i xs = y # ys"
  shows "i < length xs" "xs ! i = y" "drop (Suc i) xs = ys"
proof -
  show i: "i < length xs" using assms by (metis drop_eq_Nil leI list.distinct(1))
  show "xs ! i = y" "drop (Suc i) xs = ys" using Cons_nth_drop_Suc [OF i] assms by auto
qed

lemma drop_append_at:
  assumes "drop i xs = ys @ zs"
  shows "drop (i + length ys) xs = zs" "i + length ys \<le> length xs \<or> ys = []"
    "take (length ys) (drop i xs) = ys"
proof -
  show "drop (i + length ys) xs = zs" using assms by (metis add.commute append_eq_conv_conj drop_drop)
  show "take (length ys) (drop i xs) = ys" using assms by simp
  show "i + length ys \<le> length xs \<or> ys = []"
    using arg_cong [OF assms, of length] by (cases "i \<le> length xs") auto
qed

lemma more_length_ext:
  "drop ip src = ext_bytes n @ rest \<Longrightarrow> len + n < 2 ^ 31 \<Longrightarrow>
   more_length src ip len = Ok (len + n, ip + length (ext_bytes n))"
proof (induction n arbitrary: ip len rule: ext_bytes.induct)
  case (1 n)
  show ?case
  proof (cases "n < 255")
    case True
    then have e: "ext_bytes n = [word_of_nat n]" by (simp add: ext_bytes.simps)
    with 1(2) have d: "drop ip src = word_of_nat n # rest" by simp
    have "(word_of_nat n :: byte) \<noteq> 255" using True unat_byte [of n] by (auto dest: arg_cong [of _ _ unat])
    then show ?thesis using drop_Cons_at [OF d] True 1(3) e unat_byte [of n]
      by (simp add: more_length.simps [of src ip] load_byte_def int_add_def)
  next
    case False
    then have e: "ext_bytes n = 255 # ext_bytes (n - 255)" by (simp add: ext_bytes.simps [of n])
    with 1(2) have d: "drop ip src = 255 # ext_bytes (n - 255) @ rest" by simp
    have l: "len + 255 + (n - 255) < 2 ^ 31" using 1(3) False by simp
    have "more_length src (Suc ip) (len + 255) = Ok (len + 255 + (n - 255), Suc ip + length (ext_bytes (n - 255)))"
      by (rule 1(1) [OF False drop_Cons_at(3) [OF d] l])
    then show ?thesis using drop_Cons_at(1,2) [OF d] False 1(3) e
      by (simp add: more_length.simps [of src ip] load_byte_def int_add_def)
  qed
qed

lemma read_length_ext:
  "drop ip src = ext_len n @ rest \<Longrightarrow> n < 2 ^ 31 \<Longrightarrow>
   read_length src ip (min n 15) = Ok (n, ip + length (ext_len n))"
  using more_length_ext [of ip src "n - 15" rest 15] by (auto simp: read_length_def ext_len_def)

lemma more_length_upto_agrees:
  "more_length src ip len = Ok r \<Longrightarrow> more_length_upto src (length src) ip len = Ok r"
proof (induction src ip len arbitrary: r rule: more_length.induct)
  case (1 src ip len)
  from 1(2) obtain b l where b: "load_byte Input_overread src ip = Ok b" and l: "int_add len (unat b) = Ok l"
    and r: "(if b = 255 then more_length src (ip + 1) l else Ok (l, ip + 1)) = Ok r"
    by (auto simp: more_length.simps [of src ip len] elim!: and_then_Ok_E)
  show ?case
  proof (cases "b = 255")
    case True
    with r have "more_length src (ip + 1) l = Ok r" by simp
    from 1(1) [OF b l True this] b l True load_byte_inside [OF b] show ?thesis
      by (simp add: more_length_upto.simps [of src "length src" ip])
  next
    case False
    with r b l load_byte_inside [OF b] show ?thesis
      by (simp add: more_length_upto.simps [of src "length src" ip])
  qed
qed

lemma read_length_upto_agrees:
  "read_length src ip k = Ok r \<Longrightarrow> read_length_upto src (length src) ip k = Ok r"
  using more_length_upto_agrees by (auto simp: read_length_def read_length_upto_def split: if_splits)

section \<open>Decompressing a block\<close>

lemma sequence_step:
  assumes src: "drop ip src = seq_bytes (Seq l off n) @ rest" "6 \<le> length rest"
    and ok: "seq_ok oend (length out) (Seq l off n)" and oend: "length m = oend" "oend < 2 ^ 31"
    and out: "take (length out) m = out"
  obtains tok ip1 m1 bs ip4 m2 where
    "load_byte Input_overread src ip = Ok tok"
    "read_length src (ip + 1) (unat (drop_bit 4 tok)) = Ok (length l, ip1)"
    "\<not> oend < length out + length l + 8" "ip1 + length l + 8 \<le> length src"
    "wild_copy src ip1 m (length out) (length out + length l) = Ok m1"
    "load Input_overread src (ip1 + length l) 2 = Ok bs" "le_nat bs = off"
    "read_length src (ip1 + length l + 2) (unat (tok AND 15)) = Ok (n - 4, ip4)"
    "copy_match m1 (length out + length l) off (n - 4) oend = Ok (Match_next m2 (length out + length l + n))"
    "length m2 = oend" "take (length out + length l + n) m2 = copy_back off n (out @ l)"
    "drop ip4 src = rest"
proof -
  let ?tok = "lz4_token (length l) (n - 4)"
  let ?o = "[word_of_nat off, word_of_nat (off div 256)] :: byte list"
  let ?cpy = "length out + length l"
  define ip1 where "ip1 = ip + 1 + length (ext_len (length l))"
  define ip4 where "ip4 = ip1 + length l + 2 + length (ext_len (n - 4))"
  have d0: "drop ip src = ?tok # (ext_len (length l) @ l @ ?o @ ext_len (n - 4) @ rest)"
    using src(1) by simp
  have d1: "drop (ip + 1) src = ext_len (length l) @ l @ ?o @ ext_len (n - 4) @ rest"
    using drop_Cons_at(3) [OF d0] by simp
  have d2: "drop ip1 src = l @ ?o @ ext_len (n - 4) @ rest"
    using drop_append_at(1) [OF d1] by (simp add: ip1_def)
  have d3: "drop (ip1 + length l) src = ?o @ ext_len (n - 4) @ rest"
    by (rule drop_append_at(1) [OF d2])
  have d4: "drop (ip1 + length l + 2) src = ext_len (n - 4) @ rest"
    using drop_append_at(1) [OF d3] by simp
  have d5: "drop ip4 src = rest" using drop_append_at(1) [OF d4] by (simp add: ip4_def)
  have room: "ip1 + length l + 8 \<le> length src"
    using arg_cong [OF d3, of length] src(2) by simp
  have bounds: "?cpy + 12 \<le> oend" "?cpy + n + 5 \<le> oend" "4 \<le> n" "off \<le> ?cpy" "0 < off" "off < 65536"
    using ok by simp_all
  obtain m1 where m1: "wild_copy src ip1 m (length out) ?cpy = Ok m1"
    using wild_copy_step [of "length out" ?cpy m src ip1] bounds(1) oend room by auto
  have l1: "length m1 = oend" and t1: "take ?cpy m1 = out @ l"
    using wild_copy_room [OF m1] bounds(1) oend out d2 by simp_all
  have e: "?cpy + 4 + (n - 4) = ?cpy + n" using bounds by simp
  have "?cpy + n \<le> oend" "?cpy + n \<noteq> oend" using bounds by simp_all
  then obtain m2 where m2: "keeps ?cpy m1 m2" "periodic off ?cpy (?cpy + n) m2"
    and c: "copy_match m1 ?cpy off (n - 4) oend = Ok (Match_next m2 (?cpy + n))"
    using copy_match_step [of off ?cpy oend m1 "n - 4", unfolded e] bounds l1 by auto
  have l2: "length m2 = oend" using m2(1) l1 by (simp add: keeps_def)
  have "take (length (out @ l)) m2 = out @ l" using m2(1) t1 by (simp add: keeps_def)
  from copy_back_periodic [OF this, of off n] m2(2) bounds l2
  have t2: "take (?cpy + n) m2 = copy_back off n (out @ l)" by simp
  show thesis
  proof (rule that [of ?tok ip1 m1 ?o ip4 m2])
    show "load_byte Input_overread src ip = Ok ?tok" using drop_Cons_at [OF d0] by (simp add: load_byte_def)
    show "read_length src (ip + 1) (unat (drop_bit 4 ?tok)) = Ok (length l, ip1)"
      unfolding token_high ip1_def by (rule read_length_ext [OF d1]) (use bounds oend in simp)
    show "load Input_overread src (ip1 + length l) 2 = Ok ?o"
      using d3 room by (simp add: load_def)
    show "read_length src (ip1 + length l + 2) (unat (?tok AND 15)) = Ok (n - 4, ip4)"
      unfolding token_low ip4_def by (rule read_length_ext [OF d4]) (use bounds oend in simp)
    show "le_nat ?o = off" by (rule offset_bytes [OF bounds(6)])
  qed (use m1 c l2 t2 d5 bounds room in simp_all)
qed

lemma last_step:
  assumes src: "drop ip src = last_bytes l" and n: "length l < 2 ^ 31"
  obtains tok ip1 where
    "load_byte Input_overread src ip = Ok tok"
    "read_length src (ip + 1) (unat (drop_bit 4 tok)) = Ok (length l, ip1)"
    "load Input_overread src ip1 (length l) = Ok l" "ip1 + length l = length src"
proof (rule that [of "lz4_token (length l) 0" "ip + 1 + length (ext_len (length l))"])
  have d0: "drop ip src = lz4_token (length l) 0 # (ext_len (length l) @ l)" using src by (simp add: last_bytes_def)
  have d1: "drop (ip + 1) src = ext_len (length l) @ l" using drop_Cons_at(3) [OF d0] by simp
  have d2: "drop (ip + 1 + length (ext_len (length l))) src = l" by (rule drop_append_at(1) [OF d1])
  show "load_byte Input_overread src ip = Ok (lz4_token (length l) 0)"
    using drop_Cons_at [OF d0] by (simp add: load_byte_def)
  show "read_length src (ip + 1) (unat (drop_bit 4 (lz4_token (length l) 0)))
      = Ok (length l, ip + 1 + length (ext_len (length l)))"
    unfolding token_high by (rule read_length_ext [OF d1 n])
  show s: "ip + 1 + length (ext_len (length l)) + length l = length src"
    using arg_cong [OF d0, of length] drop_Cons_at(1) [OF d0] by simp
  show "load Input_overread src (ip + 1 + length (ext_len (length l))) (length l) = Ok l"
    using d2 s by (simp add: load_def)
qed

lemma uncompress_loop_block:
  assumes "seqs_ok oend (length out) ss" "length out + 5 \<le> oend \<or> ss = []"
    and "oend = length (expand ss out @ l)" "oend < 2 ^ 31" "length m = oend" "take (length out) m = out"
    and "drop ip src = block_bytes ss l"
  shows "uncompress_loop src oend m ip (length out) = Ok (int32 (int (length src)), expand ss out @ l)"
  using assms
proof (induction ss arbitrary: out m ip)
  case Nil
  from Nil.prems have src: "drop ip src = last_bytes l" and l: "length l < 2 ^ 31"
    by (simp_all add: block_bytes_def)
  obtain tok ip1 where s: "load_byte Input_overread src ip = Ok tok"
    "read_length src (ip + 1) (unat (drop_bit 4 tok)) = Ok (length l, ip1)"
    "load Input_overread src ip1 (length l) = Ok l" "ip1 + length l = length src"
    by (rule last_step [OF src l])
  have "store m (length out) l = Ok (out @ l)" using Nil.prems by (simp add: store_def)
  then show ?case using s(1-3) Nil.prems unfolding s(4) [symmetric]
    by (simp add: uncompress_loop.simps [of src] Let_def)
next
  case (Cons s ss)
  obtain ls off n where s: "s = Seq ls off n" by (cases s)
  let ?out = "copy_back off n (out @ ls)"
  have len: "length ?out = length out + length ls + n" by simp
  have ok: "seq_ok oend (length out) (Seq ls off n)" "seqs_ok oend (length ?out) ss"
    using Cons.prems(1) s by (simp_all add: add.assoc)
  have room: "length ?out + 5 \<le> oend" using ok(1) by simp
  have "5 \<le> length l" using expand_room [OF ok(2) room] Cons.prems(3) s by simp
  then have rest: "6 \<le> length (block_bytes ss l)" using block_bytes_length [of l ss] by simp
  have src: "drop ip src = seq_bytes (Seq ls off n) @ block_bytes ss l"
    using Cons.prems(7) s by (simp only: block_bytes_Cons)
  obtain tok ip1 m1 bs ip4 m2 where st:
    "load_byte Input_overread src ip = Ok tok"
    "read_length src (ip + 1) (unat (drop_bit 4 tok)) = Ok (length ls, ip1)"
    "\<not> oend < length out + length ls + 8" "ip1 + length ls + 8 \<le> length src"
    "wild_copy src ip1 m (length out) (length out + length ls) = Ok m1"
    "load Input_overread src (ip1 + length ls) 2 = Ok bs" "le_nat bs = off"
    "read_length src (ip1 + length ls + 2) (unat (tok AND 15)) = Ok (n - 4, ip4)"
    "copy_match m1 (length out + length ls) off (n - 4) oend = Ok (Match_next m2 (length out + length ls + n))"
    "length m2 = oend" "take (length out + length ls + n) m2 = ?out" "drop ip4 src = block_bytes ss l"
    by (rule sequence_step [OF src rest ok(1) Cons.prems(5,4,6)])
  have "uncompress_loop src oend m ip (length out) = uncompress_loop src oend m2 ip4 (length ?out)"
    using st ok(1) unfolding len by (simp add: uncompress_loop.simps [of src oend m] Let_def)
  also have "\<dots> = Ok (int32 (int (length src)), expand ss ?out @ l)"
    by (rule Cons.IH) (use ok(2) room Cons.prems(3,4) st(10-12) s in \<open>simp_all add: len\<close>)
  finally show ?case using s by simp
qed

lemma seq_ok_wider: "seq_ok n pos s \<Longrightarrow> n \<le> n' \<Longrightarrow> seq_ok n' pos s"
  by (cases s) auto

lemma uncompress_upto_loop_block:
  assumes "seqs_ok whole (length out) ss" "length out + 5 \<le> whole \<or> ss = []"
    and "whole = length (expand ss out @ l)" "whole \<le> oend" "oend < 2 ^ 31"
    and "length m = oend" "take (length out) m = out" "drop ip src = block_bytes ss l"
  shows "\<exists>m'. uncompress_upto_loop src (length src) oend m ip (length out) = Ok (int whole, m')
    \<and> length m' = oend \<and> take whole m' = expand ss out @ l"
  using assms
proof (induction ss arbitrary: out m ip)
  case Nil
  from Nil.prems have src: "drop ip src = last_bytes l" and l: "length l < 2 ^ 31"
    by (simp_all add: block_bytes_def)
  obtain tok ip1 where s: "load_byte Input_overread src ip = Ok tok"
    "read_length src (ip + 1) (unat (drop_bit 4 tok)) = Ok (length l, ip1)"
    "load Input_overread src ip1 (length l) = Ok l" "ip1 + length l = length src"
    by (rule last_step [OF src l])
  let ?m = "out @ l @ drop (length out + length l) m"
  have "store m (length out) l = Ok ?m" using Nil.prems by (simp add: store_def)
  moreover have "int32 (int whole) = int whole" using Nil.prems by (intro int32_id) auto
  ultimately have "uncompress_upto_loop src (length src) oend m ip (length out) = Ok (int whole, ?m)"
    using s(1,3) read_length_upto_agrees [OF s(2)] load_byte_inside [OF s(1)] Nil.prems
    unfolding s(4) [symmetric] by (simp add: uncompress_upto_loop.simps [of src] Let_def)
  then show ?case using Nil.prems by simp
next
  case (Cons s ss)
  obtain ls off n where s: "s = Seq ls off n" by (cases s)
  let ?out = "copy_back off n (out @ ls)"
  have len: "length ?out = length out + length ls + n" by simp
  have ok: "seq_ok whole (length out) (Seq ls off n)" "seqs_ok whole (length ?out) ss"
    using Cons.prems(1) s by (simp_all add: add.assoc)
  have ok': "seq_ok oend (length out) (Seq ls off n)" by (rule seq_ok_wider [OF ok(1) Cons.prems(4)])
  have room: "length ?out + 5 \<le> whole" using ok(1) by simp
  have "5 \<le> length l" using expand_room [OF ok(2) room] Cons.prems(3) s by simp
  then have rest: "6 \<le> length (block_bytes ss l)" using block_bytes_length [of l ss] by simp
  have src: "drop ip src = seq_bytes (Seq ls off n) @ block_bytes ss l"
    using Cons.prems(8) s by (simp only: block_bytes_Cons)
  obtain tok ip1 m1 bs ip4 m2 where st:
    "load_byte Input_overread src ip = Ok tok"
    "read_length src (ip + 1) (unat (drop_bit 4 tok)) = Ok (length ls, ip1)"
    "\<not> oend < length out + length ls + 8" "ip1 + length ls + 8 \<le> length src"
    "wild_copy src ip1 m (length out) (length out + length ls) = Ok m1"
    "load Input_overread src (ip1 + length ls) 2 = Ok bs" "le_nat bs = off"
    "read_length src (ip1 + length ls + 2) (unat (tok AND 15)) = Ok (n - 4, ip4)"
    "copy_match m1 (length out + length ls) off (n - 4) oend = Ok (Match_next m2 (length out + length ls + n))"
    "length m2 = oend" "take (length out + length ls + n) m2 = ?out" "drop ip4 src = block_bytes ss l"
    by (rule sequence_step [OF src rest ok' Cons.prems(6,5,7)])
  have "uncompress_upto_loop src (length src) oend m ip (length out)
      = uncompress_upto_loop src (length src) oend m2 ip4 (length ?out)"
    using st(1,3-7,9) read_length_upto_agrees [OF st(2)] read_length_upto_agrees [OF st(8)]
      load_byte_inside [OF st(1)] ok(1) unfolding len
    by (simp add: uncompress_upto_loop.simps [of src "length src" oend m] Let_def)
  moreover have "\<exists>m'. uncompress_upto_loop src (length src) oend m2 ip4 (length ?out) = Ok (int whole, m')
      \<and> length m' = oend \<and> take whole m' = expand ss ?out @ l"
    by (rule Cons.IH) (use ok(2) room Cons.prems(3-5) st(10-12) s in \<open>simp_all add: len\<close>)
  ultimately show ?case using s by simp
qed

section \<open>Properties\<close>

lemma block_start:
  assumes "block_ok ss l"
  shows "length ([] :: byte list) + 5 \<le> length (block_data ss l) \<or> ss = []"
proof (cases ss)
  case (Cons s ss')
  then show ?thesis using assms by (cases s) (auto simp: block_ok_def)
qed simp

lemma uncompress_block_lemma:
  assumes "block_ok ss l" "length (block_data ss l) < 2 ^ 31" "length dest = length (block_data ss l)"
  shows "LZ4_uncompress (block_bytes ss l) dest (int (length (block_data ss l)))
    = Ok (int32 (int (length (block_bytes ss l))), block_data ss l)"
  using uncompress_loop_block [of "length (block_data ss l)" "[]" ss l dest 0 "block_bytes ss l"]
    block_start [OF assms(1)] assms
  by (simp add: LZ4_uncompress_def block_ok_def block_data_def nat_int_add)

text \<open>
  C28: for every block of the format, \<^verbatim>\<open>LZ4_uncompress\<close> given the size of the data returns the number
  of bytes of the block and leaves exactly the data in the output buffer.
\<close>

theorem LZ4_uncompress_block:
  assumes "block_ok ss l" "length (block_data ss l) < 2 ^ 31" "length dest = length (block_data ss l)"
  shows "LZ4_uncompress (block_bytes ss l) dest (int (length (block_data ss l)))
    = Ok (int32 (int (length (block_bytes ss l))), block_data ss l)"
  by (rule uncompress_block_lemma [OF assms])

definition demo_block :: "lz4_seq list" where
  \<comment> \<open>one literal and a match that overlaps itself\<close>
  "demo_block = [Seq [7] 1 20]"

theorem LZ4_uncompress_block_witness:
  "LZ4_uncompress (block_bytes demo_block [1, 2, 3, 4, 5]) (replicate 26 0) 26
     = Ok (int32 (int (length (block_bytes demo_block [1, 2, 3, 4, 5]))), replicate 21 7 @ [1, 2, 3, 4, 5])"
proof -
  have d: "block_data demo_block [1, 2, 3, 4, 5] = replicate 21 7 @ [1, 2, 3, 4, 5]"
    by (simp add: block_data_def demo_block_def numeral_eq_Suc nth_append)
  have "block_ok demo_block [1, 2, 3, 4, 5]" by (simp add: block_ok_def d) (simp add: demo_block_def)
  from LZ4_uncompress_block [OF this, of "replicate 26 0"] show ?thesis by (simp add: d)
qed

text \<open>
  On every block of the format the two decompressors agree: the one that is told the size of
  the block and of a buffer that is large enough returns the size of the data and leaves it at the
  start of the buffer.
\<close>

theorem LZ4_decompressors_agree:
  assumes "block_ok ss l" "length (block_data ss l) \<le> n" "n < 2 ^ 31" "length dest = n"
    and "length dest1 = length (block_data ss l)"
  shows "\<exists>k m m1. LZ4_uncompress_unknownOutputSize (block_bytes ss l) dest (length (block_bytes ss l)) n = Ok (k, m)
    \<and> LZ4_uncompress (block_bytes ss l) dest1 k = Ok (int32 (int (length (block_bytes ss l))), m1)
    \<and> take (nat k) m = m1 \<and> m1 = block_data ss l"
proof -
  obtain m where "LZ4_uncompress_unknownOutputSize (block_bytes ss l) dest (length (block_bytes ss l)) n
      = Ok (int (length (block_data ss l)), m)" "take (length (block_data ss l)) m = block_data ss l"
    using uncompress_upto_loop_block [of "length (block_data ss l)" "[]" ss l n dest 0 "block_bytes ss l"]
      block_start [OF assms(1)] assms
    by (auto simp: LZ4_uncompress_unknownOutputSize_def block_ok_def block_data_def)
  moreover have "LZ4_uncompress (block_bytes ss l) dest1 (int (length (block_data ss l)))
      = Ok (int32 (int (length (block_bytes ss l))), block_data ss l)"
    by (rule uncompress_block_lemma) (use assms in auto)
  ultimately show ?thesis by auto
qed

theorem LZ4_decompressors_agree_witness:
  "\<exists>k m m1. LZ4_uncompress_unknownOutputSize (block_bytes demo_block [1, 2, 3, 4, 5]) (replicate 30 0)
      (length (block_bytes demo_block [1, 2, 3, 4, 5])) 30 = Ok (k, m)
    \<and> LZ4_uncompress (block_bytes demo_block [1, 2, 3, 4, 5]) (replicate 26 0) k
      = Ok (int32 (int (length (block_bytes demo_block [1, 2, 3, 4, 5]))), m1)
    \<and> take (nat k) m = m1 \<and> m1 = replicate 21 7 @ [1, 2, 3, 4, 5]"
proof -
  have d: "block_data demo_block [1, 2, 3, 4, 5] = replicate 21 7 @ [1, 2, 3, 4, 5]"
    by (simp add: block_data_def demo_block_def numeral_eq_Suc nth_append)
  have "block_ok demo_block [1, 2, 3, 4, 5]" by (simp add: block_ok_def d) (simp add: demo_block_def)
  from LZ4_decompressors_agree [OF this, of 30 "replicate 30 0" "replicate 26 0"] show ?thesis by (simp add: d)
qed

end
