(* ===== verification/Rhizo_LZ4_Compress.thy ===== *)
theory Rhizo_LZ4_Compress
  imports Rhizo_LZ4_Format
begin

text \<open>
  Model of the compressor of \<^verbatim>\<open>src/lz4.c\<close>, for the same configuration as the decompressors. The two
  functions \<^verbatim>\<open>LZ4_compressCtx\<close> and \<^verbatim>\<open>LZ4_compress64kCtx\<close> are the same text up to the size of the hash
  table, the type of its entries and the check of the distance, which are the record \<open>lz4_kind\<close>.
  The hash table, an array on the stack, is a function; \<open>hash_value_bound\<close> shows that its index is
  always inside the array.

  The compressor does nothing to keep its writes inside the output buffer: the size of the buffer
  has to be enough. What is proved: for a buffer of \<open>n + n div 255\<close> bytes (the program allocates
  \<open>n + n div 250\<close>) no access leaves a buffer, and what is returned is the encoding of a block of the
  format that stands for exactly the source.
\<close>

section \<open>Reading the source\<close>

definition A16 :: "byte list \<Rightarrow> nat \<Rightarrow> 16 word access" where
  "A16 m p = and_then (load Input_overread m p 2) (\<lambda>bs. Ok (word_of_nat (le_nat bs)))"

definition A32 :: "byte list \<Rightarrow> nat \<Rightarrow> 32 word access" where
  "A32 m p = and_then (load Input_overread m p 4) (\<lambda>bs. Ok (word_of_nat (le_nat bs)))"

definition A64 :: "byte list \<Rightarrow> nat \<Rightarrow> 64 word access" where
  "A64 m p = and_then (load Input_overread m p 8) (\<lambda>bs. Ok (word_of_nat (le_nat bs)))"

definition same_at :: "(byte list \<Rightarrow> nat \<Rightarrow> 'a access) \<Rightarrow> byte list \<Rightarrow> nat \<Rightarrow> nat \<Rightarrow> bool access" where
  \<comment> \<open>\<^verbatim>\<open>A32(ref) == A32(ip)\<close> and its like\<close>
  "same_at f m p q = and_then (f m p) (\<lambda>a. and_then (f m q) (\<lambda>b. Ok (a = b)))"

function ctz_from :: "nat \<Rightarrow> 64 word \<Rightarrow> nat" where
  "ctz_from i w = (if 64 \<le> i \<or> bit w i then i else ctz_from (i + 1) w)"
  by pat_completeness auto
termination
  by (relation "measure (\<lambda>(i, w). 64 - i)") auto

declare ctz_from.simps [simp del]

definition LZ4_NbCommonBytes :: "64 word \<Rightarrow> nat" where
  \<comment> \<open>\<^verbatim>\<open>__builtin_ctzll(val) >> 3\<close>\<close>
  "LZ4_NbCommonBytes val = ctz_from 0 val div 8"

record lz4_kind =
  hash_log :: nat
  entry_bits :: nat
  max_distance :: "nat option"

type_synonym lz4_table = "nat \<Rightarrow> nat"

definition hash_value :: "lz4_kind \<Rightarrow> byte list \<Rightarrow> nat \<Rightarrow> nat access" where
  "hash_value k src p = and_then (A32 src p) (\<lambda>v. Ok (unat (drop_bit (32 - hash_log k) (v * 2654435761))))"

definition set_entry :: "lz4_kind \<Rightarrow> lz4_table \<Rightarrow> nat \<Rightarrow> nat \<Rightarrow> lz4_table" where
  "set_entry k tbl h p = tbl(h := take_bit (entry_bits k) p)"

definition candidate :: "lz4_kind \<Rightarrow> byte list \<Rightarrow> nat \<Rightarrow> nat \<Rightarrow> bool access" where
  "candidate k src ref ip =
     (if (case max_distance k of None \<Rightarrow> False | Some d \<Rightarrow> ref + d < ip) then Ok False
      else same_at A32 src ref ip)"

section \<open>Finding and measuring matches\<close>

datatype search = No_match | Match nat nat lz4_table

function find_match :: "lz4_kind \<Rightarrow> byte list \<Rightarrow> nat \<Rightarrow> lz4_table \<Rightarrow> nat \<Rightarrow> nat \<Rightarrow> nat
    \<Rightarrow> search access" where
  "find_match k src mflimit tbl ip attempts h =
     (let forwardIp = ip + drop_bit 6 attempts in
      if mflimit < forwardIp then Ok No_match
      else
        and_then (hash_value k src forwardIp) (\<lambda>forwardH.
        let ref = tbl h; tbl1 = set_entry k tbl h ip in
        and_then (candidate k src ref ip) (\<lambda>found.
          if found then Ok (Match ref ip tbl1)
          else find_match k src mflimit tbl1 forwardIp (attempts + 1) forwardH)))"
  by pat_completeness auto
termination
proof (relation "measures [\<lambda>(k, src, mflimit, tbl, ip, attempts, h). 64 - attempts,
    \<lambda>(k, src, mflimit, tbl, ip, attempts, h). mflimit + 1 - ip]", goal_cases)
  case (2 k src mflimit tbl ip attempts h)
  then show ?case by (cases "attempts < 64") (auto simp: drop_bit_eq_div)
qed simp

function catch_up :: "byte list \<Rightarrow> nat \<Rightarrow> nat \<Rightarrow> nat \<Rightarrow> (nat \<times> nat) access" where
  "catch_up src anchor ip ref =
     (if anchor < ip \<and> 0 < ref then
        and_then (same_at (load_byte Input_overread) src (ref - 1) (ip - 1)) (\<lambda>eq.
          if eq then catch_up src anchor (ip - 1) (ref - 1) else Ok (ip, ref))
      else Ok (ip, ref))"
  by pat_completeness auto
termination
  by (relation "measure (\<lambda>(src, anchor, ip, ref). ip)") auto

definition count_tail :: "byte list \<Rightarrow> nat \<Rightarrow> nat \<Rightarrow> nat \<Rightarrow> nat access" where
  "count_tail src matchlimit ip ref =
     and_then (if ip + 3 < matchlimit then same_at A32 src ref ip else Ok False) (\<lambda>b4.
     let ip1 = (if b4 then ip + 4 else ip); ref1 = (if b4 then ref + 4 else ref) in
     and_then (if ip1 + 1 < matchlimit then same_at A16 src ref1 ip1 else Ok False) (\<lambda>b2.
     let ip2 = (if b2 then ip1 + 2 else ip1); ref2 = (if b2 then ref1 + 2 else ref1) in
     and_then (if ip2 < matchlimit then same_at (load_byte Input_overread) src ref2 ip2 else Ok False) (\<lambda>b1.
     Ok (if b1 then ip2 + 1 else ip2))))"

function count_match :: "byte list \<Rightarrow> nat \<Rightarrow> nat \<Rightarrow> nat \<Rightarrow> nat access" where
  \<comment> \<open>\<^verbatim>\<open>ip\<close> after the match\<close>
  "count_match src matchlimit ip ref =
     (if ip + 7 < matchlimit then
        and_then (A64 src ref) (\<lambda>a. and_then (A64 src ip) (\<lambda>b.
          let diff = a XOR b in
          if diff = 0 then count_match src matchlimit (ip + 8) (ref + 8)
          else Ok (ip + LZ4_NbCommonBytes diff)))
      else count_tail src matchlimit ip ref)"
  by pat_completeness auto
termination
  by (relation "measure (\<lambda>(src, matchlimit, ip, ref). matchlimit - ip)") auto

declare find_match.simps [simp del] catch_up.simps [simp del] count_match.simps [simp del]

section \<open>Writing the block\<close>

function put_run :: "byte list \<Rightarrow> nat \<Rightarrow> nat \<Rightarrow> (byte list \<times> nat) access" where
  "put_run m op len =
     (if 254 < len then and_then (store m op [255]) (\<lambda>m1. put_run m1 (op + 1) (len - 255))
      else and_then (store m op [word_of_nat len]) (\<lambda>m1. Ok (m1, op + 1)))"
  by pat_completeness auto
termination
  by (relation "measure (\<lambda>(m, op, len). len)") auto

function put_match_run :: "byte list \<Rightarrow> nat \<Rightarrow> nat \<Rightarrow> (byte list \<times> nat) access" where
  "put_match_run m op len =
     (if 509 < len then
        and_then (store m op [255]) (\<lambda>m1. and_then (store m1 (op + 1) [255]) (\<lambda>m2.
          put_match_run m2 (op + 2) (len - 510)))
      else if 254 < len then
        and_then (store m op [255]) (\<lambda>m1. and_then (store m1 (op + 1) [word_of_nat (len - 255)]) (\<lambda>m2.
          Ok (m2, op + 2)))
      else and_then (store m op [word_of_nat len]) (\<lambda>m1. Ok (m1, op + 1)))"
  by pat_completeness auto
termination
  by (relation "measure (\<lambda>(m, op, len). len)") auto

declare put_run.simps [simp del] put_match_run.simps [simp del]

definition put_literal_length :: "byte list \<Rightarrow> nat \<Rightarrow> nat \<Rightarrow> (byte list \<times> nat) access" where
  \<comment> \<open>a new token with the number of literals\<close>
  "put_literal_length m op len =
     (if 15 \<le> len then and_then (store m op [240]) (\<lambda>m1. put_run m1 (op + 1) (len - 15))
      else and_then (store m op [word_of_nat (len * 16)]) (\<lambda>m1. Ok (m1, op + 1)))"

definition put_literals :: "byte list \<Rightarrow> byte list \<Rightarrow> nat \<Rightarrow> nat \<Rightarrow> nat \<Rightarrow> (byte list \<times> nat) access" where
  "put_literals src m op anchor ip =
     and_then (put_literal_length m op (ip - anchor)) (\<lambda>(m1, op1).
     and_then (wild_copy src anchor m1 op1 (op1 + (ip - anchor))) (\<lambda>m2.
       Ok (m2, op1 + (ip - anchor))))"

definition add_token :: "byte list \<Rightarrow> nat \<Rightarrow> nat \<Rightarrow> byte list access" where
  \<comment> \<open>\<^verbatim>\<open>*token += len\<close>\<close>
  "add_token m token len =
     and_then (load_byte Output_overread m token) (\<lambda>b. store m token [b + word_of_nat len])"

definition put_match_length :: "byte list \<Rightarrow> nat \<Rightarrow> nat \<Rightarrow> nat \<Rightarrow> (byte list \<times> nat) access" where
  "put_match_length m token op len =
     (if 15 \<le> len then and_then (add_token m token 15) (\<lambda>m1. put_match_run m1 op (len - 15))
      else and_then (add_token m token len) (\<lambda>m1. Ok (m1, op)))"

datatype chunk = Chunk_end "byte list" nat nat | Chunk_next lz4_table "byte list" nat nat

lemma count_tail_advances: "count_tail src lim ip ref = Ok ip' \<Longrightarrow> ip \<le> ip'"
  by (auto simp: count_tail_def Let_def elim!: and_then_Ok_E split: if_splits)

lemma count_match_advances: "count_match src lim ip ref = Ok ip' \<Longrightarrow> ip \<le> ip'"
proof (induction src lim ip ref arbitrary: ip' rule: count_match.induct)
  case (1 src lim ip ref)
  show ?case
  proof (cases "ip + 7 < lim")
    case True
    with 1(2) obtain a b where ab: "A64 src ref = Ok a" "A64 src ip = Ok b"
      and r: "(if a XOR b = 0 then count_match src lim (ip + 8) (ref + 8)
          else Ok (ip + LZ4_NbCommonBytes (a XOR b))) = Ok ip'"
      by (auto simp: count_match.simps [of src lim ip] Let_def elim!: and_then_Ok_E)
    show ?thesis
    proof (cases "a XOR b = 0")
      case eq: True
      with 1(1) [OF True ab refl eq] r show ?thesis by fastforce
    qed (use r in auto)
  next
    case False
    with 1(2) count_tail_advances show ?thesis by (simp add: count_match.simps [of src lim ip])
  qed
qed

function next_match :: "lz4_kind \<Rightarrow> byte list \<Rightarrow> nat \<Rightarrow> lz4_table \<Rightarrow> byte list \<Rightarrow> nat \<Rightarrow> nat \<Rightarrow> nat \<Rightarrow> nat
    \<Rightarrow> chunk access" where
  \<comment> \<open>from the label \<^verbatim>\<open>_next_match\<close> to its \<^verbatim>\<open>goto\<close>, or to the end of the body of the main loop\<close>
  "next_match k src isize tbl m token op ip ref =
     and_then (store m op [word_of_nat (ip - ref), word_of_nat ((ip - ref) div 256)]) (\<lambda>m1.
     let anchor = ip + 4 in
     and_then (count_match src (isize - 5) anchor (ref + 4)) (\<lambda>ip1.
     and_then (put_match_length m1 token (op + 2) (ip1 - anchor)) (\<lambda>(m2, op2).
       if isize - 12 < ip1 then Ok (Chunk_end m2 op2 ip1)
       else
         and_then (hash_value k src (ip1 - 2)) (\<lambda>h2. let tbl1 = set_entry k tbl h2 (ip1 - 2) in
         and_then (hash_value k src ip1) (\<lambda>h. let ref1 = tbl1 h; tbl2 = set_entry k tbl1 h ip1 in
         and_then (candidate k src ref1 ip1) (\<lambda>found.
           if found then and_then (store m2 op2 [0]) (\<lambda>m3.
             next_match k src isize tbl2 m3 op2 (op2 + 1) ip1 ref1)
           else Ok (Chunk_next tbl2 m2 op2 ip1)))))))"
  by pat_completeness auto
termination
  by (relation "measure (\<lambda>(k, src, isize, tbl, m, token, op, ip, ref). isize - ip)")
     (auto dest!: count_match_advances)

declare next_match.simps [simp del]

section \<open>The main loop\<close>

lemma find_match_advances: "find_match k src lim tbl ip att h = Ok (Match ref ip' tbl') \<Longrightarrow> ip \<le> ip' \<and> ip' \<le> lim"
proof (induction k src lim tbl ip att h arbitrary: ref ip' tbl' rule: find_match.induct)
  case (1 k src lim tbl ip att h)
  let ?f = "ip + drop_bit 6 att"
  show ?case
  proof (cases "lim < ?f")
    case False
    with 1(2) obtain h' b where h: "hash_value k src ?f = Ok h'" "candidate k src (tbl h) ip = Ok b"
      and r: "(if b then Ok (Match (tbl h) ip (set_entry k tbl h ip))
         else find_match k src lim (set_entry k tbl h ip) ?f (att + 1) h') = Ok (Match ref ip' tbl')"
      by (auto simp: find_match.simps [of k src lim tbl ip] Let_def elim!: and_then_Ok_E)
    show ?thesis
    proof (cases b)
      case True
      then show ?thesis using r False by auto
    next
      case b: False
      with 1(1) [OF refl False h(1) refl refl h(2) b] r show ?thesis by fastforce
    qed
  qed (use 1(2) in \<open>simp add: find_match.simps [of k src lim tbl ip]\<close>)
qed

lemma catch_up_range: "catch_up src anchor ip ref = Ok (ip', ref') \<Longrightarrow> anchor \<le> ip \<Longrightarrow> anchor \<le> ip' \<and> ip' \<le> ip"
proof (induction src anchor ip ref arbitrary: ip' ref' rule: catch_up.induct)
  case (1 src anchor ip ref)
  show ?case
  proof (cases "anchor < ip \<and> 0 < ref")
    case True
    with 1(2) obtain b where b: "same_at (load_byte Input_overread) src (ref - 1) (ip - 1) = Ok b"
      and r: "(if b then catch_up src anchor (ip - 1) (ref - 1) else Ok (ip, ref)) = Ok (ip', ref')"
      by (auto simp: catch_up.simps [of src anchor ip] elim!: and_then_Ok_E)
    show ?thesis
    proof (cases b)
      case eq: True
      with 1(1) [OF True b eq, of ip' ref'] r True show ?thesis by fastforce
    qed (use r 1(3) in auto)
  qed (use 1(2,3) in \<open>auto simp: catch_up.simps [of src anchor ip]\<close>)
qed

lemma next_match_advances:
  "next_match k src n tbl m token op ip ref = Ok (Chunk_next tbl' m' op' ip') \<Longrightarrow> ip + 4 \<le> ip' \<and> ip' \<le> n - 12"
proof (induction "n - ip" arbitrary: tbl m token op ip ref rule: less_induct)
  case less
  from less.prems [unfolded next_match.simps [of k src n tbl m] Let_def]
  obtain ip1 m2 op2 where ip1: "count_match src (n - 5) (ip + 4) (ref + 4) = Ok ip1"
    and r: "(if n - 12 < ip1 then Ok (Chunk_end m2 op2 ip1)
       else and_then (hash_value k src (ip1 - 2)) (\<lambda>h2. and_then (hash_value k src ip1) (\<lambda>h.
         and_then (candidate k src (set_entry k tbl h2 (ip1 - 2) h) ip1) (\<lambda>found.
           if found then and_then (store m2 op2 [0]) (\<lambda>m3.
             next_match k src n (set_entry k (set_entry k tbl h2 (ip1 - 2)) h ip1) m3 op2 (op2 + 1) ip1
               (set_entry k tbl h2 (ip1 - 2) h))
           else Ok (Chunk_next (set_entry k (set_entry k tbl h2 (ip1 - 2)) h ip1) m2 op2 ip1)))))
       = Ok (Chunk_next tbl' m' op' ip')"
    by (elim and_then_Ok_E) (auto elim!: and_then_Ok_E)
  have adv: "ip + 4 \<le> ip1" using count_match_advances [OF ip1] by simp
  show ?case
  proof (cases "n - 12 < ip1")
    case False
    with r obtain h2 h found where
      "(if found then and_then (store m2 op2 [0]) (\<lambda>m3.
             next_match k src n (set_entry k (set_entry k tbl h2 (ip1 - 2)) h ip1) m3 op2 (op2 + 1) ip1
               (set_entry k tbl h2 (ip1 - 2) h))
           else Ok (Chunk_next (set_entry k (set_entry k tbl h2 (ip1 - 2)) h ip1) m2 op2 ip1))
       = Ok (Chunk_next tbl' m' op' ip')"
      by (auto elim!: and_then_Ok_E)
    moreover have "n - ip1 < n - ip" using adv False by simp
    ultimately show ?thesis using less.hyps [of ip1] adv False
      by (fastforce elim!: and_then_Ok_E split: if_splits)
  qed (use r in simp)
qed

function compress_loop :: "lz4_kind \<Rightarrow> byte list \<Rightarrow> nat \<Rightarrow> lz4_table \<Rightarrow> byte list \<Rightarrow> nat \<Rightarrow> nat \<Rightarrow> nat
    \<Rightarrow> (byte list \<times> nat \<times> nat) access" where
  \<comment> \<open>at the head of the loop \<^verbatim>\<open>ip\<close> is \<^verbatim>\<open>anchor + 1\<close>; the result: the buffer, \<^verbatim>\<open>op\<close> and \<^verbatim>\<open>anchor\<close>\<close>
  "compress_loop k src isize tbl m op anchor forwardH =
     and_then (find_match k src (isize - 12) tbl (anchor + 1) 67 forwardH) (\<lambda>s.
       case s of
         No_match \<Rightarrow> Ok (m, op, anchor)
       | Match ref0 ip0 tbl1 \<Rightarrow>
           and_then (catch_up src anchor ip0 ref0) (\<lambda>(ip, ref).
           and_then (put_literals src m op anchor ip) (\<lambda>(m1, op1).
           and_then (next_match k src isize tbl1 m1 op op1 ip ref) (\<lambda>c.
             case c of
               Chunk_end m2 op2 a \<Rightarrow> Ok (m2, op2, a)
             | Chunk_next tbl2 m2 op2 ip2 \<Rightarrow>
                 and_then (hash_value k src (ip2 + 1)) (\<lambda>h.
                   compress_loop k src isize tbl2 m2 op2 ip2 h)))))"
  by pat_completeness auto
termination
proof (relation "measure (\<lambda>(k, src, isize, tbl, m, op, anchor, h). isize - anchor)", goal_cases)
  case (2 k src isize tbl m op anchor h s ref0 ip0 tbl1 p ip ref q m1 op1 c tbl2 m2 op2 ip2 h')
  then have "ip + 4 \<le> ip2" "ip2 \<le> isize - 12" "anchor \<le> ip"
    using next_match_advances [of k src isize tbl1 m1 op op1 ip ref tbl2 m2 op2 ip2]
      find_match_advances [of k src "isize - 12" tbl "anchor + 1" 67 h ref0 ip0 tbl1]
      catch_up_range [of src anchor ip0 ref0 ip ref] by auto
  then show ?case by simp
qed simp

declare compress_loop.simps [simp del]

definition put_last_literals :: "byte list \<Rightarrow> byte list \<Rightarrow> nat \<Rightarrow> nat \<Rightarrow> nat \<Rightarrow> (int \<times> byte list) access" where
  \<comment> \<open>the label \<^verbatim>\<open>_last_literals\<close>; \<^verbatim>\<open>LZ4_COMPRESSMIN\<close> is 100\<close>
  "put_last_literals src m op anchor isize =
     (let lastRun = isize - anchor in
      if isize < op + lastRun + 1 + (lastRun - 15) div 255 + 100 then Ok (0, m)
      else
        and_then (put_literal_length m op lastRun) (\<lambda>(m1, op1).
        and_then (load Input_overread src anchor lastRun) (\<lambda>bs.
        and_then (store m1 op1 bs) (\<lambda>m2. Ok (int32 (int (op1 + lastRun)), m2)))))"

definition ctx_kind :: lz4_kind where
  "ctx_kind = \<lparr>hash_log = 12, entry_bits = 32, max_distance = Some 65535\<rparr>"

definition ctx64k_kind :: lz4_kind where
  "ctx64k_kind = \<lparr>hash_log = 13, entry_bits = 16, max_distance = None\<rparr>"

definition LZ4_compressCtx :: "byte list \<Rightarrow> byte list \<Rightarrow> nat \<Rightarrow> (int \<times> byte list) access" where
  "LZ4_compressCtx source dest isize =
     (if isize < 13 then put_last_literals source dest 0 0 isize
      else
        and_then (hash_value ctx_kind source 0) (\<lambda>h0.
        and_then (hash_value ctx_kind source 1) (\<lambda>forwardH.
        and_then (compress_loop ctx_kind source isize (set_entry ctx_kind (\<lambda>_. 0) h0 0) dest 0 0 forwardH)
          (\<lambda>(m, op, anchor). put_last_literals source m op anchor isize))))"

definition LZ4_compress64kCtx :: "byte list \<Rightarrow> byte list \<Rightarrow> nat \<Rightarrow> (int \<times> byte list) access" where
  "LZ4_compress64kCtx source dest isize =
     (if isize < 13 then put_last_literals source dest 0 0 isize
      else
        and_then (hash_value ctx64k_kind source 1) (\<lambda>forwardH.
        and_then (compress_loop ctx64k_kind source isize (\<lambda>_. 0) dest 0 0 forwardH)
          (\<lambda>(m, op, anchor). put_last_literals source m op anchor isize)))"

definition LZ4_compress :: "byte list \<Rightarrow> byte list \<Rightarrow> nat \<Rightarrow> (int \<times> byte list) access" where
  "LZ4_compress source dest isize =
     (if isize < 65547 then LZ4_compress64kCtx source dest isize
      else LZ4_compressCtx source dest isize)"

definition LZ4_compressBound :: "nat \<Rightarrow> nat" where
  "LZ4_compressBound isize = isize + isize div 255 + 16"

section \<open>Comparing bytes\<close>

definition agree :: "byte list \<Rightarrow> nat \<Rightarrow> nat \<Rightarrow> nat \<Rightarrow> bool" where
  "agree m p q k \<longleftrightarrow> (\<forall>j < k. m ! (p + j) = m ! (q + j))"

lemma agree_0 [simp]: "agree m p q 0"
  by (simp add: agree_def)

lemma agree_less: "agree m p q k \<Longrightarrow> j \<le> k \<Longrightarrow> agree m p q j"
  by (simp add: agree_def)

lemma agree_add: "agree m p q (a + b) \<longleftrightarrow> agree m p q a \<and> agree m (p + a) (q + a) b"
proof
  assume l: "agree m p q a \<and> agree m (p + a) (q + a) b"
  show "agree m p q (a + b)" unfolding agree_def
  proof (intro allI impI)
    fix j assume j: "j < a + b"
    show "m ! (p + j) = m ! (q + j)"
    proof (cases "j < a")
      case False
      then have "m ! (p + a + (j - a)) = m ! (q + a + (j - a))"
        using l j unfolding agree_def by (metis add_diff_inverse_nat nat_add_left_cancel_less)
      then show ?thesis using False by simp
    qed (use l in \<open>simp add: agree_def\<close>)
  qed
qed (auto simp: agree_def add.assoc)

lemma agree_Suc: "agree m p q (Suc k) \<longleftrightarrow> agree m p q k \<and> m ! (p + k) = m ! (q + k)"
  by (auto simp: agree_def less_Suc_eq)

lemma agree_take:
  assumes "p + k \<le> length m" "q + k \<le> length m"
  shows "take k (drop p m) = take k (drop q m) \<longleftrightarrow> agree m p q k"
  using assms by (auto simp: agree_def list_eq_iff_nth_eq)

lemma le_nat_less: "le_nat xs < 256 ^ length xs"
proof (induction xs)
  case (Cons x xs)
  have "unat x < 2 ^ LENGTH(8)" by (rule unsigned_less)
  with Cons show ?case by simp
qed simp

lemma le_nat_inj: "length xs = length ys \<Longrightarrow> le_nat xs = le_nat ys \<Longrightarrow> xs = ys"
proof (induction xs ys rule: list_induct2)
  case (Cons x xs y ys)
  have "unat x < 2 ^ LENGTH(8)" "unat y < 2 ^ LENGTH(8)" by (rule unsigned_less)+
  then have b: "unat x < 256" "unat y < 256" by simp_all
  have "(unat x + 256 * le_nat xs) mod 256 = (unat y + 256 * le_nat ys) mod 256" using Cons.prems by simp
  then have "unat x = unat y" using b by simp
  with Cons show ?case by (auto intro: unsigned_word_eqI)
qed simp

lemma le_nat_take: "r \<le> length xs \<Longrightarrow> le_nat (take r xs) = take_bit (8 * r) (le_nat xs)"
proof (induction xs arbitrary: r)
  case (Cons x xs)
  have "unat x < 2 ^ LENGTH(8)" by (rule unsigned_less)
  then have b: "unat x < 256" by simp
  show ?case
  proof (cases r)
    case (Suc r')
    have e: "2 ^ (8 * r) = 256 * (2 ^ (8 * r') :: nat)" using Suc by (simp add: power_add)
    have "le_nat (take r' xs) = le_nat xs mod 2 ^ (8 * r')"
      using Cons Suc by (simp add: take_bit_eq_mod)
    moreover have "(unat x + 256 * le_nat xs) mod (256 * 2 ^ (8 * r')) = unat x + 256 * (le_nat xs mod 2 ^ (8 * r'))"
      using b by (simp add: mod_mult2_eq)
    ultimately show ?thesis using Suc e by (simp add: take_bit_eq_mod)
  qed simp
qed simp

lemma word_le_nat_take:
  assumes "length xs = length ys" "r \<le> length xs"
  shows "take_bit (8 * r) (word_of_nat (le_nat xs) :: 'a::len word) = take_bit (8 * r) (word_of_nat (le_nat ys))
    \<longleftrightarrow> (word_of_nat (le_nat (take r xs)) :: 'a word) = word_of_nat (le_nat (take r ys))"
  using assms by (simp add: le_nat_take of_nat_take_bit)

lemma word_le_nat_inj:
  assumes "length xs = length ys" "8 * length xs \<le> LENGTH('a::len)"
  shows "(word_of_nat (le_nat xs) :: 'a word) = word_of_nat (le_nat ys) \<longleftrightarrow> xs = ys"
proof
  assume e: "(word_of_nat (le_nat xs) :: 'a word) = word_of_nat (le_nat ys)"
  have p: "(256 :: nat) ^ length xs \<le> 2 ^ LENGTH('a)"
    using power_increasing [OF assms(2), of "2 :: nat"] by (simp add: power_mult)
  have "le_nat xs < 2 ^ LENGTH('a)" "le_nat ys < 2 ^ LENGTH('a)"
    using le_nat_less [of xs] le_nat_less [of ys] p assms(1) by auto
  then have "le_nat xs = le_nat ys" using arg_cong [OF e, of unat] by (simp add: unat_of_nat)
  then show "xs = ys" by (rule le_nat_inj [OF assms(1)])
qed simp

lemma same_at_words:
  assumes "p + k \<le> length m" "q + k \<le> length m" "8 * k \<le> LENGTH('a::len)"
    and "\<And>i. i + k \<le> length m \<Longrightarrow> f m i = Ok (word_of_nat (le_nat (take k (drop i m))) :: 'a word)"
  shows "same_at f m p q = Ok (agree m p q k)"
proof -
  have "(word_of_nat (le_nat (take k (drop p m))) :: 'a word) = word_of_nat (le_nat (take k (drop q m)))
      \<longleftrightarrow> take k (drop p m) = take k (drop q m)"
    by (rule word_le_nat_inj) (use assms(1-3) in auto)
  then show ?thesis using assms agree_take [OF assms(1,2)] by (simp add: same_at_def)
qed

lemma same_at_A32: "p + 4 \<le> length m \<Longrightarrow> q + 4 \<le> length m \<Longrightarrow> same_at A32 m p q = Ok (agree m p q 4)"
  by (rule same_at_words) (simp_all add: A32_def load_def)

lemma same_at_A16: "p + 2 \<le> length m \<Longrightarrow> q + 2 \<le> length m \<Longrightarrow> same_at A16 m p q = Ok (agree m p q 2)"
  by (rule same_at_words) (simp_all add: A16_def load_def)

lemma same_at_byte:
  "p < length m \<Longrightarrow> q < length m \<Longrightarrow> same_at (load_byte e) m p q = Ok (agree m p q 1)"
  by (simp add: same_at_def load_byte_def agree_def)

lemma ctz_from_found:
  "i \<le> 64 \<Longrightarrow> ctz_from i w \<le> 64 \<and> (\<forall>j. i \<le> j \<and> j < ctz_from i w \<longrightarrow> \<not> bit w j) \<and> (ctz_from i w < 64 \<longrightarrow> bit w (ctz_from i w))"
proof (induction i w rule: ctz_from.induct)
  case (1 i w)
  show ?case
  proof (cases "64 \<le> i \<or> bit w i")
    case True
    then show ?thesis using 1(2) by (auto simp: ctz_from.simps [of i w])
  next
    case False
    then show ?thesis using 1(1) by (simp add: ctz_from.simps [of i w]) (metis Suc_leI le_neq_implies_less)
  qed
qed

lemma same_bits: "take_bit n a = take_bit n b \<longleftrightarrow> (\<forall>j < n. \<not> bit (a XOR b) j)" for a b :: "64 word"
proof
  assume e: "take_bit n a = take_bit n b"
  then have "bit (take_bit n a) j = bit (take_bit n b) j" for j by simp
  then show "\<forall>j < n. \<not> bit (a XOR b) j" by (auto simp: bit_take_bit_iff bit_xor_iff)
qed (auto simp: bit_eq_iff bit_take_bit_iff bit_xor_iff)

lemma NbCommonBytes_count:
  assumes "p + 8 \<le> length m" "q + 8 \<le> length m" "A64 m p = Ok a" "A64 m q = Ok b"
  shows "a XOR b = 0 \<longleftrightarrow> agree m p q 8"
    "a XOR b \<noteq> 0 \<Longrightarrow> LZ4_NbCommonBytes (a XOR b) < 8"
    "a XOR b \<noteq> 0 \<Longrightarrow> agree m p q (LZ4_NbCommonBytes (a XOR b))"
    "a XOR b \<noteq> 0 \<Longrightarrow> \<not> agree m p q (Suc (LZ4_NbCommonBytes (a XOR b)))"
proof -
  let ?x = "take 8 (drop p m)" and ?y = "take 8 (drop q m)"
  have ab: "a = word_of_nat (le_nat ?x)" "b = word_of_nat (le_nat ?y)"
    using assms by (simp_all add: A64_def load_def)
  have bits: "(\<forall>j < 8 * r. \<not> bit (a XOR b) j) \<longleftrightarrow> agree m p q r" if "r \<le> 8" for r
  proof -
    have "(\<forall>j < 8 * r. \<not> bit (a XOR b) j) \<longleftrightarrow> take_bit (8 * r) a = take_bit (8 * r) b" by (simp add: same_bits)
    also have "\<dots> \<longleftrightarrow> (word_of_nat (le_nat (take r ?x)) :: 64 word) = word_of_nat (le_nat (take r ?y))"
      unfolding ab by (rule word_le_nat_take) (use assms that in auto)
    also have "\<dots> \<longleftrightarrow> take r ?x = take r ?y" by (rule word_le_nat_inj) (use assms that in auto)
    also have "\<dots> \<longleftrightarrow> agree m p q r" using agree_take [of p r m q] assms that by (simp add: min_def)
    finally show ?thesis .
  qed
  show z: "a XOR b = 0 \<longleftrightarrow> agree m p q 8"
    using bits [of 8] by (auto simp: bit_eq_iff)
  assume nz: "a XOR b \<noteq> 0"
  let ?c = "ctz_from 0 (a XOR b)"
  note c = ctz_from_found [of 0 "a XOR b"]
  have c64: "?c < 64"
  proof (rule ccontr)
    assume "\<not> ?c < 64"
    then have "\<forall>j < 8 * 8. \<not> bit (a XOR b) j" using c by auto
    with bits [of 8] z nz show False by simp
  qed
  then show r: "LZ4_NbCommonBytes (a XOR b) < 8" by (simp add: LZ4_NbCommonBytes_def less_mult_imp_div_less)
  have "8 * (?c div 8) \<le> ?c" by simp
  then have "\<forall>j < 8 * (?c div 8). \<not> bit (a XOR b) j" using c by auto
  then show "agree m p q (LZ4_NbCommonBytes (a XOR b))"
    using bits [of "?c div 8"] r by (simp add: LZ4_NbCommonBytes_def)
  have "?c < 8 * Suc (?c div 8)" by (metis add.commute dividend_less_times_div mult_Suc_right zero_less_numeral)
  then have "\<not> (\<forall>j < 8 * Suc (?c div 8). \<not> bit (a XOR b) j)" using c c64 by blast
  then show "\<not> agree m p q (Suc (LZ4_NbCommonBytes (a XOR b)))"
    using bits [of "Suc (?c div 8)"] r unfolding LZ4_NbCommonBytes_def by (meson Suc_leI)
qed

section \<open>The length of a match\<close>

definition counted :: "byte list \<Rightarrow> nat \<Rightarrow> nat \<Rightarrow> nat \<Rightarrow> nat \<Rightarrow> bool" where
  \<comment> \<open>\<open>ip1\<close> is where the agreement of \<open>ref\<close> and \<open>ip\<close> ends, or the limit\<close>
  "counted src lim ip ref ip1 \<longleftrightarrow> ip \<le> ip1 \<and> ip1 \<le> lim \<and> agree src ref ip (ip1 - ip)
     \<and> (ip1 < lim \<longrightarrow> \<not> agree src ref ip (Suc (ip1 - ip)))"

lemma counted_iff: "counted src lim ip ref (ip + k) \<longleftrightarrow>
    ip + k \<le> lim \<and> agree src ref ip k \<and> (ip + k < lim \<longrightarrow> \<not> agree src ref ip (Suc k))"
  by (auto simp: counted_def)

lemma counted_step:
  assumes "agree src ref ip k" "counted src lim (ip + k) (ref + k) ip1"
  shows "counted src lim ip ref ip1"
proof -
  have "ip + k \<le> ip1" using assms(2) by (simp add: counted_def)
  then obtain d where d: "ip1 = ip + k + d" by (auto simp: le_iff_add)
  have "counted src lim ip ref (ip + (k + d))"
    using assms agree_add [of src ref ip k d] agree_add [of src ref ip k "Suc d"] counted_iff [of src lim "ip + k" "ref + k" d]
    unfolding counted_iff d by (simp add: add.assoc)
  then show ?thesis unfolding d by (simp add: add.assoc)
qed

lemma counted_byte:
  assumes "ip \<le> lim" "lim \<le> ip + 1 \<or> \<not> agree src ref ip 2"
    and "c \<longleftrightarrow> ip < lim \<and> agree src ref ip 1" "ip3 = (if c then ip + 1 else ip)"
  shows "counted src lim ip ref ip3"
proof (cases c)
  case True
  then show ?thesis using assms counted_iff [of src lim ip ref 1] by (auto simp: numeral_2_eq_2)
next
  case False
  then show ?thesis using assms counted_iff [of src lim ip ref 0] by auto
qed

lemma counted_two:
  assumes "ip \<le> lim" "lim \<le> ip + 3 \<or> \<not> agree src ref ip 4" "b \<longleftrightarrow> ip + 1 < lim \<and> agree src ref ip 2"
    and "ip2 = (if b then ip + 2 else ip)" "ref2 = (if b then ref + 2 else ref)"
    and "c \<longleftrightarrow> ip2 < lim \<and> agree src ref2 ip2 1" "ip3 = (if c then ip2 + 1 else ip2)"
  shows "counted src lim ip ref ip3"
proof (cases b)
  case True
  then have e: "ip2 = ip + 2" "ref2 = ref + 2" using assms by simp_all
  have "lim \<le> ip2 + 1 \<or> \<not> agree src ref2 ip2 2"
    unfolding e using assms(2,3) True agree_add [of src ref ip 2 2] by auto
  moreover have "ip2 \<le> lim" using assms(3) True e by simp
  ultimately have "counted src lim (ip + 2) (ref + 2) ip3"
    using counted_byte [OF _ _ assms(6,7)] unfolding e by blast
  moreover have "agree src ref ip 2" using True assms by simp
  ultimately show ?thesis by (rule counted_step [rotated])
next
  case False
  then have e: "ip2 = ip" "ref2 = ref" using assms by simp_all
  have "lim \<le> ip + 1 \<or> \<not> agree src ref ip 2" using False assms(3) by auto
  from counted_byte [OF assms(1) this assms(6,7) [unfolded e]] show ?thesis .
qed

lemma count_tail_counts:
  assumes "ip \<le> lim" "lim \<le> ip + 7" "lim \<le> length src" "ref \<le> ip"
  shows "\<exists>ip1. count_tail src lim ip ref = Ok ip1 \<and> counted src lim ip ref ip1"
proof -
  define b4 where "b4 \<longleftrightarrow> ip + 3 < lim \<and> agree src ref ip 4"
  define ip4 where "ip4 = (if b4 then ip + 4 else ip)"
  define ref4 where "ref4 = (if b4 then ref + 4 else ref)"
  define b2 where "b2 \<longleftrightarrow> ip4 + 1 < lim \<and> agree src ref4 ip4 2"
  define ip2 where "ip2 = (if b2 then ip4 + 2 else ip4)"
  define ref2 where "ref2 = (if b2 then ref4 + 2 else ref4)"
  define c where "c \<longleftrightarrow> ip2 < lim \<and> agree src ref2 ip2 1"
  define ip3 where "ip3 = (if c then ip2 + 1 else ip2)"
  have le: "ref4 \<le> ip4" "ip4 \<le> lim" "ref2 \<le> ip2" using assms by (auto simp: ref4_def ip4_def ref2_def ip2_def b4_def)
  have s4: "(if ip + 3 < lim then same_at A32 src ref ip else Ok False) = Ok b4"
    using same_at_A32 [of ref src ip] assms by (simp add: b4_def)
  have s2: "(if ip4 + 1 < lim then same_at A16 src ref4 ip4 else Ok False) = Ok b2"
    using same_at_A16 [of ref4 src ip4] assms le by (simp add: b2_def)
  have s1: "(if ip2 < lim then same_at (load_byte Input_overread) src ref2 ip2 else Ok False) = Ok c"
    using same_at_byte [of ref2 src ip2] assms le by (simp add: c_def)
  have "count_tail src lim ip ref = Ok ip3"
    unfolding count_tail_def Let_def s4 and_then.simps(2) ip4_def [symmetric] ref4_def [symmetric]
      s2 ip2_def [symmetric] ref2_def [symmetric] s1 ip3_def ..
  moreover have "counted src lim ip ref ip3"
  proof (cases b4)
    case True
    then have e: "ip4 = ip + 4" "ref4 = ref + 4" by (simp_all add: ip4_def ref4_def)
    have "counted src lim ip4 ref4 ip3"
      by (rule counted_two [OF le(2) _ b2_def ip2_def ref2_def c_def ip3_def]) (use assms e in simp)
    then show ?thesis using counted_step [of src ref ip 4] True e by (simp add: b4_def)
  next
    case False
    then have e: "ip4 = ip" "ref4 = ref" by (simp_all add: ip4_def ref4_def)
    have "lim \<le> ip4 + 3 \<or> \<not> agree src ref4 ip4 4" using False e by (auto simp: b4_def)
    from counted_two [OF le(2) this b2_def ip2_def ref2_def c_def ip3_def] show ?thesis unfolding e .
  qed
  ultimately show ?thesis by blast
qed

lemma count_match_counts:
  assumes "ip \<le> lim" "lim \<le> length src" "ref \<le> ip"
  shows "\<exists>ip1. count_match src lim ip ref = Ok ip1 \<and> counted src lim ip ref ip1"
  using assms
proof (induction "lim - ip" arbitrary: ip ref rule: less_induct)
  case less
  show ?case
  proof (cases "ip + 7 < lim")
    case True
    then have b: "ref + 8 \<le> length src" "ip + 8 \<le> length src" using less.prems by simp_all
    then obtain x y where xy: "A64 src ref = Ok x" "A64 src ip = Ok y" by (simp add: A64_def load_def)
    note n = NbCommonBytes_count [OF b xy]
    show ?thesis
    proof (cases "x XOR y = 0")
      case eq: True
      obtain ip1 where i: "count_match src lim (ip + 8) (ref + 8) = Ok ip1" "counted src lim (ip + 8) (ref + 8) ip1"
        using less.hyps [of "ip + 8" "ref + 8"] less.prems True diff_less_mono2 [of ip "ip + 8" lim] by auto
      have "counted src lim ip ref ip1" using counted_step [OF _ i(2)] n(1) eq by simp
      then show ?thesis using i(1) True xy eq by (simp add: count_match.simps [of src lim ip ref])
    next
      case False
      have "counted src lim ip ref (ip + LZ4_NbCommonBytes (x XOR y))"
        unfolding counted_iff using n(2-4) [OF False] True by simp
      then show ?thesis using True xy False by (simp add: count_match.simps [of src lim ip ref])
    qed
  next
    case False
    then show ?thesis using count_tail_counts [of ip lim src ref] less.prems
      by (simp add: count_match.simps [of src lim ip ref])
  qed
qed

section \<open>The search\<close>

lemma hash_value_Ok: "p + 4 \<le> length src \<Longrightarrow> \<exists>h. hash_value k src p = Ok h"
  by (simp add: hash_value_def A32_def load_def)

lemma hash_value_bound:
  assumes "hash_value k src p = Ok h" "hash_log k \<le> 32"
  shows "h < 2 ^ hash_log k"
proof -
  obtain v :: "32 word" where h: "h = drop_bit (32 - hash_log k) (unat (v * 2654435761))"
    using assms(1) by (auto simp: hash_value_def unat_drop_bit_eq elim!: and_then_Ok_E)
  have "unat (v * 2654435761) < 2 ^ LENGTH(32)" by (rule unsigned_less)
  then have "unat (v * 2654435761) < 2 ^ hash_log k * 2 ^ (32 - hash_log k)"
    using assms(2) by (simp add: power_add [symmetric])
  then show ?thesis unfolding h by (simp add: drop_bit_eq_div less_mult_imp_div_less)
qed

definition near :: "lz4_kind \<Rightarrow> nat \<Rightarrow> nat \<Rightarrow> bool" where
  "near k ref ip \<longleftrightarrow> (case max_distance k of None \<Rightarrow> True | Some d \<Rightarrow> ip \<le> ref + d)"

lemma candidate_Ok:
  "ref \<le> ip \<Longrightarrow> ip + 4 \<le> length src \<Longrightarrow> candidate k src ref ip = Ok (near k ref ip \<and> agree src ref ip 4)"
  using same_at_A32 [of ref src ip] by (auto simp: candidate_def near_def split: option.splits)

lemma set_entry_le: "set_entry k tbl h p i \<le> max p (tbl i)"
  by (auto simp: set_entry_def take_bit_nat_less_eq_self le_max_iff_disj)

definition found_at :: "lz4_kind \<Rightarrow> byte list \<Rightarrow> nat \<Rightarrow> nat \<Rightarrow> bool" where
  "found_at k src ref ip \<longleftrightarrow> ref < ip \<and> near k ref ip \<and> agree src ref ip 4"

lemma find_match_finds:
  assumes "lim + 4 \<le> length src" "\<And>i. tbl i < ip" "64 \<le> att"
  shows "\<exists>s. find_match k src lim tbl ip att h = Ok s \<and> (case s of No_match \<Rightarrow> True
    | Match ref ip' tbl' \<Rightarrow> ip \<le> ip' \<and> ip' < lim \<and> found_at k src ref ip' \<and> (\<forall>i. tbl' i \<le> ip'))"
  using assms(2,3)
proof (induction "lim - ip" arbitrary: tbl ip att h rule: less_induct)
  case less
  let ?f = "ip + drop_bit 6 att"
  have f: "ip < ?f" using less.prems(2) by (simp add: drop_bit_eq_div div_greater_zero_iff)
  show ?case
  proof (cases "lim < ?f")
    case True
    then show ?thesis by (simp add: find_match.simps [of k src lim tbl ip])
  next
    case False
    then obtain h' where h': "hash_value k src ?f = Ok h'" using hash_value_Ok [of ?f src k] assms(1) by auto
    have c: "candidate k src (tbl h) ip = Ok (near k (tbl h) ip \<and> agree src (tbl h) ip 4)"
      by (rule candidate_Ok) (use less.prems(1) [of h] False f assms(1) in auto)
    let ?t = "set_entry k tbl h ip"
    have t: "?t i \<le> ip" for i using set_entry_le [of k tbl h ip i] less.prems(1) [of i] by simp
    show ?thesis
    proof (cases "near k (tbl h) ip \<and> agree src (tbl h) ip 4")
      case True
      then show ?thesis using False h' c f t less.prems(1) [of h]
        by (simp add: find_match.simps [of k src lim tbl ip] found_at_def Let_def)
    next
      case none: False
      have "?t i < ?f" for i using t [of i] f by simp
      moreover have "lim - ?f < lim - ip" using f False by simp
      ultimately obtain s where s: "find_match k src lim ?t ?f (att + 1) h' = Ok s" "case s of No_match \<Rightarrow> True
          | Match ref ip' tbl' \<Rightarrow> ?f \<le> ip' \<and> ip' < lim \<and> found_at k src ref ip' \<and> (\<forall>i. tbl' i \<le> ip')"
        using less.hyps [of ?f ?t "att + 1" h'] less.prems(2) by auto
      have "find_match k src lim tbl ip att h = Ok s"
        using s(1) False h' c none by (simp add: find_match.simps [of k src lim tbl ip] Let_def)
      then show ?thesis using s(2) f by (auto split: search.splits)
    qed
  qed
qed

lemma catch_up_finds:
  assumes "ref < ip" "anchor \<le> ip" "ip \<le> length src"
  shows "\<exists>d. catch_up src anchor ip ref = Ok (ip - d, ref - d) \<and> d \<le> ip - anchor \<and> d \<le> ref
    \<and> agree src (ref - d) (ip - d) d"
  using assms
proof (induction ip arbitrary: ref)
  case (Suc ip)
  show ?case
  proof (cases "anchor < Suc ip \<and> 0 < ref")
    case True
    then obtain r where r: "ref = Suc r" by (auto simp: gr0_conv_Suc)
    have s: "same_at (load_byte Input_overread) src r ip = Ok (agree src r ip 1)"
      by (rule same_at_byte) (use Suc.prems r in auto)
    show ?thesis
    proof (cases "agree src r ip 1")
      case eq: True
      obtain d where d: "catch_up src anchor ip r = Ok (ip - d, r - d)" "d \<le> ip - anchor" "d \<le> r"
        "agree src (r - d) (ip - d) d" using Suc.IH [of r] Suc.prems True r by auto
      have "agree src (r - d) (ip - d) (Suc d)"
        using d(2-4) eq unfolding agree_Suc by (auto simp: agree_def)
      moreover have "catch_up src anchor (Suc ip) ref = Ok (Suc ip - Suc d, ref - Suc d)"
        using d(1) True s eq r by (simp add: catch_up.simps [of src anchor "Suc ip"])
      moreover have "Suc d \<le> Suc ip - anchor" using d(2) conjunct1 [OF True] by arith
      ultimately show ?thesis using d(3) r by (intro exI [of _ "Suc d"]) simp
    next
      case False
      then show ?thesis using True s r by (intro exI [of _ 0]) (simp add: catch_up.simps [of src anchor "Suc ip"])
    qed
  next
    case False
    then have "catch_up src anchor (Suc ip) ref = Ok (Suc ip, ref)"
      by (simp only: catch_up.simps [of src anchor "Suc ip" ref] if_False)
    then show ?thesis by (intro exI [of _ 0]) simp
  qed
qed simp

section \<open>The bytes written\<close>

definition appended :: "byte list \<Rightarrow> nat \<Rightarrow> byte list \<Rightarrow> byte list \<Rightarrow> bool" where
  \<comment> \<open>the buffer after the bytes were written at the offset, up to what follows them\<close>
  "appended m op bs m' \<longleftrightarrow> length m' = length m \<and> take (op + length bs) m' = take op m @ bs"

lemma appended_Nil [simp]: "appended m op [] m"
  by (simp add: appended_def)

lemma appended_trans: "appended m op bs m1 \<Longrightarrow> appended m1 (op + length bs) cs m2 \<Longrightarrow> appended m op (bs @ cs) m2"
  by (simp add: appended_def add.assoc)

lemma store_appended:
  "op + length bs \<le> length m \<Longrightarrow> \<exists>m1. store m op bs = Ok m1 \<and> appended m op bs m1"
  by (simp add: store_def appended_def)

lemma wild_copy_appended:
  assumes "op + len + 8 \<le> length m" "s + len + 8 \<le> length src"
  shows "\<exists>m1. wild_copy src s m op (op + len) = Ok m1 \<and> appended m op (take len (drop s src)) m1"
proof -
  obtain m1 where m1: "wild_copy src s m op (op + len) = Ok m1"
    using wild_copy_step [of op "op + len" m src s] assms by auto
  from wild_copy_room [OF m1] m1 assms show ?thesis by (simp add: appended_def)
qed

lemma put_run_appended:
  "op + length (ext_bytes len) \<le> length m \<Longrightarrow>
   \<exists>m1. put_run m op len = Ok (m1, op + length (ext_bytes len)) \<and> appended m op (ext_bytes len) m1"
proof (induction m op len rule: put_run.induct)
  case (1 m op len)
  show ?case
  proof (cases "254 < len")
    case True
    then have e: "ext_bytes len = [255] @ ext_bytes (len - 255)" by (simp add: ext_bytes.simps [of len])
    with 1(2) obtain m1 where m1: "store m op [255] = Ok m1" "appended m op [255] m1"
      using store_appended [of op "[255]" m] by auto
    have "op + 1 + length (ext_bytes (len - 255)) \<le> length m1" using 1(2) e m1(2) by (simp add: appended_def)
    from 1(1) [OF True m1(1) this] obtain m2 where
      m2: "put_run m1 (op + 1) (len - 255) = Ok (m2, op + 1 + length (ext_bytes (len - 255)))"
        "appended m1 (op + 1) (ext_bytes (len - 255)) m2" by blast
    have "appended m op (ext_bytes len) m2" unfolding e using appended_trans [OF m1(2)] m2(2) by simp
    then show ?thesis using m1(1) m2(1) True e by (simp add: put_run.simps [of m op len])
  next
    case False
    then have e: "ext_bytes len = [word_of_nat len]" by (simp add: ext_bytes.simps)
    with 1(2) False show ?thesis using store_appended [of op "[word_of_nat len]" m]
      by (auto simp: put_run.simps [of m op len])
  qed
qed

lemma put_match_run_appended:
  "op + length (ext_bytes len) \<le> length m \<Longrightarrow>
   \<exists>m1. put_match_run m op len = Ok (m1, op + length (ext_bytes len)) \<and> appended m op (ext_bytes len) m1"
proof (induction m op len rule: put_match_run.induct)
  case (1 m op len)
  have two: "\<exists>m1 m2. store m op [255] = Ok m1 \<and> store m1 (op + 1) [x] = Ok m2 \<and> appended m op [255, x] m2"
    if "254 < len" for x
  proof -
    have "2 \<le> length (ext_bytes len)" using that by (simp add: ext_bytes.simps [of len] ext_bytes.simps [of "len - 255"])
    then have room: "op + 2 \<le> length m" using 1(2) by simp
    obtain m1 where m1: "store m op [255] = Ok m1" "appended m op [255] m1"
      using store_appended [of op "[255]" m] room by auto
    then have "length m1 = length m" by (simp add: appended_def)
    then obtain m2 where m2: "store m1 (op + 1) [x] = Ok m2" "appended m1 (op + 1) [x] m2"
      using store_appended [of "op + 1" "[x]" m1] room by auto
    show ?thesis using m1(1) m2(1) appended_trans [OF m1(2)] m2(2) by auto
  qed
  consider "509 < len" | "254 < len" "len \<le> 509" | "len \<le> 254" by linarith
  then show ?case
  proof cases
    case a: 1
    then have e: "ext_bytes len = [255, 255] @ ext_bytes (len - 510)"
      by (simp add: ext_bytes.simps [of len] ext_bytes.simps [of "len - 255"])
    obtain m1 m2 where m: "store m op [255] = Ok m1" "store m1 (op + 1) [255] = Ok m2" "appended m op [255, 255] m2"
      using two a by force
    have "op + 2 + length (ext_bytes (len - 510)) \<le> length m2" using 1(2) e m(3) by (simp add: appended_def)
    from 1(1) [OF a m(1,2) this] obtain m3 where
      m3: "put_match_run m2 (op + 2) (len - 510) = Ok (m3, op + 2 + length (ext_bytes (len - 510)))"
        "appended m2 (op + 2) (ext_bytes (len - 510)) m3" by blast
    have "appended m op (ext_bytes len) m3" unfolding e using appended_trans [OF m(3)] m3(2) by simp
    then show ?thesis using m(1,2) m3(1) a e by (simp add: put_match_run.simps [of m op len])
  next
    case a: 2
    then have "len - 255 < 255" by arith
    with a have e: "ext_bytes len = [255, word_of_nat (len - 255)]"
      by (simp add: ext_bytes.simps [of len] ext_bytes.simps [of "len - 255"])
    obtain m1 m2 where "store m op [255] = Ok m1" "store m1 (op + 1) [word_of_nat (len - 255)] = Ok m2"
      "appended m op [255, word_of_nat (len - 255)] m2" using two a by force
    then show ?thesis using a e by (simp add: put_match_run.simps [of m op len])
  next
    case a: 3
    then have e: "ext_bytes len = [word_of_nat len]" by (simp add: ext_bytes.simps)
    with 1(2) a show ?thesis using store_appended [of op "[word_of_nat len]" m]
      by (auto simp: put_match_run.simps [of m op len])
  qed
qed

lemma length_ext_bytes: "length (ext_bytes n) = n div 255 + 1"
proof (induction n rule: ext_bytes.induct)
  case (1 n)
  show ?case
  proof (cases "n < 255")
    case False
    then have "n div 255 = (n - 255) div 255 + 1" by (simp add: le_div_geq)
    then show ?thesis using 1 False by (simp add: ext_bytes.simps [of n])
  qed (simp add: ext_bytes.simps [of n])
qed

lemma length_ext_len: "length (ext_len n) \<le> n div 255 + 1" "length (ext_len n) \<le> n"
proof -
  have "(n - 15) div 255 \<le> n div 255" by (rule div_le_mono) simp
  moreover have "(n - 15) div 255 + 1 \<le> n" if "15 \<le> n" using that div_le_dividend [of "n - 15" 255] by linarith
  ultimately show "length (ext_len n) \<le> n div 255 + 1" "length (ext_len n) \<le> n"
    by (auto simp: ext_len_def length_ext_bytes)
qed

lemma put_literal_length_appended:
  assumes "op + 1 + length (ext_len len) \<le> length m"
  shows "\<exists>m1. put_literal_length m op len = Ok (m1, op + 1 + length (ext_len len))
    \<and> appended m op (lz4_token len 0 # ext_len len) m1"
proof (cases "15 \<le> len")
  case True
  then have e: "ext_len len = ext_bytes (len - 15)" "lz4_token len 0 = 240"
    by (simp_all add: ext_len_def lz4_token_def)
  obtain m1 where m1: "store m op [240] = Ok m1" "appended m op [240] m1"
    using store_appended [of op "[240]" m] assms by auto
  have "op + 1 + length (ext_bytes (len - 15)) \<le> length m1" using assms e m1(2) by (simp add: appended_def)
  from put_run_appended [OF this] obtain m2 where
    m2: "put_run m1 (op + 1) (len - 15) = Ok (m2, op + 1 + length (ext_bytes (len - 15)))"
      "appended m1 (op + 1) (ext_bytes (len - 15)) m2" by blast
  have "appended m op ([240] @ ext_bytes (len - 15)) m2" using appended_trans [OF m1(2)] m2(2) by simp
  then show ?thesis using True m1(1) m2(1) e by (simp add: put_literal_length_def)
next
  case False
  then have e: "ext_len len = []" "lz4_token len 0 = word_of_nat (len * 16)"
    by (simp_all add: ext_len_def lz4_token_def mult.commute)
  with False show ?thesis using store_appended [of op "[word_of_nat (len * 16)]" m] assms
    by (auto simp: put_literal_length_def)
qed

lemma put_literals_appended:
  assumes "anchor \<le> ip" "ip + 8 \<le> length src"
    and "op + 1 + length (ext_len (ip - anchor)) + (ip - anchor) + 8 \<le> length m"
  shows "\<exists>m1. put_literals src m op anchor ip = Ok (m1, op + 1 + length (ext_len (ip - anchor)) + (ip - anchor))
    \<and> appended m op (lz4_token (ip - anchor) 0 # ext_len (ip - anchor) @ take (ip - anchor) (drop anchor src)) m1"
proof -
  let ?L = "ip - anchor"
  let ?o = "op + 1 + length (ext_len ?L)"
  obtain m1 where m1: "put_literal_length m op ?L = Ok (m1, ?o)"
      "appended m op (lz4_token ?L 0 # ext_len ?L) m1"
    using put_literal_length_appended [of op ?L m] assms by auto
  have "length m1 = length m" using m1(2) by (simp add: appended_def)
  then obtain m2 where m2: "wild_copy src anchor m1 ?o (?o + ?L) = Ok m2"
      "appended m1 ?o (take ?L (drop anchor src)) m2"
    using wild_copy_appended [of ?o ?L m1 anchor src] assms by auto
  have "appended m op ((lz4_token ?L 0 # ext_len ?L) @ take ?L (drop anchor src)) m2"
    by (rule appended_trans [OF m1(2)]) (use m2(2) in simp)
  then show ?thesis using m1(1) m2(1) by (simp add: put_literals_def)
qed

lemma token_add: "lz4_token a 0 + word_of_nat (min b 15) = lz4_token a b"
  by (simp add: lz4_token_def)

lemma add_token_changes:
  assumes "take op m = xs @ b # ys" "op \<le> length m"
  shows "\<exists>m1. add_token m (length xs) v = Ok m1 \<and> length m1 = length m
    \<and> take op m1 = xs @ (b + word_of_nat v) # ys"
proof -
  have op: "op = length xs + Suc (length ys)" using arg_cong [OF assms(1), of length] assms(2) by simp
  then have "m ! length xs = take op m ! length xs" by simp
  then have b: "m ! length xs = b" unfolding assms(1) by simp
  let ?m = "take (length xs) m @ [b + word_of_nat v] @ drop (length xs + 1) m"
  have "add_token m (length xs) v = Ok ?m"
    using b op assms(2) by (simp add: add_token_def load_byte_def store_def)
  moreover have "take (length xs) m = xs"
    using arg_cong [OF assms(1), of "take (length xs)"] op by (simp add: min_def)
  moreover have "take (Suc (length ys)) (drop (length xs) m) = b # ys"
    using arg_cong [OF assms(1), of "drop (length xs)"] op by (simp add: drop_take)
  then have "take (length ys) (drop (length xs + 1) m) = ys"
    by (metis Suc_eq_plus1 add.commute drop_Suc_Cons drop0 drop_drop drop_take diff_Suc_Suc diff_zero One_nat_def)
  ultimately show ?thesis using op assms(2) by simp
qed

lemma put_match_length_writes:
  assumes "take op m = xs @ lz4_token a 0 # ys" "op + length (ext_len len) \<le> length m"
  shows "\<exists>m1. put_match_length m (length xs) op len = Ok (m1, op + length (ext_len len)) \<and> length m1 = length m
    \<and> take (op + length (ext_len len)) m1 = xs @ lz4_token a len # ys @ ext_len len"
proof (cases "15 \<le> len")
  case True
  then have e: "ext_len len = ext_bytes (len - 15)" by (simp add: ext_len_def)
  have t: "lz4_token a 0 + word_of_nat 15 = lz4_token a len"
    using token_add [of a len] True by (simp add: min_def split: if_splits)
  obtain m1 where m1: "add_token m (length xs) 15 = Ok m1" "length m1 = length m"
      "take op m1 = xs @ (lz4_token a 0 + word_of_nat 15) # ys"
    using add_token_changes [OF assms(1), of 15] assms(2) by auto
  obtain m2 where "put_match_run m1 op (len - 15) = Ok (m2, op + length (ext_bytes (len - 15)))"
      "appended m1 op (ext_bytes (len - 15)) m2"
    using put_match_run_appended [of op "len - 15" m1] assms(2) m1(2) e by auto
  then show ?thesis using m1 True e t by (simp add: put_match_length_def appended_def)
next
  case False
  then have e: "ext_len len = []" by (simp add: ext_len_def)
  have t: "lz4_token a 0 + word_of_nat len = lz4_token a len" using token_add [of a len] False by simp
  obtain m1 where "add_token m (length xs) len = Ok m1" "length m1 = length m"
      "take op m1 = xs @ (lz4_token a 0 + word_of_nat len) # ys"
    using add_token_changes [OF assms(1), of len] assms(2) by auto
  then show ?thesis using False e t by (simp add: put_match_length_def)
qed

section \<open>The block grows\<close>

text \<open>
  \<open>emitted\<close> is the invariant of the main loop: what has been written is the encoding of sequences
  that stand for the source up to \<^verbatim>\<open>anchor\<close>, and it is not longer than that part of the source by
  more than one byte in 255. \<open>pending\<close> is the state at the label \<^verbatim>\<open>_next_match\<close>: a token and its
  literals are written, the match is not.
\<close>

definition seqs_bytes :: "lz4_seq list \<Rightarrow> byte list" where
  "seqs_bytes ss = concat (map seq_bytes ss)"

definition emitted :: "byte list \<Rightarrow> byte list \<Rightarrow> nat \<Rightarrow> nat \<Rightarrow> lz4_seq list \<Rightarrow> bool" where
  "emitted src m op anchor ss \<longleftrightarrow> take op m = seqs_bytes ss \<and> expand ss [] = take anchor src
     \<and> seqs_ok (length src) 0 ss \<and> op \<le> anchor + anchor div 255 \<and> anchor \<le> length src"

definition pending :: "byte list \<Rightarrow> byte list \<Rightarrow> nat \<Rightarrow> nat \<Rightarrow> nat \<Rightarrow> byte list \<Rightarrow> lz4_seq list \<Rightarrow> bool" where
  "pending src m token op ip l ss \<longleftrightarrow> token = length (seqs_bytes ss)
     \<and> take op m = seqs_bytes ss @ lz4_token (length l) 0 # ext_len (length l) @ l
     \<and> expand ss [] @ l = take ip src \<and> seqs_ok (length src) 0 ss \<and> op \<le> ip + 2 + ip div 255"

definition kind_fits :: "lz4_kind \<Rightarrow> nat \<Rightarrow> bool" where
  \<comment> \<open>every distance of a match fits the two bytes of the offset\<close>
  "kind_fits k n \<longleftrightarrow> (case max_distance k of None \<Rightarrow> n \<le> 65547 | Some d \<Rightarrow> d < 65536)"

lemma near_offset: "kind_fits k n \<Longrightarrow> near k ref ip \<Longrightarrow> ip + 12 \<le> n \<Longrightarrow> ip - ref < 65536"
  by (auto simp: kind_fits_def near_def split: option.splits)

lemma div_255_add: "(a :: nat) div 255 + b div 255 \<le> (a + b) div 255"
  by (metis add_mult_distrib2 div_add1_eq le_add1)

lemma room_for: "a \<le> n \<Longrightarrow> a + a div 255 \<le> n + n div 255" for a n :: nat
  by (simp add: add_mono div_le_mono)

lemma copy_back_source:
  assumes "ref < ip" "agree src ref ip k" "ip + k \<le> length src"
  shows "copy_back (ip - ref) k (take ip src) = take (ip + k) src"
proof -
  have "src ! i = src ! (i - (ip - ref))" if "ip \<le> i" "i < ip + k" for i
  proof -
    have "src ! (ref + (i - ip)) = src ! (ip + (i - ip))" 
      using spec [OF assms(2) [unfolded agree_def], of "i - ip"] that by simp
    moreover have "ref + (i - ip) = i - (ip - ref)" using that assms(1) by simp
    ultimately show ?thesis using that by simp
  qed
  then have "periodic (ip - ref) ip (ip + k) src" by (simp add: periodic_def)
  then show ?thesis using copy_back_periodic [of "take ip src" src "ip - ref" k] assms by simp
qed

lemma seq_appended:
  assumes "expand ss [] @ l = take ip src" "seqs_ok (length src) 0 ss" "ref < ip" "ip - ref < 65536"
    and "agree src ref ip k" "4 \<le> k" "ip + 12 \<le> length src" "ip + k + 5 \<le> length src"
  shows "expand (ss @ [Seq l (ip - ref) k]) [] = take (ip + k) src"
    "seqs_ok (length src) 0 (ss @ [Seq l (ip - ref) k])"
proof -
  show "expand (ss @ [Seq l (ip - ref) k]) [] = take (ip + k) src"
    using copy_back_source [OF assms(3,5)] assms(1,8) by simp
  have "length (expand ss []) + length l = ip"
    using arg_cong [OF assms(1), of length] assms(7) by simp
  then show "seqs_ok (length src) 0 (ss @ [Seq l (ip - ref) k])"
    unfolding seqs_ok_append using assms length_expand [of ss "[]"] by simp
qed

lemma count_match_from:
  assumes "ref < ip" "ip \<le> P" "P + 4 \<le> lim" "lim \<le> length src" "agree src ref ip (P + 4 - ip)"
  obtains ip1 where "count_match src lim (ip + 4) (ref + 4) = Ok ip1" "P + 4 \<le> ip1" "ip1 \<le> lim"
    "agree src ref ip (ip1 - ip)"
proof -
  have b: "ip + 4 \<le> lim" using assms by simp
  obtain ip1 where c: "count_match src lim (ip + 4) (ref + 4) = Ok ip1" "counted src lim (ip + 4) (ref + 4) ip1"
    using count_match_counts [OF b assms(4), of "ref + 4"] assms(1) by auto
  have "agree src ref ip 4" by (rule agree_less [OF assms(5)]) (use assms in simp)
  then have "counted src lim ip ref ip1" by (rule counted_step [OF _ c(2)])
  then have d: "ip \<le> ip1" "ip1 \<le> lim" "agree src ref ip (ip1 - ip)"
    and e: "ip1 < lim \<Longrightarrow> \<not> agree src ref ip (Suc (ip1 - ip))" by (auto simp: counted_def)
  have "P + 4 \<le> ip1"
  proof (rule ccontr)
    assume n: "\<not> P + 4 \<le> ip1"
    then have "Suc (ip1 - ip) \<le> P + 4 - ip" using d(1) assms(2) by simp
    from agree_less [OF assms(5) this] e n assms(3) show False by simp
  qed
  with c(1) d show thesis by (intro that) auto
qed

definition chunk_done :: "byte list \<Rightarrow> nat \<Rightarrow> chunk \<Rightarrow> bool" where
  "chunk_done src n c = (case c of
     Chunk_end m op a \<Rightarrow> length m = n \<and> (\<exists>ss. emitted src m op a ss)
   | Chunk_next tbl m op ip \<Rightarrow> length m = n \<and> ip + 12 \<le> length src \<and> (\<forall>i. tbl i \<le> ip)
       \<and> (\<exists>ss. emitted src m op ip ss))"

lemma match_written:
  assumes src: "n = length src" and cap: "n + n div 255 \<le> length m"
    and pend: "pending src m token op ip l ss" and ref: "ref < ip" "ip - ref < 65536"
    and P: "ip \<le> P" "P + 12 \<le> n" "agree src ref ip (P + 4 - ip)"
  obtains m1 ip1 m2 op2 where
    "store m op [word_of_nat (ip - ref), word_of_nat ((ip - ref) div 256)] = Ok m1"
    "count_match src (n - 5) (ip + 4) (ref + 4) = Ok ip1" "P + 4 \<le> ip1" "ip1 \<le> n - 5"
    "put_match_length m1 token (op + 2) (ip1 - (ip + 4)) = Ok (m2, op2)" "length m2 = length m"
    "emitted src m2 op2 ip1 (ss @ [Seq l (ip - ref) (ip1 - ip)])"
proof -
  obtain ip1 where c: "count_match src (n - 5) (ip + 4) (ref + 4) = Ok ip1" "P + 4 \<le> ip1" "ip1 \<le> n - 5"
      "agree src ref ip (ip1 - ip)"
    by (rule count_match_from [OF ref(1) P(1) _ _ P(3), of "n - 5"]) (use P src in auto)
  let ?off = "[word_of_nat (ip - ref), word_of_nat ((ip - ref) div 256)] :: byte list"
  let ?len = "ip1 - (ip + 4)"
  let ?op2 = "op + 2 + length (ext_len ?len)"
  have op: "op \<le> ip + 2 + ip div 255" using pend by (simp add: pending_def)
  have ip: "ip + (ip1 - ip) = ip1" "4 \<le> ip1 - ip" "ip1 - ip - 4 = ?len" "ip1 + 5 \<le> n" "ip + 12 \<le> n"
    using c P by simp_all
  have "?op2 \<le> ip + 4 + ?len + ip div 255" using op length_ext_len(2) [of ?len] by simp
  also have "\<dots> \<le> ip1 + ip1 div 255" using ip c(2) P(1) div_le_mono [of ip ip1 255] by simp
  finally have op2: "?op2 \<le> ip1 + ip1 div 255" .
  also have "\<dots> \<le> length m" using room_for [of ip1 n] ip cap by simp
  finally have room: "?op2 \<le> length m" .
  obtain m1 where m1: "store m op ?off = Ok m1" "appended m op ?off m1"
    using store_appended [of op ?off m] room by auto
  have t: "take (op + 2) m1 = seqs_bytes ss @ lz4_token (length l) 0 # ext_len (length l) @ l @ ?off"
    using m1(2) pend by (simp add: appended_def pending_def)
  obtain m2 where m2: "put_match_length m1 (length (seqs_bytes ss)) (op + 2) ?len = Ok (m2, ?op2)"
      "length m2 = length m1" "take ?op2 m2 = seqs_bytes ss @ lz4_token (length l) ?len
         # (ext_len (length l) @ l @ ?off) @ ext_len ?len"
    using put_match_length_writes [OF t, of ?len] room m1(2) by (auto simp: appended_def)
  have "take ?op2 m2 = seqs_bytes (ss @ [Seq l (ip - ref) (ip1 - ip)])"
    unfolding m2(3) by (simp add: seqs_bytes_def)
  moreover note seq_appended [of ss l ip src ref "ip1 - ip"]
  ultimately have "emitted src m2 ?op2 ip1 (ss @ [Seq l (ip - ref) (ip1 - ip)])"
    using pend ref c(4) ip src op2 by (simp add: emitted_def pending_def)
  then show thesis using m1 m2 c pend by (intro that [of m1 ip1 m2 ?op2]) (auto simp: appended_def pending_def)
qed

lemma next_match_writes:
  assumes "n = length src" "n + n div 255 \<le> length m" "kind_fits k n"
    and "pending src m token op ip l ss" "ref < ip" "ip - ref < 65536"
    and "ip \<le> P" "P + 12 \<le> n" "agree src ref ip (P + 4 - ip)" "\<And>i. tbl i \<le> P"
  shows "\<exists>c. next_match k src n tbl m token op ip ref = Ok c \<and> chunk_done src (length m) c"
  using assms(2,4-10)
proof (induction "n - ip" arbitrary: tbl m token op ip l ss ref P rule: less_induct)
  case less
  obtain m1 ip1 m2 op2 where w:
    "store m op [word_of_nat (ip - ref), word_of_nat ((ip - ref) div 256)] = Ok m1"
    "count_match src (n - 5) (ip + 4) (ref + 4) = Ok ip1" "P + 4 \<le> ip1" "ip1 \<le> n - 5"
    "put_match_length m1 token (op + 2) (ip1 - (ip + 4)) = Ok (m2, op2)" "length m2 = length m"
    and em: "emitted src m2 op2 ip1 (ss @ [Seq l (ip - ref) (ip1 - ip)])"
    by (rule match_written [OF assms(1) less.prems(1-7)])
  show ?case
  proof (cases "n - 12 < ip1")
    case True
    then have "next_match k src n tbl m token op ip ref = Ok (Chunk_end m2 op2 ip1)"
      using w by (simp add: next_match.simps [of k src n tbl m] Let_def)
    then show ?thesis using em w(6) by (auto simp: chunk_done_def)
  next
    case False
    then have ip1: "ip1 + 12 \<le> n" using w(3) less.prems(6) by simp
    have "ip1 - 2 + 4 \<le> length src" using ip1 assms(1) by arith
    then obtain h2 where h2: "hash_value k src (ip1 - 2) = Ok h2"
      using hash_value_Ok [of "ip1 - 2" src k] by auto
    obtain h where h: "hash_value k src ip1 = Ok h"
      using hash_value_Ok [of ip1 src k] ip1 assms(1) by auto
    let ?t1 = "set_entry k tbl h2 (ip1 - 2)"
    let ?t2 = "set_entry k ?t1 h ip1"
    have t1: "?t1 i < ip1" for i
      using set_entry_le [of k tbl h2 "ip1 - 2" i] less.prems(8) [of i] w(3) by simp
    have t2: "?t2 i \<le> ip1" for i
      using set_entry_le [of k ?t1 h ip1 i] t1 [of i] by simp
    let ?ref1 = "?t1 h"
    have c: "candidate k src ?ref1 ip1 = Ok (near k ?ref1 ip1 \<and> agree src ?ref1 ip1 4)"
      by (rule candidate_Ok) (use t1 [of h] ip1 assms(1) in auto)
    show ?thesis
    proof (cases "near k ?ref1 ip1 \<and> agree src ?ref1 ip1 4")
      case hit: True
      have "op2 \<le> ip1 + ip1 div 255" using em by (simp add: emitted_def)
      moreover have "ip1 + ip1 div 255 + 1 \<le> length m2"
        using room_for [of "ip1 + 1" n] ip1 less.prems(1) w(6) div_le_mono [of ip1 "ip1 + 1" 255] by simp
      ultimately have o1: "op2 + 1 \<le> length m2" by simp
      then obtain m3 where m3: "store m2 op2 [0] = Ok m3" "appended m2 op2 [0] m3"
        using store_appended [of op2 "[0]" m2] by auto
      have l3: "length m3 = length m" using m3(2) w(6) by (simp add: appended_def)
      let ?ss = "ss @ [Seq l (ip - ref) (ip1 - ip)]"
      have t2b: "take op2 m2 = seqs_bytes ?ss" using em by (simp only: emitted_def)
      have o2: "op2 = length (seqs_bytes ?ss)"
        using arg_cong [OF t2b, of length] o1 by simp
      have "pending src m3 op2 (op2 + 1) ip1 [] ?ss"
        using em m3(2) o2 by (simp add: pending_def emitted_def appended_def lz4_token_def ext_len_def)
      moreover have "ip1 - ?ref1 < 65536" using near_offset [OF assms(3)] hit ip1 by simp
      moreover have "n - ip1 < n - ip" using w(3) less.prems(5) ip1 by simp
      ultimately obtain c' where c': "next_match k src n ?t2 m3 op2 (op2 + 1) ip1 ?ref1 = Ok c'"
          "chunk_done src (length m3) c'"
        using less.hyps [of ip1 m3 op2 "op2 + 1" "[]" ?ss ?ref1 ip1 ?t2] l3 less.prems(1) t1 [of h] t2 hit ip1
        by auto
      have "next_match k src n tbl m token op ip ref = Ok c'"
        using w(1,2,5) False h2 h c hit m3(1) c'(1) by (simp add: next_match.simps [of k src n tbl m] Let_def)
      then show ?thesis using c'(2) l3 by simp
    next
      case miss: False
      have "next_match k src n tbl m token op ip ref = Ok (Chunk_next ?t2 m2 op2 ip1)"
        using w(1,2,5) False h2 h c miss by (simp add: next_match.simps [of k src n tbl m] Let_def)
      then show ?thesis using em w(6) t2 ip1 assms(1) by (auto simp: chunk_done_def)
    qed
  qed
qed

section \<open>The whole compressor\<close>

lemma literals_pending:
  assumes "emitted src m op anchor ss" "anchor \<le> ip" "ip + 12 \<le> length src"
    and "length src + length src div 255 \<le> length m"
  obtains m1 op1 where "put_literals src m op anchor ip = Ok (m1, op1)" "length m1 = length m"
    "pending src m1 op op1 ip (take (ip - anchor) (drop anchor src)) ss"
proof -
  let ?L = "ip - anchor"
  let ?l = "take ?L (drop anchor src)"
  let ?op1 = "op + 1 + length (ext_len ?L) + ?L"
  have em: "take op m = seqs_bytes ss" "expand ss [] = take anchor src" "seqs_ok (length src) 0 ss"
    "op \<le> anchor + anchor div 255" using assms(1) by (simp_all add: emitted_def)
  have "?op1 \<le> anchor + anchor div 255 + 1 + (?L div 255 + 1) + ?L"
    using em(4) length_ext_len(1) [of ?L] by linarith
  also have "\<dots> \<le> ip + 2 + ip div 255" using div_255_add [of anchor ?L] assms(2) by simp
  finally have op1: "?op1 \<le> ip + 2 + ip div 255" .
  moreover have "ip + 2 + ip div 255 + 8 \<le> length m"
    using room_for [of "ip + 10" "length src"] assms(3,4) div_le_mono [of ip "ip + 10" 255] by simp
  ultimately have room: "?op1 + 8 \<le> length m" by linarith
  obtain m1 where m1: "put_literals src m op anchor ip = Ok (m1, ?op1)"
      "appended m op (lz4_token ?L 0 # ext_len ?L @ ?l) m1"
    using put_literals_appended [of anchor ip src op m] assms room by auto
  have "length (seqs_bytes ss) = op" using arg_cong [OF em(1), of length] room by simp
  moreover have "length ?l = ?L" using assms by simp
  moreover have "take anchor src @ ?l = take ip src"
    using take_add [of anchor ?L src] assms(2) by simp
  ultimately have "pending src m1 op ?op1 ip ?l ss"
    using m1(2) em op1 by (simp add: pending_def appended_def add.assoc)
  with m1 show thesis by (intro that [of m1 ?op1]) (simp_all add: appended_def)
qed

lemma compress_loop_emits:
  assumes "n = length src" "n + n div 255 \<le> length m" "kind_fits k n"
    and "emitted src m op anchor ss" "anchor + 12 \<le> n" "\<And>i. tbl i \<le> anchor"
  shows "\<exists>m' op' a ss'. compress_loop k src n tbl m op anchor h = Ok (m', op', a)
    \<and> length m' = length m \<and> emitted src m' op' a ss'"
  using assms(2,4-6)
proof (induction "n - anchor" arbitrary: tbl m op anchor ss h rule: less_induct)
  case less
  have "tbl i < anchor + 1" for i using less.prems(4) [of i] by simp
  then obtain s where s: "find_match k src (n - 12) tbl (anchor + 1) 67 h = Ok s" "case s of No_match \<Rightarrow> True
    | Match ref ip' tbl' \<Rightarrow> anchor + 1 \<le> ip' \<and> ip' < n - 12 \<and> found_at k src ref ip' \<and> (\<forall>i. tbl' i \<le> ip')"
    using find_match_finds [of "n - 12" src tbl "anchor + 1" 67 k h] less.prems(3) assms(1) by auto
  show ?case
  proof (cases s)
    case No_match
    then show ?thesis using s(1) less.prems(2) by (auto simp: compress_loop.simps [of k src n tbl m])
  next
    case (Match ref0 ip0 tbl1)
    with s(2) have f: "anchor + 1 \<le> ip0" "ip0 < n - 12" "ref0 < ip0" "near k ref0 ip0" "agree src ref0 ip0 4"
      and t1: "\<And>i. tbl1 i \<le> ip0" by (auto simp: found_at_def)
    have "ip0 \<le> length src" using f(2) assms(1) by simp
    then obtain d where d: "catch_up src anchor ip0 ref0 = Ok (ip0 - d, ref0 - d)" "d \<le> ip0 - anchor" "d \<le> ref0"
        "agree src (ref0 - d) (ip0 - d) d"
      using catch_up_finds [of ref0 ip0 anchor src] f assms(1) by auto
    let ?ip = "ip0 - d" and ?ref = "ref0 - d"
    have ip: "anchor \<le> ?ip" "?ip + 12 \<le> n" "?ip \<le> ip0" "?ref < ?ip" "?ip - ?ref = ip0 - ref0"
      using d(2,3) f by auto
    have off: "?ip - ?ref < 65536" unfolding ip(5) using near_offset [OF assms(3) f(4)] f(2) by simp
    have e: "?ref + d = ref0" "?ip + d = ip0" "ip0 + 4 - ?ip = d + 4" using d(2,3) f by auto
    have ag: "agree src ?ref ?ip (ip0 + 4 - ?ip)" unfolding e(3) agree_add e(1,2) using d(4) f(5) by simp
    obtain m1 op1 where m1: "put_literals src m op anchor ?ip = Ok (m1, op1)" "length m1 = length m"
        "pending src m1 op op1 ?ip (take (?ip - anchor) (drop anchor src)) ss"
      using literals_pending [OF less.prems(2) ip(1)] ip(2) less.prems(1) assms(1) by auto
    have cap: "n + n div 255 \<le> length m1" using less.prems(1) m1(2) by simp
    have P: "ip0 + 12 \<le> n" using f(2) by simp
    obtain c where c: "next_match k src n tbl1 m1 op op1 ?ip ?ref = Ok c" "chunk_done src (length m1) c"
      using next_match_writes [where tbl = tbl1, OF assms(1) cap assms(3) m1(3) ip(4) off ip(3) P ag t1] by blast
    show ?thesis
    proof (cases c)
      case (Chunk_end m2 op2 a)
      then show ?thesis using s(1) Match d(1) m1(1,2) c
        by (auto simp: compress_loop.simps [of k src n tbl m] chunk_done_def)
    next
      case (Chunk_next tbl2 m2 op2 ip2)
      with c(2) obtain ss2 where n2: "length m2 = length m" "ip2 + 12 \<le> n" "\<And>i. tbl2 i \<le> ip2"
          "emitted src m2 op2 ip2 ss2" using m1(2) assms(1) by (auto simp: chunk_done_def)
      have adv: "?ip + 4 \<le> ip2" using next_match_advances c(1) Chunk_next by blast
      obtain h2 where h2: "hash_value k src (ip2 + 1) = Ok h2"
        using hash_value_Ok [of "ip2 + 1" src k] n2(2) assms(1) by auto
      have "n - ip2 < n - anchor" using adv ip(1) n2(2) by simp
      from less.hyps [where h = h2 and tbl = tbl2, OF this _ n2(4,2,3)] n2(1) less.prems(1)
      obtain m' op' a ss' where r: "compress_loop k src n tbl2 m2 op2 ip2 h2 = Ok (m', op', a)"
          "length m' = length m" "emitted src m' op' a ss'" by auto
      then show ?thesis using s(1) Match d(1) m1(1) c(1) Chunk_next h2
        by (auto simp: compress_loop.simps [of k src n tbl m])
    qed
  qed
qed

definition compresses :: "byte list \<Rightarrow> byte list \<Rightarrow> (int \<times> byte list) access \<Rightarrow> bool" where
  \<comment> \<open>0, or the size of a block that stands for the source and is at least 99 bytes shorter\<close>
  "compresses src dest r = (\<exists>n m. r = Ok (n, m) \<and> length m = length dest \<and>
     (n = 0 \<or> (\<exists>ss l. n = int (length (block_bytes ss l)) \<and> take (nat n) m = block_bytes ss l
        \<and> block_ok ss l \<and> block_data ss l = src \<and> n + 99 \<le> int (length src))))"

lemma compressesI:
  assumes "length m = length dest" "length (block_bytes ss l) = k" "take k m = block_bytes ss l"
    and "block_ok ss l" "block_data ss l = src" "k + 99 \<le> length src"
  shows "compresses src dest (Ok (int k, m))"
proof -
  have "int k = int (length (block_bytes ss l)) \<and> take (nat (int k)) m = block_bytes ss l
      \<and> block_ok ss l \<and> block_data ss l = src \<and> int k + 99 \<le> int (length src)"
    using assms by simp
  then show ?thesis unfolding compresses_def using assms(1) by blast
qed

lemma put_last_literals_compresses:
  assumes "emitted src m op anchor ss" "length src \<le> length m" "length src < 2 ^ 31"
  shows "compresses src m (put_last_literals src m op anchor (length src))"
proof -
  let ?n = "length src"
  define L where "L = ?n - anchor"
  let ?l = "drop anchor src"
  have em: "take op m = seqs_bytes ss" "expand ss [] = take anchor src" "seqs_ok ?n 0 ss" "anchor \<le> ?n"
    using assms(1) by (simp_all add: emitted_def)
  show ?thesis
  proof (cases "?n < op + L + 1 + (L - 15) div 255 + 100")
    case True
    then have "put_last_literals src m op anchor ?n = Ok (0, m)"
      unfolding put_last_literals_def Let_def L_def [symmetric] by (rule if_P)
    then show ?thesis by (simp add: compresses_def)
  next
    case False
    let ?op1 = "op + 1 + length (ext_len L)"
    have ext: "length (ext_len L) \<le> (L - 15) div 255 + 1" by (simp add: ext_len_def length_ext_bytes)
    then have fits: "?op1 + L + 99 \<le> ?n" using False by linarith
    obtain m1 where m1: "put_literal_length m op L = Ok (m1, ?op1)"
        "appended m op (lz4_token L 0 # ext_len L) m1"
      using put_literal_length_appended [of op L m] fits assms(2) by auto
    obtain m2 where m2: "store m1 ?op1 ?l = Ok m2" "appended m1 ?op1 ?l m2"
      using store_appended [of ?op1 ?l m1] fits assms(2) m1(2) by (auto simp: appended_def L_def [symmetric])
    have "appended m op ((lz4_token L 0 # ext_len L) @ ?l) m2"
      by (rule appended_trans [OF m1(2)]) (use m2(2) in simp)
    moreover have op: "op = length (seqs_bytes ss)"
      using arg_cong [OF em(1), of length] fits assms(2) by simp
    ultimately have t: "length m2 = length m" "take (?op1 + L) m2 = block_bytes ss ?l"
      using em(1) by (simp_all add: appended_def block_bytes_def last_bytes_def seqs_bytes_def add.assoc
        L_def [symmetric])
    have len: "length (block_bytes ss ?l) = ?op1 + L"
      using op by (simp add: block_bytes_def last_bytes_def seqs_bytes_def L_def [symmetric])
    have data: "block_data ss ?l = src" using em(2) by (simp add: block_data_def)
    then have ok: "block_ok ss ?l" using em(3) by (simp add: block_ok_def)
    have ld: "load Input_overread src anchor L = Ok ?l" using em(4) by (simp add: load_def L_def)
    have i: "int32 (int (?op1 + L)) = int (?op1 + L)" by (rule int32_id) (use fits assms(3) in auto)
    have r: "put_last_literals src m op anchor ?n = Ok (int (?op1 + L), m2)"
      using False m1(1) m2(1) i 
      unfolding put_last_literals_def Let_def L_def [symmetric] by (simp add: ld add.assoc)
    have "compresses src m (Ok (int (?op1 + L), m2))"
      by (rule compressesI [OF t(1) len t(2) ok data fits])
    then show ?thesis unfolding r .
  qed
qed

lemma emitted_start: "emitted src m 0 0 []"
  by (simp add: emitted_def seqs_bytes_def)

lemma compresses_same: "compresses src m r \<Longrightarrow> length m = length m' \<Longrightarrow> compresses src m' r"
  by (simp add: compresses_def)

lemma compress_loop_compresses:
  assumes "n = length src" "13 \<le> n" "n < 2 ^ 31" "n + n div 255 \<le> length m" "kind_fits k n" "\<And>i. tbl i = 0"
  shows "compresses src m (and_then (hash_value k src 1) (\<lambda>h. and_then (compress_loop k src n tbl m 0 0 h)
    (\<lambda>(m, op, anchor). put_last_literals src m op anchor n)))"
proof -
  obtain h where h: "hash_value k src 1 = Ok h" using hash_value_Ok [of 1 src k] assms(1,2) by auto
  obtain m' op a ss where r: "compress_loop k src n tbl m 0 0 h = Ok (m', op, a)" "length m' = length m"
      "emitted src m' op a ss"
    using compress_loop_emits [OF assms(1,4,5) emitted_start, of tbl h] assms(2,6) by auto
  have "compresses src m' (put_last_literals src m' op a n)"
    using put_last_literals_compresses [OF r(3)] r(2) assms(1,3,4) by simp
  then show ?thesis using h r compresses_same by auto
qed

lemma LZ4_compress_compresses:
  assumes "n = length src" "n < 2 ^ 31" "n + n div 255 \<le> length dest"
  shows "compresses src dest (LZ4_compress src dest n)"
proof -
  have short: "compresses src dest (put_last_literals src dest 0 0 n)" if "n < 13"
    using put_last_literals_compresses [OF emitted_start] assms by simp
  show ?thesis
  proof (cases "n < 65547")
    case True
    then have "kind_fits ctx64k_kind n" by (simp add: kind_fits_def ctx64k_kind_def)
    then show ?thesis using short compress_loop_compresses [OF assms(1) _ assms(2,3)] True
      by (auto simp: LZ4_compress_def LZ4_compress64kCtx_def)
  next
    case False
    have k: "kind_fits ctx_kind n" by (simp add: kind_fits_def ctx_kind_def)
    obtain h0 where "hash_value ctx_kind src 0 = Ok h0" using hash_value_Ok [of 0 src ctx_kind] assms(1) False by auto
    moreover have "set_entry ctx_kind (\<lambda>_. 0) h0 0 i = 0" for i by (simp add: set_entry_def)
    ultimately show ?thesis using short compress_loop_compresses [OF assms(1) _ assms(2,3) k] False
      by (auto simp: LZ4_compress_def LZ4_compressCtx_def)
  qed
qed

section \<open>Properties\<close>

text \<open>What a successful run of the compressor gives its caller.\<close>

lemma compress_run:
  assumes "length src < 2 ^ 31" "length src + length src div 255 \<le> length dest"
  obtains (fails) m where "LZ4_compress src dest (length src) = Ok (0, m)" "length m = length dest"
  | (shrinks) n m where "LZ4_compress src dest (length src) = Ok (int n, m)" "length m = length dest"
      "0 < n" "n + 99 \<le> length src"
      "\<And>out. length out = length src \<Longrightarrow> LZ4_uncompress (take n m) out (int (length src)) = Ok (int n, src)"
proof -
  from LZ4_compress_compresses [OF refl assms] obtain k m where
    k: "LZ4_compress src dest (length src) = Ok (k, m)" "length m = length dest" and
    c: "k = 0 \<or> (\<exists>ss l. k = int (length (block_bytes ss l)) \<and> take (nat k) m = block_bytes ss l
        \<and> block_ok ss l \<and> block_data ss l = src \<and> k + 99 \<le> int (length src))"
    unfolding compresses_def by blast
  from c show thesis
  proof (elim disjE exE conjE)
    assume "k = 0"
    with k show thesis by (intro fails [of m]) simp_all
  next
    fix ss l
    assume b: "k = int (length (block_bytes ss l))" "take (nat k) m = block_bytes ss l" "block_ok ss l"
      "block_data ss l = src" "k + 99 \<le> int (length src)"
    have i: "int32 (int (length (block_bytes ss l))) = int (length (block_bytes ss l))"
      by (rule int32_id) (use b assms(1) in auto)
    show thesis
    proof (rule shrinks [of "length (block_bytes ss l)" m])
      show "LZ4_uncompress (take (length (block_bytes ss l)) m) out (int (length src))
          = Ok (int (length (block_bytes ss l)), src)" if "length out = length src" for out
        using uncompress_block_lemma [OF b(3), of out] b assms(1) that i by simp
    qed (use k b block_bytes_length [of l ss] in auto)
  qed
qed

text \<open>
  C14: for every source below 2 GiB and an output buffer of the size the program allocates (it
  allocates one byte in 250 more than the source, one in 255 is enough), \<^verbatim>\<open>LZ4_compress\<close> returns
  without leaving a buffer. It returns 0, or it saves at least 99 bytes and \<^verbatim>\<open>LZ4_uncompress\<close> turns
  what it wrote back into exactly the source and consumes all of it.
\<close>

theorem LZ4_round_trip:
  assumes "length src < 2 ^ 31" "length src + length src div 255 \<le> length dest" "length out = length src"
  shows "\<exists>n m. LZ4_compress src dest (length src) = Ok (n, m) \<and> length m = length dest
    \<and> (n = 0 \<or> 0 < n \<and> n + 99 \<le> int (length src)
        \<and> LZ4_uncompress (take (nat n) m) out (int (length src)) = Ok (n, src))"
  using assms by (cases rule: compress_run [OF assms(1,2)]) auto

lemmas compressor_defs = LZ4_compress_def LZ4_compress64kCtx_def compress_loop.simps [of _ "replicate 120 7" 120 _ _ _ 0]
  find_match.simps drop_bit_eq_div candidate_def same_at_def A32_def A64_def A16_def load_def load_byte_def
  set_entry_def catch_up.simps put_literals_def put_literal_length_def store_def wild_copy.simps next_match.simps
  count_match.simps count_tail_def put_match_length_def add_token_def put_match_run.simps put_last_literals_def

lemma demo_hash:
  "hash_value ctx64k_kind (replicate 120 7) p = (if p + 4 \<le> 120 then Ok 85 else Fault Input_overread)"
proof -
  have "replicate 4 (7 :: byte) = [7, 7, 7, 7]" by (simp add: numeral_eq_Suc)
  then show ?thesis by (simp add: hash_value_def A32_def load_def ctx64k_kind_def unat_drop_bit_eq drop_bit_eq_div)
qed

lemma demo_compress: "\<exists>m. LZ4_compress (replicate 120 7) (replicate 120 0) 120 = Ok (11, m)"
  by (simp add: compressor_defs demo_hash demo_hash [unfolded ctx64k_kind_def] ctx64k_kind_def Let_def int32_id)

theorem LZ4_round_trip_witness:
  "\<exists>m. LZ4_compress (replicate 120 7) (replicate 120 0) 120 = Ok (11, m)
    \<and> LZ4_uncompress (take 11 m) (replicate 120 1) 120 = Ok (11, replicate 120 7)"
  using LZ4_round_trip [of "replicate 120 7" "replicate 120 0" "replicate 120 1"] demo_compress by auto

end
