(* ===== verification/Rhizo_Messages.thy ===== *)
theory Rhizo_Messages
  imports Rhizo_Mapping Rhizo_LZ4_Compress
begin

text \<open>
  Model of \<^verbatim>\<open>src/datablock.c\<close>, \<^verbatim>\<open>src/request.c\<close> and \<^verbatim>\<open>src/response.c\<close>: the data blocks of the
  protocol and the life cycle of requests and responses.

  The two LZ4 functions the code calls are the models of \<^verbatim>\<open>src/lz4.c\<close>; a fault inside them is a
  fault of the caller. What \<^verbatim>\<open>malloc\<close> leaves in a buffer is taken to be zero, which no theorem
  depends on. protobuf and ZeroMQ are outside the repository: packing hands over the message as it
  is, and whether ZeroMQ can allocate the message is read off the script of allocation outcomes.

  What is proved: a block that was filled is read back; the buffer of the compressor is large
  enough; which blocks the functions allocate and free under every allocation failure; the reads
  that double free, overflow or leave the block for the blocks an attacker can send.
\<close>

fun access_fault :: "lz4_fault \<Rightarrow> fault" where
  "access_fault Input_overread = Buffer_overread"
| "access_fault Output_overread = Buffer_overread"
| "access_fault Output_overflow = Buffer_overflow"
| "access_fault Int_overflow = Signed_overflow"

section \<open>Data blocks\<close>

definition DataBlock_create :: "'a heap_scheme \<Rightarrow> data_block option \<times> 'a heap_scheme" where
  "DataBlock_create h =
     (if alloc_ok h then (Some \<lparr>db_size = 0, db_data = [], db_compression = COMPR_NONE\<rparr>, alloc_next h)
      else (None, alloc_next h))"

definition DataBlock_destroy :: "data_block option \<Rightarrow> 'a heap_scheme \<Rightarrow> 'a heap_scheme" where
  "DataBlock_destroy dblk h =
     (case dblk of
        None \<Rightarrow> h
      | Some d \<Rightarrow> release 1 (if db_data d \<noteq> [] then release 1 h else h))"

definition free_block_data :: "data_block \<Rightarrow> 'a heap_scheme \<Rightarrow> data_block \<times> 'a heap_scheme" where
  "free_block_data d h = (d\<lparr>db_data := []\<rparr>, if db_data d \<noteq> [] then release 1 h else h)"

definition set_lz4_compressed_data :: "data_block \<Rightarrow> byte list \<Rightarrow> 'a heap_scheme
    \<Rightarrow> int \<times> data_block \<times> 'a heap_scheme" where
  "set_lz4_compressed_data d data h =
     (if \<not> alloc_ok h then (-1, d\<lparr>db_data := []\<rparr>, alloc_next h)
      else
        case LZ4_compress data (replicate (length data + length data div 250) 0) (length data) of
          Fault f \<Rightarrow> (-1, d\<lparr>db_data := []\<rparr>, release 1 (add_fault (access_fault f) (alloc_next h)))
        | Ok (n, out) \<Rightarrow>
            (if n = 0 then (-1, d\<lparr>db_data := []\<rparr>, release 1 (alloc_next h))
             else (n, d\<lparr>db_data := take (nat n) out\<rparr>, alloc_next h)))"

definition set_plain_data :: "data_block \<Rightarrow> byte list \<Rightarrow> 'a heap_scheme
    \<Rightarrow> bool \<times> data_block \<times> 'a heap_scheme" where
  \<comment> \<open>the fallback of \<open>DataBlock_set_data\<close>, up to the end of the function\<close>
  "set_plain_data d data h =
     (if \<not> alloc_ok h then (False, d\<lparr>db_data := []\<rparr>, alloc_next h)
      else (True, d\<lparr>db_data := data, db_compression := COMPR_NONE, db_size := int (length data)\<rparr>,
            alloc_next h))"

definition DataBlock_set_data :: "data_block \<Rightarrow> byte list \<Rightarrow> compression_type \<Rightarrow> 'a heap_scheme
    \<Rightarrow> bool \<times> data_block \<times> 'a heap_scheme" where
  "DataBlock_set_data d data compression h =
     (if data = [] then (let (d1, h1) = free_block_data d h in (True, d1, h1))
      else let compression_method = (if length data > 100 then compression else COMPR_NONE) in
        case compression_method of
          COMPR_NONE \<Rightarrow> set_plain_data d data h
        | COMPR_LZ4 \<Rightarrow>
            (let (n, d1, h1) = set_lz4_compressed_data d data h in
             if n \<noteq> -1 then (True, d1\<lparr>db_compression := COMPR_LZ4, db_size := int (length data)\<rparr>, h1)
             else set_plain_data d1 data h1)
        | COMPR_unlisted _ \<Rightarrow> (let (d1, h1) = free_block_data d h in (False, d1, h1)))"

text \<open>
  \<^verbatim>\<open>calloc\<close> of a size: sizes no object can have always fail. The buffer of \<open>DataBlock_get_data\<close> is
  the result of the two readers: \<open>Some\<close> with the return value, or \<open>None\<close> for -1, when
  \<open>freed\<close> tells whether a buffer was allocated and freed again while \<^verbatim>\<open>*data\<close> still points to it.
\<close>

definition calloc_ok :: "nat \<Rightarrow> 'a heap_scheme \<Rightarrow> bool" where
  "calloc_ok n h \<longleftrightarrow> n < 2 ^ 63 \<and> alloc_ok h"

definition calloc_next :: "nat \<Rightarrow> 'a heap_scheme \<Rightarrow> 'a heap_scheme" where
  "calloc_next n h = (if n < 2 ^ 63 then alloc_next h else h)"

definition get_uncompressed_data :: "data_block \<Rightarrow> 'a heap_scheme
    \<Rightarrow> (int \<times> byte list) option \<times> 'a heap_scheme" where
  \<comment> \<open>with \<open>do_alloc\<close>\<close>
  "get_uncompressed_data d h =
     (let len = length (db_data d) in
      if \<not> calloc_ok len h then (None, calloc_next len h)
      else (Some (int32 (int len), db_data d), calloc_next len h))"

definition lz4_decode :: "data_block \<Rightarrow> nat \<Rightarrow> 'a heap_scheme \<Rightarrow> byte list option \<times> 'a heap_scheme" where
  \<comment> \<open>the call of \<^verbatim>\<open>LZ4_uncompress\<close> and the two checks of what it returns\<close>
  "lz4_decode d len h =
     (case LZ4_uncompress (db_data d) (replicate len 0) (int32 (int len)) of
        Fault f \<Rightarrow> (None, add_fault (access_fault f) h)
      | Ok (n, out) \<Rightarrow> (if 0 \<le> n \<and> length (db_data d) = nat n then Some out else None, h))"

definition get_lz4_compressed_data :: "data_block \<Rightarrow> 'a heap_scheme
    \<Rightarrow> (int \<times> byte list) option \<times> bool \<times> 'a heap_scheme" where
  \<comment> \<open>with \<open>do_alloc\<close>; the flag: the buffer has been freed\<close>
  "get_lz4_compressed_data d h =
     (let len = size_t (db_size d) in
      if \<not> calloc_ok len h then (None, False, calloc_next len h)
      else
        case lz4_decode d len (calloc_next len h) of
          (None, h1) \<Rightarrow> (None, True, release 1 h1)
        | (Some out, h1) \<Rightarrow> (Some (int32 (int len), out), False, h1))"

definition DataBlock_get_data :: "data_block \<Rightarrow> 'a heap_scheme
    \<Rightarrow> (int \<times> byte list) option \<times> 'a heap_scheme" where
  \<comment> \<open>called with \<^verbatim>\<open>*data\<close> NULL, as its one caller does; \<open>None\<close> is -1\<close>
  "DataBlock_get_data d h =
     (case db_compression d of
        COMPR_NONE \<Rightarrow>
          (case get_uncompressed_data d h of
             (None, h1) \<Rightarrow> (None, h1)
           | (Some (len, out), h1) \<Rightarrow>
               (if len > -1 then (Some (len, out), h1) else (None, release 1 h1)))
      | COMPR_LZ4 \<Rightarrow>
          (case get_lz4_compressed_data d h of
             (None, freed, h1) \<Rightarrow>
               \<comment> \<open>\<^verbatim>\<open>if (*data != NULL) free(*data)\<close> after the callee has freed it\<close>
               (None, if freed then add_fault Double_free h1 else h1)
           | (Some (len, out), _, h1) \<Rightarrow>
               (if len > -1 then (Some (len, out), h1) else (None, release 1 h1)))
      | COMPR_unlisted _ \<Rightarrow> (None, h))"

text \<open>
  Reading into a buffer of the caller of \<open>data_len\<close> bytes. The check compares \<open>data_len\<close> with
  the uncompressed size the block states, the copy of an uncompressed block uses the length of
  its data.
\<close>

definition DataBlock_get_data_noalloc :: "data_block \<Rightarrow> nat \<Rightarrow> 'a heap_scheme
    \<Rightarrow> (int \<times> byte list) option \<times> 'a heap_scheme" where
  "DataBlock_get_data_noalloc d data_len h =
     (if \<not> data_len \<ge> size_t (db_size d) then (None, h)
      else case db_compression d of
        COMPR_NONE \<Rightarrow>
          (let len = int32 (int (length (db_data d)));
               h1 = store_upto data_len (length (db_data d)) h
           in if len > -1 then (Some (len, db_data d), h1) else (None, h1))
      | COMPR_LZ4 \<Rightarrow>
          (case lz4_decode d (size_t (db_size d)) h of
             (None, h1) \<Rightarrow> (None, h1)
           | (Some out, h1) \<Rightarrow>
               (let len = int32 (int (size_t (db_size d))) in
                if len > -1 then (Some (len, out), h1) else (None, h1)))
      | COMPR_unlisted _ \<Rightarrow> (None, h))"

section \<open>Requests\<close>

abbreviation (input) current_version :: version where
  "current_version \<equiv> \<lparr>v_major = 0, v_minor = 2, v_patch = 7\<rparr>"

definition empty_request :: request where
  \<comment> \<open>\<^verbatim>\<open>RHIZOFS__REQUEST__INIT\<close>\<close>
  "empty_request = \<lparr>rq_type = STAT, rq_version = None, rq_path = None, rq_permissions = None,
     rq_path_to = None, rq_openflags = None, rq_datablock = None, rq_size = None, rq_offset = None,
     rq_filetype = None, rq_timestamps = None\<rparr>"

definition Request_init :: "'a heap_scheme \<Rightarrow> request option \<times> 'a heap_scheme" where
  "Request_init h =
     (if alloc_ok h then (Some (empty_request\<lparr>rq_version := Some current_version\<rparr>), alloc_next h)
      else (None, alloc_next h))"

definition Request_create :: "'a heap_scheme \<Rightarrow> request option \<times> 'a heap_scheme" where
  "Request_create h =
     (if \<not> alloc_ok h then (None, alloc_next h)
      else (case Request_init (alloc_next h) of
              (None, h1) \<Rightarrow> (None, release 1 h1)
            | (Some r, h1) \<Rightarrow> (Some r, h1)))"

definition Request_deinit :: "request \<Rightarrow> 'a heap_scheme \<Rightarrow> 'a heap_scheme" where
  \<comment> \<open>the paths belong to the caller\<close>
  "Request_deinit r h =
     TimeSet_destroy (rq_timestamps r) (Permissions_destroy (rq_permissions r)
       (OpenFlags_destroy (rq_openflags r) (DataBlock_destroy (rq_datablock r)
         (release (of_opt (\<lambda>_. 1) (rq_version r)) h))))"

definition Request_destroy :: "request option \<Rightarrow> 'a heap_scheme \<Rightarrow> 'a heap_scheme" where
  "Request_destroy r h = (case r of None \<Rightarrow> h | Some r \<Rightarrow> release 1 (Request_deinit r h))"

definition Request_pack :: "request \<Rightarrow> 'a heap_scheme \<Rightarrow> request option \<times> 'a heap_scheme" where
  "Request_pack r h = (if alloc_ok h then Some r else None, realloc_next h)"

definition Request_set_data :: "request \<Rightarrow> byte list \<Rightarrow> 'a heap_scheme
    \<Rightarrow> bool \<times> request \<times> 'a heap_scheme" where
  "Request_set_data r data h =
     (if rq_datablock r \<noteq> None then (False, r, h)
      else case DataBlock_create h of
        (None, h1) \<Rightarrow> (False, r, h1)
      | (Some d, h1) \<Rightarrow>
          (let (success, d1, h2) = DataBlock_set_data d data COMPR_LZ4 h1 in
           if \<not> success then (False, r, DataBlock_destroy (Some d1) h2)
           else (True, r\<lparr>rq_datablock := Some d1\<rparr>, h2)))"

definition Request_has_data :: "request \<Rightarrow> int" where
  "Request_has_data r = (case rq_datablock r of None \<Rightarrow> -1 | Some d \<Rightarrow> int32 (db_size d))"

section \<open>Responses\<close>

definition empty_response :: response where
  \<comment> \<open>\<^verbatim>\<open>RHIZOFS__RESPONSE__INIT\<close>\<close>
  "empty_response = \<lparr>rs_type = STAT, rs_version = None, rs_errnotype = ERRNO_NONE, rs_entries = [],
     rs_entries_block = False, rs_entries_freed = False, rs_attrs = None, rs_datablock = None,
     rs_size = None, rs_link_target = None, rs_statfs = None\<rparr>"

definition Response_create :: "'a heap_scheme \<Rightarrow> response option \<times> 'a heap_scheme" where
  "Response_create h =
     (if \<not> alloc_ok h then (None, alloc_next h)
      else let h1 = alloc_next h in
        if \<not> alloc_ok h1 then (None, release 1 (alloc_next h1))
        else (Some (empty_response\<lparr>rs_version := Some current_version\<rparr>), alloc_next h1))"

definition destroy_entries :: "response \<Rightarrow> 'a heap_scheme \<Rightarrow> 'a heap_scheme" where
  \<comment> \<open>the loop over \<open>n_directory_entries\<close> and the array itself\<close>
  "destroy_entries r h =
     (if rs_entries r = [] then h
      else if rs_entries_freed r then add_fault Double_free h
      else release 1 (fold (\<lambda>a. Attrs_destroy (Some a)) (rs_entries r) h))"

definition Response_destroy :: "response option \<Rightarrow> 'a heap_scheme \<Rightarrow> 'a heap_scheme" where
  "Response_destroy r h =
     (case r of
        None \<Rightarrow> h
      | Some r \<Rightarrow> release 1 (release (of_opt (\<lambda>_. 1) (rs_version r))
          (DataBlock_destroy (rs_datablock r)
            (destroy_entries r (Attrs_destroy (rs_attrs r) h)))))"

definition Response_pack :: "response \<Rightarrow> 'a heap_scheme \<Rightarrow> response option \<times> 'a heap_scheme" where
  \<comment> \<open>packing reads the directory entries\<close>
  "Response_pack r h =
     (let h1 = (if rs_entries r \<noteq> [] \<and> rs_entries_freed r then add_fault Use_after_free h else h)
      in (if alloc_ok h1 then Some r else None, realloc_next h1))"

definition Response_set_data :: "response \<Rightarrow> byte list \<Rightarrow> 'a heap_scheme
    \<Rightarrow> bool \<times> response \<times> 'a heap_scheme" where
  "Response_set_data r data h =
     (if rs_datablock r \<noteq> None then (False, r, h)
      else case DataBlock_create h of
        (None, h1) \<Rightarrow> (False, r, h1)
      | (Some d, h1) \<Rightarrow>
          (let (success, d1, h2) = DataBlock_set_data d data COMPR_LZ4 h1 in
           if \<not> success then (False, r, DataBlock_destroy (Some d1) h2)
           else (True, r\<lparr>rs_datablock := Some d1\<rparr>, h2)))"

definition Response_set_errno :: "int \<Rightarrow> response \<Rightarrow> response" where
  "Response_set_errno eno r = r\<lparr>rs_errnotype := Errno_from_local eno\<rparr>"

definition Response_get_errno :: "response \<Rightarrow> int" where
  "Response_get_errno r = Errno_to_local (rs_errnotype r)"

definition Response_has_data :: "response \<Rightarrow> int" where
  "Response_has_data r = (case rs_datablock r of None \<Rightarrow> -1 | Some d \<Rightarrow> int32 (db_size d))"

section \<open>What a block holds\<close>

definition block_holds :: "data_block \<Rightarrow> byte list \<Rightarrow> bool" where
  "block_holds d data \<longleftrightarrow> db_size d = int (length data) \<and>
     (case db_compression d of
        COMPR_NONE \<Rightarrow> db_data d = data
      | COMPR_LZ4 \<Rightarrow> LZ4_uncompress (db_data d) (replicate (length data) 0) (int (length data))
          = Ok (int (length (db_data d)), data)
      | COMPR_unlisted _ \<Rightarrow> False)"

definition new_block :: data_block where
  "new_block = \<lparr>db_size = 0, db_data = [], db_compression = COMPR_NONE\<rparr>"

lemma DataBlock_create_simps:
  "alloc_ok h \<Longrightarrow> DataBlock_create h = (Some new_block, alloc_next h)"
  "\<not> alloc_ok h \<Longrightarrow> DataBlock_create h = (None, alloc_next h)"
  by (simp_all add: DataBlock_create_def new_block_def)

lemma DataBlock_destroy_simps [simp]:
  "DataBlock_destroy None h = h"
  "DataBlock_destroy (Some d) h = release (data_block_blocks d) h"
  by (simp_all add: DataBlock_destroy_def data_block_blocks_def heap_simps)

lemma set_plain_data_cases:
  obtains (fail) "set_plain_data d data h = (False, d\<lparr>db_data := []\<rparr>, alloc_next h)" "\<not> alloc_ok h"
  | (ok) "alloc_ok h" "set_plain_data d data h = (True, d\<lparr>db_data := data, db_compression := COMPR_NONE,
      db_size := int (length data)\<rparr>, alloc_next h)"
  by (cases "alloc_ok h") (simp_all add: set_plain_data_def)

text \<open>
  The buffer \<open>set_lz4_compressed_data\<close> allocates is large enough for everything the compressor
  writes, so it never faults, and what it leaves in the block is decompressed completely.
\<close>

lemma set_lz4_cases:
  assumes "length data < 2 ^ 31"
  obtains
    (nomem) "set_lz4_compressed_data d data h = (-1, d\<lparr>db_data := []\<rparr>, alloc_next h)" "\<not> alloc_ok h"
  | (fail) "set_lz4_compressed_data d data h = (-1, d\<lparr>db_data := []\<rparr>, release 1 (alloc_next h))" "alloc_ok h"
  | (ok) out where "set_lz4_compressed_data d data h = (int (length out), d\<lparr>db_data := out\<rparr>, alloc_next h)"
      "alloc_ok h" "out \<noteq> []"
      "LZ4_uncompress out (replicate (length data) 0) (int (length data)) = Ok (int (length out), data)"
proof (cases "alloc_ok h")
  case False
  then show thesis by (intro nomem) (simp_all add: set_lz4_compressed_data_def)
next
  case True
  let ?dest = "replicate (length data + length data div 250) 0 :: byte list"
  have room: "length data + length data div 255 \<le> length ?dest" by (simp add: div_le_mono2)
  show thesis
  proof (rule compress_run [OF assms room], goal_cases)
    case (1 m)
    with True show thesis by (intro fail) (simp_all add: set_lz4_compressed_data_def)
  next
    case (2 n m)
    then have "length (take n m) = n" by simp
    with 2 True show thesis
      by (intro ok [of "take n m"]) (auto simp: set_lz4_compressed_data_def)
  qed
qed

lemma DataBlock_set_data_cases:
  assumes "length data < 2 ^ 31"
  obtains
    (fail) d h' where "DataBlock_set_data new_block data COMPR_LZ4 h = (False, d, h')"
      "db_data d = []" "live h' = live h" "faults h' = faults h"
  | (ok) d h' where "DataBlock_set_data new_block data COMPR_LZ4 h = (True, d, h')"
      "live h' = live h + (data_block_blocks d - 1)" "faults h' = faults h" "block_holds d data"
proof -
  have plain: thesis
    if "DataBlock_set_data new_block data COMPR_LZ4 h = set_plain_data (new_block\<lparr>db_data := []\<rparr>) data h1"
      "data \<noteq> []" "live h1 = live h" "faults h1 = faults h" for h1
    by (rule set_plain_data_cases [of "new_block\<lparr>db_data := []\<rparr>" data h1])
       (use that in \<open>auto intro: fail ok simp: heap_simps new_block_def data_block_blocks_def block_holds_def\<close>)
  consider (empty) "data = []" | (small) "data \<noteq> []" "length data \<le> 100" | (large) "length data > 100"
    by linarith
  then show thesis
  proof cases
    case empty
    then show thesis
      by (intro ok [of new_block h])
         (auto simp: DataBlock_set_data_def free_block_data_def new_block_def data_block_blocks_def block_holds_def)
  next
    case small
    then show thesis
      by (intro plain [of h]) (simp_all add: DataBlock_set_data_def new_block_def)
  next
    case large
    then have ne: "data \<noteq> []" by auto
    show thesis
    proof (rule set_lz4_cases [OF assms, of new_block h], goal_cases)
      case 1
      with large ne show thesis
        by (intro plain [of "alloc_next h"]) (simp_all add: DataBlock_set_data_def heap_simps)
    next
      case 2
      with large ne show thesis
        by (intro plain [of "release 1 (alloc_next h)"]) (simp_all add: DataBlock_set_data_def heap_simps)
    next
      case (3 out)
      with large ne show thesis
        by (intro ok [of "new_block\<lparr>db_data := out, db_compression := COMPR_LZ4,
              db_size := int (length data)\<rparr>" "alloc_next h"])
           (simp_all add: DataBlock_set_data_def data_block_blocks_def block_holds_def heap_simps)
    qed
  qed
qed

section \<open>Reading a block\<close>

lemma size_t_length: "length (data :: byte list) < 2 ^ 31 \<Longrightarrow> size_t (int (length data)) = length data"
  by (simp add: size_t_of_nat)

lemma get_data_holds:
  assumes "block_holds d data" "length data < 2 ^ 31"
  shows "DataBlock_get_data d h =
    (if alloc_ok h then (Some (int (length data), data), alloc_next h) else (None, alloc_next h))"
  using assms size_t_length [OF assms(2)] int32_id [of "int (length data)"]
  by (cases "db_compression d")
     (auto simp: block_holds_def DataBlock_get_data_def get_uncompressed_data_def calloc_ok_def
        calloc_next_def get_lz4_compressed_data_def lz4_decode_def Let_def)

lemma get_data_noalloc_holds:
  assumes "block_holds d data" "length data < 2 ^ 31" "length data \<le> data_len"
  shows "DataBlock_get_data_noalloc d data_len h = (Some (int (length data), data), h)"
  using assms size_t_length [OF assms(2)] int32_id [of "int (length data)"]
  by (cases "db_compression d")
     (auto simp: block_holds_def DataBlock_get_data_noalloc_def lz4_decode_def Let_def heap_simps)

text \<open>What the two readers do with an arbitrary block, such as one a peer sends.\<close>

lemma lz4_decode_frame [heap_simps]:
  "live (snd (lz4_decode d n h)) = live h" "outcomes (snd (lz4_decode d n h)) = outcomes h"
  by (simp_all add: lz4_decode_def heap_simps split: access.split prod.split)

lemma DataBlock_get_data_cases:
  obtains
    (fail) h' where "DataBlock_get_data d h = (None, h')" "live h' = live h"
      "faults h' = faults h \<or> db_compression d = COMPR_LZ4"
  | (ok) len out h' where "DataBlock_get_data d h = (Some (len, out), h')" "live h' = live h + 1"
      "faults h' = faults h" "len > -1"
proof -
  have "(\<exists>h'. DataBlock_get_data d h = (None, h') \<and> live h' = live h \<and>
        (faults h' = faults h \<or> db_compression d = COMPR_LZ4))
      \<or> (\<exists>len out h'. DataBlock_get_data d h = (Some (len, out), h') \<and> live h' = live h + 1
        \<and> faults h' = faults h \<and> len > -1)"
    by (cases "db_compression d")
       (auto simp: DataBlock_get_data_def get_uncompressed_data_def calloc_ok_def calloc_next_def
          get_lz4_compressed_data_def lz4_decode_def Let_def heap_simps split: option.splits prod.splits access.splits)
  with fail ok show thesis by blast
qed

section \<open>Life cycle of the messages\<close>

definition request_blocks :: "request \<Rightarrow> int" where
  "request_blocks r = 1 + of_opt (\<lambda>_. 1) (rq_version r) + of_opt data_block_blocks (rq_datablock r)
     + of_opt (\<lambda>_. 1) (rq_openflags r) + of_opt permissions_blocks (rq_permissions r)
     + of_opt (\<lambda>_. 1) (rq_timestamps r)"

definition new_request :: request where
  "new_request = empty_request\<lparr>rq_version := Some current_version\<rparr>"

definition new_response :: response where
  "new_response = empty_response\<lparr>rs_version := Some current_version\<rparr>"

lemma new_blocks [simp]: "request_blocks new_request = 2" "response_blocks new_response = 2"
  by (simp_all add: new_request_def request_blocks_def empty_request_def new_response_def
      response_blocks_def empty_response_def)

lemma Request_create_cases:
  obtains (fail) h' where "Request_create h = (None, h')" "live h' = live h" "faults h' = faults h"
      "outcomes h \<noteq> []"
  | (ok) h' where "Request_create h = (Some new_request, h')" "live h' = live h + 2" "faults h' = faults h"
  using that [of "snd (Request_create h)"]
  by (cases "alloc_ok h"; cases "alloc_ok (alloc_next h)")
     (auto simp: Request_create_def Request_init_def heap_simps new_request_def alloc_ok_def
       split: list.splits)

lemma Response_create_cases:
  obtains (fail) h' where "Response_create h = (None, h')" "live h' = live h" "faults h' = faults h"
      "outcomes h \<noteq> []"
  | (ok) h' where "Response_create h = (Some new_response, h')" "live h' = live h + 2"
      "faults h' = faults h"
  using that [of "snd (Response_create h)"]
  by (cases "alloc_ok h"; cases "alloc_ok (alloc_next h)")
     (auto simp: Response_create_def heap_simps new_response_def alloc_ok_def Let_def
       split: list.splits)

lemma Request_destroy_Some [simp]: "Request_destroy (Some r) h = release (request_blocks r) h"
  by (auto simp: Request_destroy_def Request_deinit_def request_blocks_def heap_simps of_opt_def
      OpenFlags_destroy_def TimeSet_destroy_def algebra_simps split: option.splits)

definition response_leak :: "response \<Rightarrow> int" where
  \<comment> \<open>what \<open>Response_destroy\<close> does not free\<close>
  "response_leak r = of_opt (\<lambda>_. 1) (rs_link_target r) + of_opt (\<lambda>_. 1) (rs_statfs r)
     + (if rs_entries r = [] \<and> rs_entries_block r \<and> \<not> rs_entries_freed r then 1 else 0)"

definition entries_usable :: "response \<Rightarrow> bool" where
  "entries_usable r \<longleftrightarrow> (rs_entries r \<noteq> [] \<longrightarrow> rs_entries_block r \<and> \<not> rs_entries_freed r)"

definition entries_owned :: "response \<Rightarrow> bool" where
  "entries_owned r \<longleftrightarrow> (rs_entries r \<noteq> [] \<longrightarrow> rs_entries_block r)"

lemmas entries_defs = entries_usable_def entries_owned_def

lemma fold_Attrs_destroy:
  "fold (\<lambda>a. Attrs_destroy (Some a)) as h = release (sum_list (map attrs_blocks as)) h"
  by (induction as arbitrary: h) (simp_all add: heap_simps algebra_simps)

lemma Response_destroy_usable:
  assumes "entries_usable r"
  shows "Response_destroy (Some r) h = release (response_blocks r - response_leak r) h"
proof -
  have e: "destroy_entries r h = release (sum_list (map attrs_blocks (rs_entries r))
      + (if rs_entries r = [] then 0 else 1)) h" for h :: "'a heap_scheme"
    using assms by (simp add: destroy_entries_def entries_usable_def fold_Attrs_destroy heap_simps add.commute)
  have a: "Attrs_destroy (rs_attrs r) h = release (of_opt attrs_blocks (rs_attrs r)) h"
    "DataBlock_destroy (rs_datablock r) h = release (of_opt data_block_blocks (rs_datablock r)) h"
    for h :: "'a heap_scheme"
    by (cases "rs_attrs r"; cases "rs_datablock r"; simp add: heap_simps)+
  show ?thesis
    using assms
    by (auto simp: Response_destroy_def e a heap_simps response_blocks_def response_leak_def
        entries_usable_def algebra_simps)
qed

lemma Response_destroy_live:
  assumes "entries_owned r"
  shows "live (Response_destroy (Some r) h) = live h - response_blocks r + response_leak r"
proof (cases "entries_usable r")
  case True
  then show ?thesis by (simp add: Response_destroy_usable heap_simps)
next
  case False
  with assms show ?thesis
    by (cases "rs_attrs r"; cases "rs_datablock r")
       (auto simp: entries_defs Response_destroy_def destroy_entries_def heap_simps
          response_blocks_def response_leak_def)
qed

lemma Response_pack_simps:
  "entries_usable r \<Longrightarrow> Response_pack r h = (if alloc_ok h then Some r else None, realloc_next h)"
  by (auto simp: Response_pack_def entries_usable_def Let_def)

lemma Response_set_errno_simps [simp]:
  "rs_errnotype (Response_set_errno e r) = Errno_from_local e"
  "rs_type (Response_set_errno e r) = rs_type r" "rs_version (Response_set_errno e r) = rs_version r"
  "rs_entries (Response_set_errno e r) = rs_entries r" "rs_attrs (Response_set_errno e r) = rs_attrs r"
  "rs_entries_block (Response_set_errno e r) = rs_entries_block r"
  "rs_entries_freed (Response_set_errno e r) = rs_entries_freed r"
  "rs_datablock (Response_set_errno e r) = rs_datablock r" "rs_size (Response_set_errno e r) = rs_size r"
  "rs_link_target (Response_set_errno e r) = rs_link_target r"
  "rs_statfs (Response_set_errno e r) = rs_statfs r"
  "response_blocks (Response_set_errno e r) = response_blocks r"
  "entries_usable (Response_set_errno e r) = entries_usable r"
  "entries_owned (Response_set_errno e r) = entries_owned r"
  by (simp_all add: Response_set_errno_def response_blocks_def entries_defs)

lemma Response_set_data_cases:
  assumes "length data < 2 ^ 31" "rs_datablock r = None"
  obtains
    (fail) h' where "Response_set_data r data h = (False, r, h')" "live h' = live h" "faults h' = faults h"
  | (ok) d h' where "Response_set_data r data h = (True, r\<lparr>rs_datablock := Some d\<rparr>, h')"
      "live h' = live h + data_block_blocks d" "faults h' = faults h" "block_holds d data"
proof (cases "alloc_ok h")
  case False
  with assms(2) show thesis
    by (intro fail [of "alloc_next h"]) (simp_all add: Response_set_data_def DataBlock_create_simps heap_simps)
next
  case True
  show thesis
  proof (rule DataBlock_set_data_cases [OF assms(1), of "alloc_next h"], goal_cases)
    case (1 d h')
    with True assms(2) show thesis
      by (intro fail [of "DataBlock_destroy (Some d) h'"])
         (auto simp: Response_set_data_def DataBlock_create_simps heap_simps data_block_blocks_def)
  next
    case (2 d h')
    with True assms(2) show thesis
      by (intro ok [of d h']) (auto simp: Response_set_data_def DataBlock_create_simps heap_simps)
  qed
qed

lemma Request_set_data_cases:
  assumes "length data < 2 ^ 31" "rq_datablock r = None"
  obtains
    (fail) h' where "Request_set_data r data h = (False, r, h')" "live h' = live h" "faults h' = faults h"
  | (ok) d h' where "Request_set_data r data h = (True, r\<lparr>rq_datablock := Some d\<rparr>, h')"
      "live h' = live h + data_block_blocks d" "faults h' = faults h" "block_holds d data"
proof (cases "alloc_ok h")
  case False
  with assms(2) show thesis
    by (intro fail [of "alloc_next h"]) (simp_all add: Request_set_data_def DataBlock_create_simps heap_simps)
next
  case True
  show thesis
  proof (rule DataBlock_set_data_cases [OF assms(1), of "alloc_next h"], goal_cases)
    case (1 d h')
    with True assms(2) show thesis
      by (intro fail [of "DataBlock_destroy (Some d) h'"])
         (auto simp: Request_set_data_def DataBlock_create_simps heap_simps data_block_blocks_def)
  next
    case (2 d h')
    with True assms(2) show thesis
      by (intro ok [of d h']) (auto simp: Request_set_data_def DataBlock_create_simps heap_simps)
  qed
qed

section \<open>Properties\<close>

text \<open>
  C29: data put into a fresh block with \<open>DataBlock_set_data\<close> is what both readers give back,
  compressed or not, whichever allocations fell through to the uncompressed fallback, for all data
  shorter than \<open>2 ^ 31\<close> bytes.
\<close>

theorem DataBlock_round_trip:
  assumes "length data < 2 ^ 31" "DataBlock_set_data new_block data COMPR_LZ4 h = (True, d, h')"
    and "alloc_ok h2" "length data \<le> data_len"
  shows "DataBlock_get_data d h2 = (Some (int (length data), data), alloc_next h2)
    \<and> DataBlock_get_data_noalloc d data_len h2 = (Some (int (length data), data), h2)"
proof -
  have "block_holds d data"
    by (rule DataBlock_set_data_cases [OF assms(1), of h]) (use assms(2) in auto)
  then show ?thesis
    using get_data_holds [of d data h2] get_data_noalloc_holds [of d data data_len h2] assms(1,3,4)
    by simp
qed

lemma demo_set_data:
  "\<exists>out. DataBlock_set_data new_block (replicate 120 7) COMPR_LZ4 quiet_heap
     = (True, \<lparr>db_size = 120, db_data = out, db_compression = COMPR_LZ4\<rparr>, quiet_heap\<lparr>live := 1\<rparr>)"
  using demo_compress
  by (auto simp: DataBlock_set_data_def set_lz4_compressed_data_def new_block_def quiet_heap_def alloc_ok_def alloc_next_def)

theorem DataBlock_round_trip_witness:
  "\<exists>d h'. DataBlock_set_data new_block (replicate 120 7) COMPR_LZ4 quiet_heap = (True, d, h')
    \<and> db_compression d = COMPR_LZ4
    \<and> DataBlock_get_data_noalloc d 200 quiet_heap = (Some (120, replicate 120 7), quiet_heap)"
proof -
  obtain d h' where s: "DataBlock_set_data new_block (replicate 120 7) COMPR_LZ4 quiet_heap = (True, d, h')"
    and c: "db_compression d = COMPR_LZ4" using demo_set_data by fastforce
  have "alloc_ok quiet_heap" by (simp add: quiet_heap_def heap_simps)
  from DataBlock_round_trip [OF _ s this, of 200] s c show ?thesis by simp
qed

text \<open>
  Reading a compressed block the decompressor rejects, or does not consume to its end,
  frees the output buffer twice: the reader frees it and \<open>DataBlock_get_data\<close> frees the pointer
  it left behind again. This is what a malformed WRITE request does to the server.
\<close>

theorem malformed_block_double_free:
  assumes "db_compression d = COMPR_LZ4" "size_t (db_size d) < 2 ^ 63" "alloc_ok h"
    and "LZ4_uncompress (db_data d) (replicate (size_t (db_size d)) 0) (int32 (int (size_t (db_size d)))) = Ok (n, out)"
    and "n < 0 \<or> nat n \<noteq> length (db_data d)"
  shows "fst (DataBlock_get_data d h) = None
    \<and> faults (snd (DataBlock_get_data d h)) = faults h @ [Double_free]"
  using assms
  by (auto simp: DataBlock_get_data_def get_lz4_compressed_data_def lz4_decode_def calloc_ok_def calloc_next_def
      heap_simps Let_def)

theorem malformed_block_double_free_witness:
  "faults (snd (DataBlock_get_data \<lparr>db_size = 4, db_data = [0x50], db_compression = COMPR_LZ4\<rparr> quiet_heap))
     = [Double_free]"
proof -
  have "LZ4_uncompress [0x50] (replicate 4 0) 4 = Ok (-1, replicate 4 0)"
    by (simp add: LZ4_uncompress_def uncompress_loop.simps load_byte_def read_length_def drop_bit_eq_div int32_id)
  then show ?thesis
    using malformed_block_double_free [of "\<lparr>db_size = 4, db_data = [0x50], db_compression = COMPR_LZ4\<rparr>" quiet_heap
      "-1" "replicate 4 0"]
    by (simp add: size_t_def quiet_heap_def heap_simps int32_id)
qed

text \<open>
  C35: the decompressor the program uses has no bound on its input: a block of bytes 255, as a peer
  can send it, is read beyond its end, whatever output size it states, and the buffer is freed
  twice after that.
\<close>

theorem malformed_block_overread:
  assumes "db_data d = replicate n 255" "0 < n" "n \<le> 8421504"
    and "db_compression d = COMPR_LZ4" "size_t (db_size d) < 2 ^ 63" "alloc_ok h"
  shows "faults (snd (DataBlock_get_data d h)) = faults h @ [Buffer_overread, Double_free]"
  using assms uncompress_runs_out [OF assms(2,3)]
  by (auto simp: DataBlock_get_data_def get_lz4_compressed_data_def lz4_decode_def calloc_ok_def calloc_next_def
      heap_simps Let_def)

theorem malformed_block_overread_witness:
  "faults (snd (DataBlock_get_data \<lparr>db_size = 4, db_data = [255], db_compression = COMPR_LZ4\<rparr> quiet_heap))
     = [Buffer_overread, Double_free]"
  using malformed_block_overread [of "\<lparr>db_size = 4, db_data = [255], db_compression = COMPR_LZ4\<rparr>" 1 quiet_heap]
  by (simp add: size_t_def quiet_heap_def heap_simps)



text \<open>
  Destroying a response gives back everything it owns except its link target, its file
  system statistics and an array of no directory entries: every READLINK and STATFS that
  succeeds, and every listing of a directory in which nothing can be examined, leaks a block.
\<close>

theorem Response_destroy_leaks:
  assumes "entries_usable r"
  shows "live (Response_destroy (Some r) h) = live h - response_blocks r
     + of_opt (\<lambda>_. 1) (rs_link_target r) + of_opt (\<lambda>_. 1) (rs_statfs r)
     + (if rs_entries r = [] \<and> rs_entries_block r \<and> \<not> rs_entries_freed r then 1 else 0)
   \<and> faults (Response_destroy (Some r) h) = faults h"
  by (simp add: Response_destroy_usable [OF assms] heap_simps response_leak_def)

theorem Response_destroy_leaks_witness:
  "live (Response_destroy (Some (new_response\<lparr>rs_link_target := Some ''t''\<rparr>)) (quiet_heap\<lparr>live := 3\<rparr>)) = 1"
  using Response_destroy_leaks [of "new_response\<lparr>rs_link_target := Some ''t''\<rparr>" "quiet_heap\<lparr>live := 3\<rparr>"]
  by (simp add: new_response_def empty_response_def entries_usable_def response_blocks_def)

end
