(* ===== verification/Rhizo_Path.thy ===== *)
theory Rhizo_Path
  imports Rhizo_Prelude
begin

text \<open>
  Model of \<^verbatim>\<open>src/path.c\<close>. \<open>path_join\<close> computes the size of its buffer, the separator it has to
  add and then copies with \<^verbatim>\<open>strcpy\<close>; the model keeps the three apart, so that a copy that
  leaves the buffer is a fault. A C string is the list of its characters without the
  terminator. What is proved: the joined string in every case, exactly when the copies stay
  inside the buffer, and that the components of the joined path are those of the two parts.

  The unused helpers \<^verbatim>\<open>path_join_real\<close>, \<^verbatim>\<open>path_basename\<close> and \<^verbatim>\<open>path_dirname\<close> are modelled on the
  library functions they wrap: \<^verbatim>\<open>realpath\<close> is a parameter, \<^verbatim>\<open>basename\<close> and \<^verbatim>\<open>dirname\<close> are
  written out.
\<close>

abbreviation (input) PATH_SEP :: char where "PATH_SEP \<equiv> CHR ''/''"

definition join_adds_separator :: "string \<Rightarrow> string \<Rightarrow> bool" where
  \<comment> \<open>\<^verbatim>\<open>add_seperator\<close> after both length computations\<close>
  "join_adds_separator path1 path2 =
     (let add = (path1 \<noteq> [] \<and> last path1 \<noteq> PATH_SEP) in
      if path2 \<noteq> [] \<and> hd path2 = PATH_SEP then False else add)"

definition join_length :: "string \<Rightarrow> string \<Rightarrow> int" where
  \<comment> \<open>\<^verbatim>\<open>lenpathjoined\<close>\<close>
  "join_length path1 path2 =
     (let n = (if path1 \<noteq> [] then int (length path1) + (if last path1 \<noteq> PATH_SEP then 1 else 0)
               else 0) in
      if path2 \<noteq> [] then n + int (length path2) - (if hd path2 = PATH_SEP then 1 else 0) else n)"

text \<open>
  \<open>None\<close> is the return value -1. The first \<^verbatim>\<open>strcpy\<close> writes \<^verbatim>\<open>path1\<close> and its terminator, the
  second \<^verbatim>\<open>path2\<close> and its terminator behind it.
\<close>

definition path_join :: "string option \<Rightarrow> string option \<Rightarrow> 'a heap_scheme \<Rightarrow> string option \<times> 'a heap_scheme" where
  "path_join path1 path2 h =
     (case path1 of None \<Rightarrow> (None, h) | Some p1 \<Rightarrow>
      (case path2 of None \<Rightarrow> (None, h) | Some p2 \<Rightarrow>
        (if \<not> alloc_ok h then (None, alloc_next h)
         else let
           cap = nat (join_length p1 p2 + 1);
           add = (if join_adds_separator p1 p2 then 1 else 0);
           h1 = store_upto cap (length p1 + 1) (alloc_next h);
           h2 = store_upto cap (length p1 + add + length p2 + 1) h1
         in (Some (p1 @ (if add = (1::nat) then [PATH_SEP] else []) @ p2), h2))))"

definition joined :: "string \<Rightarrow> string \<Rightarrow> string" where
  "joined p1 p2 = p1 @ (if join_adds_separator p1 p2 then [PATH_SEP] else []) @ p2"

text \<open>The two shapes of arguments for which the buffer is one byte too small.\<close>

definition join_overflows :: "string \<Rightarrow> string \<Rightarrow> bool" where
  "join_overflows p1 p2 \<longleftrightarrow> p2 \<noteq> [] \<and> hd p2 = PATH_SEP \<and> (p1 = [] \<or> last p1 = PATH_SEP)"

lemma join_capacity:
  "nat (join_length p1 p2 + 1) =
     (if join_overflows p1 p2 then length (joined p1 p2) else length (joined p1 p2) + 1)"
  by (cases p1 rule: rev_cases; cases p2)
     (auto simp: join_length_def joined_def join_adds_separator_def join_overflows_def)

lemma length_joined:
  "length (joined p1 p2) = length p1 + (if join_adds_separator p1 p2 then 1 else 0) + length p2"
  by (simp add: joined_def)

lemma overflow_nonempty: "join_overflows p1 p2 \<Longrightarrow> length p1 + 1 \<le> length (joined p1 p2)"
  by (cases p2) (auto simp: join_overflows_def joined_def)

lemma path_join_NULL [simp]: "path_join None p2 h = (None, h)" "path_join p1 None h = (None, h)"
  by (simp_all add: path_join_def split: option.splits)

lemma path_join_nomem: "\<not> alloc_ok h \<Longrightarrow> path_join (Some p1) (Some p2) h = (None, alloc_next h)"
  by (simp add: path_join_def)

lemma path_join_ok:
  "alloc_ok h \<Longrightarrow> path_join (Some p1) (Some p2) h =
     (Some (joined p1 p2),
      if join_overflows p1 p2 then add_fault Buffer_overflow (alloc_next h) else alloc_next h)"
  using overflow_nonempty [of p1 p2] join_capacity [of p1 p2]
  by (cases "join_adds_separator p1 p2")
     (auto simp: path_join_def joined_def Let_def store_upto_def)

lemma path_join_cases:
  obtains (fail) h' where "path_join p1 p2 h = (None, h')" "live h' = live h" "faults h' = faults h"
      "p1 = None \<or> p2 = None \<or> \<not> alloc_ok h"
  | (ok) q1 q2 h' where "p1 = Some q1" "p2 = Some q2" "alloc_ok h"
      "path_join p1 p2 h = (Some (joined q1 q2), h')" "live h' = live h + 1"
      "faults h' = faults h @ (if join_overflows q1 q2 then [Buffer_overflow] else [])"
proof (cases "p1 = None \<or> p2 = None \<or> \<not> alloc_ok h")
  case True
  then show thesis
    by (intro fail [of "snd (path_join p1 p2 h)"])
       (auto simp: path_join_def heap_simps split: option.splits)
next
  case False
  then show thesis
    by (intro ok [of "the p1" "the p2" "snd (path_join p1 p2 h)"])
       (auto simp: path_join_ok heap_simps)
qed

section \<open>Components\<close>

text \<open>What the kernel sees of a path: its components, empty ones skipped.\<close>

fun split_path :: "string \<Rightarrow> string \<Rightarrow> string list" where
  "split_path acc [] = (if acc = [] then [] else [rev acc])"
| "split_path acc (c # cs) =
     (if c = PATH_SEP then (if acc = [] then split_path [] cs else rev acc # split_path [] cs)
      else split_path (c # acc) cs)"

abbreviation components :: "string \<Rightarrow> string list" where
  "components \<equiv> split_path []"

lemma split_path_sep: "split_path acc (xs @ PATH_SEP # ys) = split_path acc xs @ components ys"
  by (induction acc xs rule: split_path.induct) auto

lemma split_path_last_sep: "split_path acc (xs @ [PATH_SEP]) = split_path acc xs"
  using split_path_sep [of acc xs "[]"] by simp

lemma components_joined: "components (joined p1 p2) = components p1 @ components p2"
proof (cases "join_adds_separator p1 p2")
  case True
  then show ?thesis by (simp add: joined_def split_path_sep)
next
  case False
  show ?thesis
  proof (cases "p2 \<noteq> [] \<and> hd p2 = PATH_SEP")
    case True
    then obtain q where "p2 = PATH_SEP # q" by (cases p2) auto
    with False show ?thesis by (simp add: joined_def split_path_sep)
  next
    case nosep: False
    show ?thesis
    proof (cases p1 rule: rev_cases)
      case Nil
      with False show ?thesis by (simp add: joined_def)
    next
      case (snoc q c)
      with False nosep have "c = PATH_SEP"
        by (auto simp: join_adds_separator_def Let_def split: if_splits)
      with False snoc show ?thesis by (simp add: joined_def split_path_sep split_path_last_sep)
    qed
  qed
qed

section \<open>The wrappers of realpath, basename and dirname\<close>

definition path_join_real ::
  "(string \<Rightarrow> string option) \<Rightarrow> string option \<Rightarrow> string option \<Rightarrow> 'a heap_scheme
     \<Rightarrow> string option \<times> 'a heap_scheme" where
  \<comment> \<open>\<open>realpath\<close> hands over the string it allocated\<close>
  "path_join_real realpath path1 path2 h =
     (case path_join path1 path2 h of
        (None, h1) \<Rightarrow> (None, h1)
      | (Some realp, h1) \<Rightarrow>
          (case realpath realp of
             None \<Rightarrow> (None, release 1 h1)
           | Some r \<Rightarrow> (Some r, release 1 (adopt 1 h1))))"

definition strip_trailing :: "string \<Rightarrow> string" where
  "strip_trailing p = rev (dropWhile (\<lambda>c. c = PATH_SEP) (rev p))"

definition libc_basename :: "string \<Rightarrow> string" where
  "libc_basename p =
     (if p = [] then ''.''
      else let q = strip_trailing p in
        if q = [] then ''/'' else rev (takeWhile (\<lambda>c. c \<noteq> PATH_SEP) (rev q)))"

definition libc_dirname :: "string \<Rightarrow> string" where
  "libc_dirname p =
     (let q = strip_trailing p in
      if p = [] then ''.''
      else if q = [] then ''/''
      else let d = rev (dropWhile (\<lambda>c. c \<noteq> PATH_SEP) (rev q)) in
        if d = [] then ''.'' else let e = strip_trailing d in if e = [] then ''/'' else e)"

definition copy_and_apply :: "(string \<Rightarrow> string) \<Rightarrow> string option \<Rightarrow> 'a heap_scheme \<Rightarrow> string option \<times> 'a heap_scheme" where
  "copy_and_apply f inpath h =
     (case inpath of
        None \<Rightarrow> (None, h)
      | Some p \<Rightarrow>
          (if \<not> alloc_ok h then (None, alloc_next h)
           else let h1 = alloc_next h in
             if \<not> alloc_ok h1 then (None, release 1 (alloc_next h1))
             else (Some (f p), release 1 (alloc_next h1))))"

definition path_basename :: "string option \<Rightarrow> 'a heap_scheme \<Rightarrow> string option \<times> 'a heap_scheme" where
  "path_basename = copy_and_apply libc_basename"

definition path_dirname :: "string option \<Rightarrow> 'a heap_scheme \<Rightarrow> string option \<times> 'a heap_scheme" where
  "path_dirname = copy_and_apply libc_dirname"

section \<open>Properties\<close>

text \<open>
  C30: for two paths and a heap that can allocate, \<open>path_join\<close> returns a path whose components
  are those of the first followed by those of the second, in one new block, and its two copies
  stay inside that block unless the second path starts with a separator and the first is empty
  or ends with one; then it writes one byte past the end.
\<close>

theorem path_join_safe:
  assumes "alloc_ok h"
  shows "\<exists>p h'. path_join (Some p1) (Some p2) h = (Some p, h')
    \<and> components p = components p1 @ components p2 \<and> live h' = live h + 1
    \<and> faults h' = faults h @ (if p2 \<noteq> [] \<and> hd p2 = CHR ''/'' \<and> (p1 = [] \<or> last p1 = CHR ''/'')
                               then [Buffer_overflow] else [])"
  using assms by (simp add: path_join_ok components_joined heap_simps join_overflows_def)

theorem path_join_safe_witness:
  "\<exists>p h'. path_join (Some ''/srv'') (Some ''/a'') quiet_heap = (Some p, h')
    \<and> components p = components ''/srv'' @ components ''/a'' \<and> live h' = live quiet_heap + 1
    \<and> faults h' = faults quiet_heap @ (if ''/a'' \<noteq> [] \<and> hd ''/a'' = CHR ''/''
          \<and> (''/srv'' = [] \<or> last ''/srv'' = CHR ''/'') then [Buffer_overflow] else [])"
  by (rule path_join_safe) (simp add: quiet_heap_def alloc_ok_def)

end
