(* ===== verification/Rhizo_Client.thy ===== *)
theory Rhizo_Client
  imports Rhizo_SocketPool Rhizo_AttrCache Rhizo_Messages Rhizo_Path
begin

text \<open>
  Model of the client's exchange of a request for a response, \<open>Rhizofs_communicate\<close> of
  \<^verbatim>\<open>src/fs/rhizofs.c\<close>, and of the state of the client.

  The state of the client (its globals: the socket pool, the attribute cache, the settings) is a
  record that extends the state of the sockets; \<open>cl_received\<close> is the trace of the responses it got. An operation runs in a thread \<open>t\<close>. The value \<open>None\<close>
  of an operation means that it does not return, which only the loop that waits for the request to
  be accepted could cause. The clock is a reading of the world (\<open>z_time\<close>, -1 for its failure).
  The response that arrives is whatever the world delivers: \<open>Inl\<close> a receive error, \<open>Inr None\<close>
  bytes protobuf cannot unpack.

  What is proved: the loop ends within the timeout; an exchange keeps the invariants of pool and
  cache, sends the request at most once, and is answered or lost without a trace in memory.
\<close>

abbreviation (input) POLL_TIMEOUT_MSEC :: int where "POLL_TIMEOUT_MSEC \<equiv> 1000"
abbreviation (input) SEND_SLEEP_USEC :: nat where "SEND_SLEEP_USEC \<equiv> 1"
abbreviation (input) TIMEOUT_DEFAULT :: "32 word" where "TIMEOUT_DEFAULT \<equiv> 30"
abbreviation (input) ATTRCACHE_MAXSIZE :: nat where "ATTRCACHE_MAXSIZE \<equiv> 1000"
abbreviation (input) ATTRCACHE_DEFAULT_MAXAGE_SEC :: nat where "ATTRCACHE_DEFAULT_MAXAGE_SEC \<equiv> 3"
abbreviation (input) OP_STD_RETURNED_ERR :: int where "OP_STD_RETURNED_ERR \<equiv> EIO"

record rhizo_settings =
  se_host_socket :: "string option"
  se_server_public_key :: "string option"
  se_server_public_key_file :: "string option"
  se_client_public_key_file :: "string option"
  se_client_public_key :: "string option"
  se_client_secret_key :: "string option"
  se_timeout :: "32 word"
  se_check_socket_connection :: bool

record 'w client = "'w net" +
  cl_pool :: socket_pool
  cl_cache :: attr_cache
  cl_settings :: rhizo_settings
  cl_received :: "response list"

definition int64 :: "int \<Rightarrow> int" where
  "int64 x = signed_take_bit 63 x"

section \<open>Exchanging a request for a response\<close>

definition nonzero :: "int + int \<Rightarrow> bool" where
  "nonzero r = (case r of Inl _ \<Rightarrow> True | Inr n \<Rightarrow> n \<noteq> 0)"

definition interrupted :: "'w zmq_env \<Rightarrow> bool \<Rightarrow> 'w client \<Rightarrow> bool \<times> 'w client" where
  \<comment> \<open>\<^verbatim>\<open>check_fuse_interrupts && ((fuse_interrupted() != 0) || fuse_exited(...))\<close>\<close>
  "interrupted E check_fuse_interrupts m =
     (if \<not> check_fuse_interrupts then (False, m)
      else if nonzero (z_ret E Z_fuse_interrupted m) then (True, z_next E Z_fuse_interrupted m)
      else let m1 = z_next E Z_fuse_interrupted m
        in (nonzero (z_ret E Z_fuse_exited m1), z_next E Z_fuse_exited m1))"

datatype send_result = Sent | Gave_up int bool  \<comment> \<open>the error number, and whether the socket is to be renewed\<close>

partial_function (option) send_loop ::
  "'w zmq_env \<Rightarrow> nat \<Rightarrow> request \<Rightarrow> bool \<Rightarrow> 32 word \<Rightarrow> 'w client \<Rightarrow> (send_result \<times> 'w client) option" where
  "send_loop E s rq check_fuse_interrupts repetition m =
     (let m0 = touch_socket s m; c = Z_send s rq; m1 = z_next E c m0 in
      case z_ret E c m0 of
        Inr _ \<Rightarrow> Some (Sent, m1\<lparr>n_sent := n_sent m1 @ [(s, rq)]\<rparr>)
      | Inl e \<Rightarrow>
          (if e = EAGAIN \<or> e = EFSM then
             (let m2 = z_next E (Z_usleep SEND_SLEEP_USEC) m1;
                  i = interrupted E check_fuse_interrupts m2 in
              if fst i then Some (Gave_up EINTR True, snd i)
              else let
                repetition1 = repetition + 1;
                seconds_waited = (repetition1 * of_nat SEND_SLEEP_USEC) div (1000 * 1000)
              in if seconds_waited \<ge> se_timeout (cl_settings m) then Some (Gave_up EAGAIN True, snd i)
                 else send_loop E s rq check_fuse_interrupts repetition1 (snd i))
           else Some (Gave_up EIO False, reset_errno m1)))"

definition communicate_error :: "'w zmq_env \<Rightarrow> nat \<Rightarrow> nat option \<Rightarrow> bool \<Rightarrow> bool \<Rightarrow> 'w client \<Rightarrow> 'w client" where
  \<comment> \<open>the label \<^verbatim>\<open>error\<close>: both messages are closed, whether they have been initialised or not\<close>
  "communicate_error E t socket_to_use renew_socket messages_initialised m =
     (let m1 = (if renew_socket \<and> socket_to_use = None
                then (let (sp, m1) = SocketPool_renew_socket E t (cl_pool m) m in m1\<lparr>cl_pool := sp\<rparr>) else m)
      in if messages_initialised then m1 else add_fault Uninitialised_use m1)"

definition Response_from_message :: "response \<Rightarrow> response" where
  \<comment> \<open>what protobuf builds from the received bytes: an array only for entries, nothing freed\<close>
  "Response_from_message r = r\<lparr>rs_entries_block := (rs_entries r \<noteq> []), rs_entries_freed := False\<rparr>"

definition Response_from_message_destroy :: "response option \<Rightarrow> 'a heap_scheme \<Rightarrow> 'a heap_scheme" where
  "Response_from_message_destroy r h = (case r of None \<Rightarrow> h | Some r \<Rightarrow> release (response_blocks r) h)"

definition receive_response :: "'w zmq_env \<Rightarrow> nat \<Rightarrow> nat \<Rightarrow> nat option \<Rightarrow> bool \<Rightarrow> 'w client
    \<Rightarrow> response option \<times> int \<times> 'w client" where
  "receive_response E t s socket_to_use check_fuse_interrupts m =
     (let m1 = z_next E Z_msg_init m in
      if failed (z_ret E Z_msg_init m)
      then (None, ENOMEM, communicate_error E t socket_to_use True False (reset_errno m1))
      else let m2 = touch_socket s m1; c = Z_poll s POLL_TIMEOUT_MSEC; m3 = z_next E c m2 in
      if (case z_ret E c m2 of Inr n \<Rightarrow> n > 0 | Inl _ \<Rightarrow> False) then
        (let r = z_recv E s (n_world m3);
             m4 = m3\<lparr>n_world := snd r, n_errno := (case fst r of Inl e \<Rightarrow> e | Inr _ \<Rightarrow> n_errno m3)\<rparr>
         in case fst r of
              Inl _ \<Rightarrow> (None, EIO, communicate_error E t socket_to_use True True (reset_errno m4))
            | Inr None \<Rightarrow> (None, EIO, communicate_error E t socket_to_use True True (reset_errno m4))
            | Inr (Some wire) \<Rightarrow>
                (let response = Response_from_message wire in
                 (Some response, Response_get_errno response,
                  (adopt (response_blocks response) m4)\<lparr>cl_received := cl_received m4 @ [wire]\<rparr>)))
      else let
        err = (if n_errno m3 = 0 then EIO else n_errno m3);
        (i, m4) = interrupted E check_fuse_interrupts m3
      in (None, if i then EINTR else err, communicate_error E t socket_to_use True True m4))"

text \<open>The result: the response, the value of \<^verbatim>\<open>*err\<close>, the state.\<close>

definition Rhizofs_communicate :: "'w zmq_env \<Rightarrow> nat \<Rightarrow> request \<Rightarrow> nat option \<Rightarrow> bool \<Rightarrow> 'w client
    \<Rightarrow> (response option \<times> int \<times> 'w client) option" where
  "Rhizofs_communicate E t req socket_to_use check_fuse_interrupts m =
     (let (sock, m1) =
        (case socket_to_use of
           Some s \<Rightarrow> (Some s, m)
         | None \<Rightarrow> (let (r, sp, m1) = SocketPool_get_socket E t (cl_pool m) m in (r, m1\<lparr>cl_pool := sp\<rparr>)))
      in case sock of
           None \<Rightarrow> Some (None, ENOTSOCK, communicate_error E t socket_to_use False False (reset_errno m1))
         | Some s \<Rightarrow>
            (case Request_pack req m1 of
               (None, m2) \<Rightarrow>
                 \<comment> \<open>the failed \<^verbatim>\<open>check\<close> in \<open>Request_pack\<close> has cleared \<^verbatim>\<open>errno\<close> before it is read here\<close>
                 (let m3 = z_next E Z_msg_close (reset_errno m2) in
                  Some (None, n_errno m3, communicate_error E t socket_to_use False False (reset_errno m3)))
             | (Some packed, m2) \<Rightarrow>
                 (case send_loop E s packed check_fuse_interrupts 0 m2 of
                    None \<Rightarrow> None
                  | Some (Gave_up err renew, m3) \<Rightarrow>
                      Some (None, err, communicate_error E t socket_to_use renew False m3)
                  | Some (Sent, m3) \<Rightarrow> Some (receive_response E t s socket_to_use check_fuse_interrupts m3))))"

section \<open>The exchange, and that it ends\<close>

definition same_state :: "'w client \<Rightarrow> 'w client \<Rightarrow> bool" where
  \<comment> \<open>only the world and \<^verbatim>\<open>errno\<close> have changed\<close>
  "same_state m m' \<longleftrightarrow> live m' = live m \<and> outcomes m' = outcomes m \<and> faults m' = faults m
     \<and> n_sockets m' = n_sockets m \<and> n_next m' = n_next m \<and> n_sent m' = n_sent m
     \<and> cl_pool m' = cl_pool m \<and> cl_cache m' = cl_cache m \<and> cl_settings m' = cl_settings m
     \<and> cl_received m' = cl_received m"

lemma same_state_refl [simp]: "same_state m m"
  by (simp add: same_state_def)

lemma same_state_trans: "same_state m m1 \<Longrightarrow> same_state m1 m2 \<Longrightarrow> same_state m m2"
  by (simp add: same_state_def)

lemma cl_frame [net_simps]:
  fixes m :: "'w client"
  shows "cl_pool (z_next E c m) = cl_pool m" "cl_cache (z_next E c m) = cl_cache m"
    "cl_settings (z_next E c m) = cl_settings m" "cl_pool (reset_errno m) = cl_pool m"
    "cl_cache (reset_errno m) = cl_cache m" "cl_settings (reset_errno m) = cl_settings m"
    "cl_pool (add_fault f m) = cl_pool m" "cl_cache (add_fault f m) = cl_cache m"
    "cl_settings (add_fault f m) = cl_settings m" "cl_pool (release k m) = cl_pool m"
    "cl_cache (release k m) = cl_cache m" "cl_settings (release k m) = cl_settings m"
    "cl_pool (adopt k m) = cl_pool m" "cl_cache (adopt k m) = cl_cache m"
    "cl_settings (adopt k m) = cl_settings m" "cl_pool (alloc_next m) = cl_pool m"
    "cl_cache (alloc_next m) = cl_cache m" "cl_settings (alloc_next m) = cl_settings m"
    "cl_pool (realloc_next m) = cl_pool m" "cl_cache (realloc_next m) = cl_cache m"
    "cl_settings (realloc_next m) = cl_settings m"
    "cl_received (z_next E c m) = cl_received m" "cl_received (reset_errno m) = cl_received m"
    "cl_received (add_fault f m) = cl_received m" "cl_received (release k m) = cl_received m"
    "cl_received (adopt k m) = cl_received m" "cl_received (alloc_next m) = cl_received m"
    "cl_received (realloc_next m) = cl_received m"
  by (simp_all add: z_next_def reset_errno_def add_fault_def release_def adopt_def alloc_next_def
      realloc_next_def)

lemma adopt_net_frame [net_simps]:
  fixes m :: "('w, 'b) net_scheme"
  shows "n_sockets (adopt k m) = n_sockets m" "n_next (adopt k m) = n_next m" "n_sent (adopt k m) = n_sent m"
    "n_sockets (realloc_next m) = n_sockets m" "n_next (realloc_next m) = n_next m"
    "n_sent (realloc_next m) = n_sent m" "n_world (realloc_next m) = n_world m"
  by (simp_all add: adopt_def realloc_next_def)

lemma same_state_next [simp]: "same_state m (z_next E c m)" "same_state m (reset_errno m)"
  by (simp_all add: same_state_def net_simps)

lemma same_state_interrupted: "same_state m (snd (interrupted E b m))"
  by (simp add: interrupted_def Let_def same_state_def net_simps)

text \<open>
  The send loop. As long as the timeout is at most 4294 seconds, the counter reaches the
  timeout before it wraps: \<open>4294 * 10 ^ 6 < 2 ^ 32\<close>.
\<close>

definition timeout_ok :: "'w client \<Rightarrow> bool" where
  "timeout_ok m \<longleftrightarrow> unat (se_timeout (cl_settings m)) \<le> 4294"

lemma send_loop_returns:
  assumes "unat (se_timeout (cl_settings m)) = T" "T \<le> 4294" "unat rep \<le> T * 10 ^ 6"
    "n_sockets m s \<noteq> None"
  shows "\<exists>m1. same_state m m1 \<and>
    (send_loop E s rq chk rep m = Some (Sent, m1\<lparr>n_sent := n_sent m1 @ [(s, rq)]\<rparr>)
     \<or> (\<exists>e renew. e \<in> {EINTR, EAGAIN, EIO} \<and> send_loop E s rq chk rep m = Some (Gave_up e renew, m1)))"
  using assms
proof (induction "T * 10 ^ 6 - unat rep" arbitrary: rep m rule: less_induct)
  case less
  let ?c = "Z_send s rq"
  have t: "touch_socket s m = m" using less.prems(4) by (auto simp: touch_socket_def)
  define m1 where "m1 = z_next E ?c m"
  have s1: "same_state m m1" by (simp add: m1_def)
  define i where "i = interrupted E chk (z_next E (Z_usleep 1) m1)"
  have s2: "same_state m (snd i)"
    unfolding i_def using same_state_trans [OF same_state_trans [OF s1 same_state_next(1)] same_state_interrupted] .
  let ?w = "((rep + 1) * of_nat SEND_SLEEP_USEC) div (1000 * 1000)"
  show ?case
  proof (cases "z_ret E ?c m")
    case (Inr x)
    then show ?thesis using s1
      by (intro exI [of _ m1]) (simp add: send_loop.simps [of E s rq chk rep m] t Let_def flip: m1_def)
  next
    case (Inl e)
    have step: "send_loop E s rq chk rep m =
      (if e = EAGAIN \<or> e = EFSM then
         if fst i then Some (Gave_up EINTR True, snd i)
         else if ?w \<ge> se_timeout (cl_settings m) then Some (Gave_up EAGAIN True, snd i)
         else send_loop E s rq chk (rep + 1) (snd i)
       else Some (Gave_up EIO False, reset_errno m1))"
      by (subst send_loop.simps) (simp add: Inl t Let_def m1_def i_def)
    have s3: "same_state m (reset_errno m1)" using same_state_trans [OF s1 same_state_next(2)] .
    show ?thesis
    proof (cases "(e = EAGAIN \<or> e = EFSM) \<and> \<not> fst i \<and> \<not> ?w \<ge> se_timeout (cl_settings m)")
      case False
      then show ?thesis using step s2 s3 by (auto split: if_splits)
    next
      case True
      have "unat rep < 2 ^ 32 - 1" using less.prems(2,3) by simp
      then have r1: "unat (rep + 1) = unat rep + 1"
        by (simp add: unat_word_ariths)
      have "unat ?w = unat (rep + 1) div 10 ^ 6" by (simp add: unat_div)
      with True less.prems(1) have "(unat rep + 1) div 10 ^ 6 < T"
        by (simp add: r1 not_le word_less_nat_alt)
      then have b: "unat rep + 1 < T * 10 ^ 6" by (simp add: div_less_iff_less_mult)
      have "\<exists>m2. same_state (snd i) m2 \<and>
        (send_loop E s rq chk (rep + 1) (snd i) = Some (Sent, m2\<lparr>n_sent := n_sent m2 @ [(s, rq)]\<rparr>)
         \<or> (\<exists>e renew. e \<in> {EINTR, EAGAIN, EIO} \<and> send_loop E s rq chk (rep + 1) (snd i) = Some (Gave_up e renew, m2)))"
        using less.prems s2 b by (intro less.hyps) (auto simp: r1 same_state_def)
      with True step show ?thesis using same_state_trans [OF s2] by auto
    qed
  qed
qed

definition client_ok :: "'w client \<Rightarrow> bool" where
  "client_ok m \<longleftrightarrow> pool_ok (cl_pool m) m \<and> pool_keys_long (cl_pool m) \<and> cache_ok (cl_cache m)
     \<and> hash_maxcount (ac_table (cl_cache m)) = ATTRCACHE_MAXSIZE \<and> timeout_ok m"

lemma client_ok_cache:
  "client_ok m \<Longrightarrow> n_sockets m' = n_sockets m \<Longrightarrow> n_next m' = n_next m \<Longrightarrow> cl_pool m' = cl_pool m
     \<Longrightarrow> cl_settings m' = cl_settings m \<Longrightarrow> cache_ok (cl_cache m')
     \<Longrightarrow> hash_maxcount (ac_table (cl_cache m')) = hash_maxcount (ac_table (cl_cache m)) \<Longrightarrow> client_ok m'"
  using pool_ok_frame [of "cl_pool m" m m'] by (simp add: client_ok_def timeout_ok_def)

lemma client_ok_same: "client_ok m \<Longrightarrow> n_sockets m' = n_sockets m \<Longrightarrow> n_next m' = n_next m
     \<Longrightarrow> cl_pool m' = cl_pool m \<Longrightarrow> cl_settings m' = cl_settings m \<Longrightarrow> cl_cache m' = cl_cache m \<Longrightarrow> client_ok m'"
  using pool_ok_frame [of "cl_pool m" m m'] by (simp add: client_ok_def timeout_ok_def)

definition pool_changed :: "'w client \<Rightarrow> 'w client \<Rightarrow> bool" where
  \<comment> \<open>the sockets may have changed, but not the heap, the cache, the settings and what was sent\<close>
  "pool_changed m m' \<longleftrightarrow> client_ok m' \<and> live m' = live m \<and> faults m' = faults m \<and> outcomes m' = outcomes m
     \<and> cl_cache m' = cl_cache m \<and> cl_settings m' = cl_settings m \<and> n_sent m' = n_sent m
     \<and> cl_received m' = cl_received m"

lemma pool_changed_same: "client_ok m \<Longrightarrow> same_state m m' \<Longrightarrow> pool_changed m m'"
  using client_ok_same [of m m'] by (simp add: pool_changed_def same_state_def)

lemma pool_changed_trans: "pool_changed m m1 \<Longrightarrow> pool_changed m1 m2 \<Longrightarrow> pool_changed m m2"
  by (simp add: pool_changed_def)

lemma cl_more:
  fixes m m' :: "'w client"
  assumes "net.more m' = net.more m"
  shows "cl_pool m' = cl_pool m" "cl_cache m' = cl_cache m" "cl_settings m' = cl_settings m"
    "cl_received m' = cl_received m"
  using assms by (cases m; cases m'; simp)+

lemma renew_in_client:
  assumes "client_ok m" "forgets E"
  shows "pool_changed m (let (sp, m1) = SocketPool_renew_socket E t (cl_pool m) m in m1\<lparr>cl_pool := sp\<rparr>)"
proof -
  have ok: "pool_ok (cl_pool m) m" using assms(1) by (simp add: client_ok_def)
  obtain sp m1 where r: "SocketPool_renew_socket E t (cl_pool m) m = (sp, m1)" by fastforce
  have c: "cl_cache m1 = cl_cache m" "cl_settings m1 = cl_settings m" "cl_received m1 = cl_received m"
    using cl_more(2-4) [of m1 m] more_pool(1) [of E t "cl_pool m" m] r by simp_all
  have k: "pool_keys_long (sp'\<lparr>sp_specific := f\<rparr>) = pool_keys_long sp'" for sp' f
    by (simp add: pool_keys_long_def)
  show ?thesis
  proof (rule renew_cases [OF ok assms(2), of t], goal_cases)
    case 1
    with r assms(1) show ?thesis by (simp add: pool_changed_def)
  next
    case (2 s m')
    then have e: "sp = (cl_pool m)\<lparr>sp_specific := (sp_specific (cl_pool m))(t := None)\<rparr>" "m1 = m'"
      using r by simp_all
    have "pool_ok sp (m1\<lparr>cl_pool := sp\<rparr>)"
      unfolding e(1) by (rule pool_ok_frame [OF pool_ok_drop [OF ok 2(1) 2(3,4)]]) (simp_all add: e(2))
    with 2 c assms(1) show ?thesis
      by (simp add: r pool_changed_def client_ok_def k e timeout_ok_def)
  qed
qed

lemma communicate_error_ok:
  assumes "client_ok m" "forgets E"
  obtains m' where "pool_changed m m'"
    "communicate_error E t sock renew init m = (if init then m' else add_fault Uninitialised_use m')"
proof (cases "renew \<and> sock = None")
  case True
  with renew_in_client [OF assms, of t] that show thesis by (simp add: communicate_error_def Let_def)
next
  case False
  with that [of m] assms(1) show thesis by (auto simp: communicate_error_def Let_def pool_changed_def)
qed

lemma get_socket_in_client:
  assumes "client_ok m"
  obtains
    (fail) m' where "SocketPool_get_socket E t (cl_pool m) m = (None, cl_pool m, m')"
      "pool_changed m (m'\<lparr>cl_pool := cl_pool m\<rparr>)"
  | (ok) s sp m' where "SocketPool_get_socket E t (cl_pool m) m = (Some s, sp, m')"
      "pool_changed m (m'\<lparr>cl_pool := sp\<rparr>)" "n_sockets m' s \<noteq> None"
proof -
  have pok: "pool_ok (cl_pool m) m" and kl: "pool_keys_long (cl_pool m)"
    using assms by (simp_all add: client_ok_def)
  have k: "pool_keys_long (sp'\<lparr>sp_specific := f\<rparr>) = pool_keys_long sp'" for sp' f
    by (simp add: pool_keys_long_def)
  have c: "cl_cache m' = cl_cache m \<and> cl_settings m' = cl_settings m \<and> cl_received m' = cl_received m"
    if "SocketPool_get_socket E t (cl_pool m) m = (r, sp, m')" for r sp m'
    using cl_more(2-4) [of m' m] more_pool(2) [of E t "cl_pool m" m] that by simp
  show thesis
  proof (rule get_socket_cases [OF pok, of E t], goal_cases)
    case (1 m')
    with c [OF 1(1)] assms kl pool_ok_frame [OF pok, of "m'\<lparr>cl_pool := cl_pool m\<rparr>"] show thesis
      by (intro fail [of m']) (simp_all add: pool_changed_def client_ok_def timeout_ok_def)
  next
    case (2 s)
    then show thesis
      using assms pool_open [OF pok] by (intro ok [of s "cl_pool m" m]) (simp_all add: pool_changed_def)
  next
    case (3 m')
    let ?sp = "(cl_pool m)\<lparr>sp_specific := (sp_specific (cl_pool m))(t \<mapsto> n_next m)\<rparr>"
    have "pool_ok ?sp (m'\<lparr>cl_pool := ?sp\<rparr>)"
      by (rule pool_ok_frame [OF pool_ok_add [OF pok 3(2) refl 3(3,4,5)]]) simp_all
    with 3 c [OF 3(1)] assms kl pool_socket_open [OF 3(5)] show thesis
      by (intro ok [of "n_next m" ?sp m']) (simp_all add: pool_changed_def client_ok_def timeout_ok_def k)
  qed
qed

text \<open>
  What an exchange leaves behind. Only the paths on which the request was not answered can use
  messages that have not been initialised.
\<close>

definition exchanged :: "request \<Rightarrow> int \<Rightarrow> 'w client \<Rightarrow> 'w client \<Rightarrow> bool" where
  \<comment> \<open>\<open>k\<close>: the blocks received\<close>
  "exchanged rq k m m' \<longleftrightarrow> client_ok m' \<and> live m' = live m + k \<and> cl_cache m' = cl_cache m
     \<and> cl_settings m' = cl_settings m
     \<and> (n_sent m' = n_sent m \<or> (\<exists>s. n_sent m' = n_sent m @ [(s, rq)]))"

definition only_uninitialised :: "'w client \<Rightarrow> 'w client \<Rightarrow> bool" where
  "only_uninitialised m m' \<longleftrightarrow> faults m' = faults m \<or> faults m' = faults m @ [Uninitialised_use]"

lemma receive_response_cases:
  assumes "client_ok m" "forgets E" "n_sockets m s \<noteq> None"
  obtains
    (lost) e m1 where "receive_response E t s None chk m = (None, e, m1)" "e \<noteq> 0"
      "client_ok m1" "live m1 = live m" "cl_cache m1 = cl_cache m" "cl_settings m1 = cl_settings m"
      "n_sent m1 = n_sent m" "only_uninitialised m m1"
      "cl_received m1 = cl_received m"
  | (answered) r m1 where "receive_response E t s None chk m
        = (Some (Response_from_message r), Response_get_errno r, m1)"
      "client_ok m1" "live m1 = live m + response_blocks (Response_from_message r)"
      "cl_cache m1 = cl_cache m" "cl_settings m1 = cl_settings m" "n_sent m1 = n_sent m" "faults m1 = faults m"
      "cl_received m1 = cl_received m @ [r]"
proof -
  have fault_ok: "client_ok (add_fault f m')" if "client_ok m'" for f and m' :: "'a client"
    by (rule client_ok_same [OF that]) (simp_all add: net_simps)
  have gone: thesis if e: "receive_response E t s None chk m = (None, e, communicate_error E t None renew init m')"
    and s: "same_state m m'" and e0: "e \<noteq> 0" for e renew init m'
  proof -
    have "client_ok m'" using pool_changed_same [OF assms(1) s] by (simp add: pool_changed_def)
    from communicate_error_ok [OF this assms(2), of t None renew init] obtain m2
      where m2: "pool_changed m' m2"
        "communicate_error E t None renew init m' = (if init then m2 else add_fault Uninitialised_use m2)" .
    show thesis
      by (rule lost [of e "if init then m2 else add_fault Uninitialised_use m2"])
         (use e e0 m2 s fault_ok [of m2] in
           \<open>auto simp: pool_changed_def same_state_def only_uninitialised_def net_simps heap_simps\<close>)
  qed
  define m1 where "m1 = z_next E Z_msg_init m"
  have t1: "touch_socket s m1 = m1" using assms(3) by (auto simp: touch_socket_def m1_def net_simps)
  let ?c = "Z_poll s POLL_TIMEOUT_MSEC"
  define m3 where "m3 = z_next E ?c m1"
  have s3: "same_state m m3" by (simp add: m3_def m1_def same_state_def net_simps)
  note R = receive_response_def [of E t s None chk m, folded m1_def, unfolded Let_def t1, folded m3_def]
  show thesis
  proof (cases "failed (z_ret E Z_msg_init m)")
    case True
    then show thesis using gone [of ENOMEM True False "reset_errno m1"] R
      by (simp add: m1_def same_state_def net_simps)
  next
    case ready: False
    show thesis
    proof (cases "case z_ret E ?c m1 of Inr n \<Rightarrow> n > 0 | Inl _ \<Rightarrow> False")
      case False
      have i: "same_state m (snd (interrupted E chk m3))"
        using same_state_trans [OF s3 same_state_interrupted] .
      show thesis
        using gone [OF _ i, of "if fst (interrupted E chk m3) then EINTR else if n_errno m3 = 0 then EIO else n_errno m3" True True]
          R False ready by (simp add: case_prod_beta split: if_splits sum.splits)
    next
      case True
      define m4 where "m4 = m3\<lparr>n_world := snd (z_recv E s (n_world m3)),
        n_errno := (case fst (z_recv E s (n_world m3)) of Inl e \<Rightarrow> e | Inr _ \<Rightarrow> n_errno m3)\<rparr>"
      have s4: "same_state m m4" "same_state m (reset_errno m4)"
        using s3 by (simp_all add: m4_def same_state_def net_simps)
      have R4: "receive_response E t s None chk m =
        (case fst (z_recv E s (n_world m3)) of
           Inr (Some wire) \<Rightarrow> (Some (Response_from_message wire), Response_get_errno (Response_from_message wire),
               (adopt (response_blocks (Response_from_message wire)) m4)\<lparr>cl_received := cl_received m4 @ [wire]\<rparr>)
         | _ \<Rightarrow> (None, EIO, communicate_error E t None True True (reset_errno m4)))"
        using R ready True by (simp add: m4_def split: sum.split option.split)
      show thesis
      proof (cases "\<exists>wire. fst (z_recv E s (n_world m3)) = Inr (Some wire)")
        case False
        then show thesis using gone [OF _ s4(2), of EIO True True] R4
          by (auto split: sum.splits option.splits)
      next
        case True
        then obtain wire where w: "fst (z_recv E s (n_world m3)) = Inr (Some wire)" by blast
        have "client_ok m4" using pool_changed_same [OF assms(1) s4(1)] by (simp add: pool_changed_def)
        then have "client_ok ((adopt k m4)\<lparr>cl_received := x\<rparr>)" for k x
          by (rule client_ok_same) (simp_all add: net_simps)
        with w s4(1) R4 show thesis
          by (intro answered [of wire "(adopt (response_blocks (Response_from_message wire)) m4)\<lparr>cl_received := cl_received m4 @ [wire]\<rparr>"])
             (simp_all add: same_state_def net_simps heap_simps Response_get_errno_def Response_from_message_def)
      qed
    qed
  qed
qed

lemma communicate_cases:
  assumes ok: "client_ok m" and E: "forgets E"
  obtains
    (lost) e m' where "Rhizofs_communicate E t rq None chk m = Some (None, e, m')"
      "exchanged rq 0 m m'" "only_uninitialised m m'" "e = 0 \<Longrightarrow> n_sent m' = n_sent m"
      "cl_received m' = cl_received m"
  | (answered) r m' s where "Rhizofs_communicate E t rq None chk m
        = Some (Some (Response_from_message r), Response_get_errno r, m')"
      "exchanged rq (response_blocks (Response_from_message r)) m m'" "n_sent m' = n_sent m @ [(s, rq)]"
      "faults m' = faults m" "cl_received m' = cl_received m @ [r]"
proof -
  have fault_ok: "client_ok (add_fault f m')" if "client_ok m'" for f and m' :: "'a client"
    by (rule client_ok_same [OF that]) (simp_all add: net_simps)
  have gone: thesis
    if e: "Rhizofs_communicate E t rq None chk m = Some (None, e, communicate_error E t None renew False m')"
    and s: "client_ok m'" "live m' = live m" "faults m' = faults m" "cl_cache m' = cl_cache m"
      "cl_settings m' = cl_settings m" "n_sent m' = n_sent m" "cl_received m' = cl_received m" for e renew m'
  proof -
    from communicate_error_ok [OF s(1) E, of t None renew False] obtain m2
      where m2: "pool_changed m' m2" "communicate_error E t None renew False m' = add_fault Uninitialised_use m2"
      by (metis (full_types))
    show thesis
      by (rule lost [of e "add_fault Uninitialised_use m2"])
         (use e m2 s fault_ok [of m2] in
           \<open>auto simp: pool_changed_def exchanged_def only_uninitialised_def net_simps heap_simps\<close>)
  qed
  have reset_ok: "client_ok (reset_errno m')" if "client_ok m'" for m' :: "'a client"
    using pool_changed_same [OF that same_state_next(2)] by (simp add: pool_changed_def)
  show thesis
  proof (rule get_socket_in_client [OF ok, of E t], goal_cases)
    case (1 m1)
    show thesis
      by (rule gone [of ENOTSOCK False "reset_errno (m1\<lparr>cl_pool := cl_pool m\<rparr>)"])
         (use 1 reset_ok in \<open>auto simp: Rhizofs_communicate_def pool_changed_def net_simps\<close>)
  next
    case (2 s sp m0)
    define m1 where "m1 = m0\<lparr>cl_pool := sp\<rparr>"
    have p1: "pool_changed m m1" and o1: "n_sockets m1 s \<noteq> None" using 2 by (simp_all add: m1_def)
    define m2 where "m2 = realloc_next m1"
    have c1: "client_ok m1" using p1 by (simp add: pool_changed_def)
    have ok2: "client_ok m2" by (rule client_ok_same [OF c1]) (simp_all add: m2_def net_simps)
    have C: "Rhizofs_communicate E t rq None chk m =
      (if alloc_ok m1 then
         (case send_loop E s rq chk 0 m2 of
            None \<Rightarrow> None
          | Some (Gave_up err renew, m3) \<Rightarrow> Some (None, err, communicate_error E t None renew False m3)
          | Some (Sent, m3) \<Rightarrow> Some (receive_response E t s None chk m3))
       else (let m3 = z_next E Z_msg_close (reset_errno m2) in
          Some (None, n_errno m3, communicate_error E t None False False (reset_errno m3))))"
      by (simp add: Rhizofs_communicate_def 2(1) Request_pack_def flip: m1_def m2_def)
    show thesis
    proof (cases "alloc_ok m1")
      case False
      let ?m3 = "z_next E Z_msg_close (reset_errno m2)"
      have c3: "client_ok ?m3"
        using pool_changed_same [OF reset_ok [OF ok2] same_state_next(1)] by (simp add: pool_changed_def)
      show thesis
        by (rule gone [of "n_errno ?m3" False "reset_errno ?m3"])
           (use False C p1 reset_ok [OF c3] in \<open>simp_all add: Let_def pool_changed_def m2_def net_simps heap_simps\<close>)
    next
      case True
      obtain T where T: "unat (se_timeout (cl_settings m2)) = T" "T \<le> 4294"
        using ok2 by (simp add: client_ok_def timeout_ok_def)
      have o2: "n_sockets m2 s \<noteq> None" using o1 by (simp add: m2_def net_simps)
      from send_loop_returns [OF T _ o2, of 0 E rq chk] obtain m3 where s3: "same_state m2 m3"
        and S: "send_loop E s rq chk 0 m2 = Some (Sent, m3\<lparr>n_sent := n_sent m3 @ [(s, rq)]\<rparr>)
          \<or> (\<exists>e renew. e \<in> {EINTR, EAGAIN, EIO} \<and> send_loop E s rq chk 0 m2 = Some (Gave_up e renew, m3))"
        by auto
      have c3: "client_ok m3" using pool_changed_same [OF ok2 s3] by (simp add: pool_changed_def)
      have f3: "live m3 = live m" "faults m3 = faults m" "cl_cache m3 = cl_cache m"
        "cl_settings m3 = cl_settings m" "n_sent m3 = n_sent m" "n_sockets m3 s \<noteq> None"
        "cl_received m3 = cl_received m"
        using s3 p1 o1 by (simp_all add: same_state_def pool_changed_def m2_def net_simps heap_simps)
      from S show thesis
      proof (elim disjE exE conjE)
        fix e renew assume "send_loop E s rq chk 0 m2 = Some (Gave_up e renew, m3)"
        then show thesis using gone [of e renew m3] True C c3 f3 by simp
      next
        let ?m4 = "m3\<lparr>n_sent := n_sent m3 @ [(s, rq)]\<rparr>"
        assume sent: "send_loop E s rq chk 0 m2 = Some (Sent, ?m4)"
        have c4: "client_ok ?m4" by (rule client_ok_same [OF c3]) simp_all
        have o4: "n_sockets ?m4 s \<noteq> None" using f3(6) by simp
        show thesis
        proof (rule receive_response_cases [OF c4 E o4, of t chk], goal_cases)
          case (1 e m5)
          then show thesis
            by (intro lost [of e m5])
               (use True C sent f3 in \<open>auto simp: exchanged_def only_uninitialised_def\<close>)
        next
          case (2 r m5)
          then show thesis
            by (intro answered [of r m5 s]) (use True C sent f3 in \<open>auto simp: exchanged_def\<close>)
        qed
      qed
    qed
  qed
qed

section \<open>A network that works\<close>

definition answers :: "'w zmq_env \<Rightarrow> response \<Rightarrow> bool" where
  \<comment> \<open>no call fails, and what is received is \<open>r\<close>\<close>
  "answers E r \<longleftrightarrow> (\<forall>c w. \<not> failed (fst (z_call E c w)))
     \<and> (\<forall>s n w. \<exists>k > 0. fst (z_call E (Z_poll s n) w) = Inr k)
     \<and> (\<forall>s w. fst (z_recv E s w) = Inr (Some r))"

lemma working_calls: "answers E r \<Longrightarrow> failed (z_ret E c m) = False" "answers E r \<Longrightarrow> \<exists>n. z_ret E c m = Inr n"
proof -
  assume "answers E r"
  then have f: "\<not> failed (z_ret E c m)" by (simp add: answers_def z_ret_def)
  then show "failed (z_ret E c m) = False" by simp
  from f show "\<exists>n. z_ret E c m = Inr n" by (cases "z_ret E c m") (simp_all add: failed_def)
qed

lemma create_socket_works:
  assumes "answers E r" "spk \<noteq> None \<longrightarrow> cpk \<noteq> None \<and> csk \<noteq> None"
  shows "fst (create_socket E ctx ty spk cpk csk m) \<noteq> None"
  using assms(2)
  by (auto simp: create_socket_def zmq_socket_def set_key_def zmq_setsockopt_def Let_def
      working_calls(1) [OF assms(1)] split: option.split)

lemma get_socket_works:
  assumes "answers E r" "pool_ok sp m" "pool_encrypted sp"
  shows "fst (SocketPool_get_socket E t sp m) \<noteq> None"
proof (cases "sp_specific sp t")
  case None
  obtain s m1 where c: "create_socket E (sp_context sp) (sp_socket_type sp) (sp_server_public_key sp)
      (sp_client_public_key sp) (sp_client_secret_key sp) m = (Some s, m1)"
    using create_socket_works [OF assms(1) assms(3) [unfolded pool_encrypted_def], of "sp_context sp" "sp_socket_type sp" m]
    by (metis option.exhaust prod.collapse)
  obtain name where "sp_socket_name sp = Some name" using assms(2) by (auto simp: pool_ok_def)
  with None c show ?thesis
    by (simp add: SocketPool_get_socket_def zmq_connect_def Let_def working_calls(1) [OF assms(1)])
qed (simp add: SocketPool_get_socket_def)

lemma receive_works:
  assumes "answers E r" "n_sockets m s \<noteq> None" "outcomes m = []"
  obtains m' where "receive_response E t s None chk m
      = (Some (Response_from_message r), Response_get_errno r, m')"
    "outcomes m' = []" "cl_received m' = cl_received m @ [r]"
proof -
  let ?m1 = "z_next E Z_msg_init m"
  have t: "touch_socket s ?m1 = ?m1" using assms(2) by (auto simp: touch_socket_def net_simps)
  have rcv: "fst (z_recv E s w) = Inr (Some r)" for w using assms(1) by (simp add: answers_def)
  obtain k where k: "z_ret E (Z_poll s POLL_TIMEOUT_MSEC) ?m1 = Inr k" "k > 0"
    using assms(1) unfolding answers_def z_ret_def by blast
  let ?m3 = "z_next E (Z_poll s POLL_TIMEOUT_MSEC) ?m1"
  let ?m4 = "?m3\<lparr>n_world := snd (z_recv E s (n_world ?m3)), n_errno := n_errno ?m3\<rparr>"
  have e: "Response_get_errno (Response_from_message r) = Response_get_errno r"
    by (simp add: Response_get_errno_def Response_from_message_def)
  have "receive_response E t s None chk m = (Some (Response_from_message r), Response_get_errno r,
      (adopt (response_blocks (Response_from_message r)) ?m4)\<lparr>cl_received := cl_received ?m4 @ [r]\<rparr>)"
    using k rcv by (simp add: receive_response_def Let_def working_calls(1) [OF assms(1)] t e)
  then show thesis by (rule that) (simp_all add: assms(3) net_simps heap_simps adopt_def)
qed

lemma communicate_works:
  assumes "client_ok m" "forgets E" "answers E r" "outcomes m = []" "pool_encrypted (cl_pool m)"
  obtains m' where "Rhizofs_communicate E t rq None chk m
      = Some (Some (Response_from_message r), Response_get_errno r, m')"
    "exchanged rq (response_blocks (Response_from_message r)) m m'" "cl_received m' = cl_received m @ [r]"
    "\<exists>s. n_sent m' = n_sent m @ [(s, rq)]" "outcomes m' = []"
proof -
  have "pool_ok (cl_pool m) m" using assms(1) by (simp add: client_ok_def)
  from get_socket_works [OF assms(3) this assms(5), of t] obtain s sp m0 where
    g: "SocketPool_get_socket E t (cl_pool m) m = (Some s, sp, m0)" by (metis prod.collapse option.exhaust)
  then obtain p0: "pool_changed m (m0\<lparr>cl_pool := sp\<rparr>)" and o: "n_sockets m0 s \<noteq> None"
    by (rule_tac get_socket_in_client [OF assms(1), of E t]) auto
  define m1 where "m1 = realloc_next (m0\<lparr>cl_pool := sp\<rparr>)"
  have out: "outcomes (m0\<lparr>cl_pool := sp\<rparr>) = []" using p0 assms(4) by (simp add: pool_changed_def)
  obtain n where sn: "z_ret E (Z_send s rq) m1 = Inr n" using working_calls(2) [OF assms(3)] by blast
  have t1: "touch_socket s m1 = m1" using o by (auto simp: touch_socket_def m1_def net_simps)
  define m2 where "m2 = z_next E (Z_send s rq) m1"
  have S: "send_loop E s rq chk 0 m1 = Some (Sent, m2\<lparr>n_sent := n_sent m2 @ [(s, rq)]\<rparr>)"
    by (subst send_loop.simps) (simp add: t1 sn Let_def flip: m2_def)
  let ?m3 = "m2\<lparr>n_sent := n_sent m2 @ [(s, rq)]\<rparr>"
  have so: "n_sockets ?m3 s \<noteq> None" "outcomes ?m3 = []" "cl_received ?m3 = cl_received m"
    using o out p0 by (simp_all add: m1_def m2_def net_simps heap_simps pool_changed_def)
  obtain m5 where R: "receive_response E t s None chk ?m3
      = (Some (Response_from_message r), Response_get_errno r, m5)" "outcomes m5 = []"
      "cl_received m5 = cl_received m @ [r]"
    using receive_works [OF assms(3) so(1,2), of t chk] so(3) by auto
  have P: "Request_pack rq (m0\<lparr>cl_pool := sp\<rparr>) = (Some rq, m1)"
    using out by (simp add: Request_pack_def m1_def heap_simps)
  have C: "Rhizofs_communicate E t rq None chk m = Some (Some (Response_from_message r), Response_get_errno r, m5)"
    by (simp only: Rhizofs_communicate_def g P S R(1) Let_def prod.case option.case send_result.case)
  show thesis
  proof (rule communicate_cases [OF assms(1,2), of t rq chk], goal_cases)
    case (2 r' m' s')
    have e: "m' = m5" "Response_from_message r' = Response_from_message r" using C 2(1) by simp_all
    show thesis
    proof (rule that [OF C _ R(3) _ R(2)])
      show "exchanged rq (response_blocks (Response_from_message r)) m m5" using 2(2) by (simp only: e)
      show "\<exists>s. n_sent m5 = n_sent m @ [(s, rq)]" using 2 by (auto simp only: e)
    qed
  qed (use C in simp)
qed

section \<open>Properties\<close>

lemma seconds_bound: "unat ((w :: 32 word) div 1000000) \<le> 4294"
proof -
  have "unat w < 2 ^ 32" using unsigned_less [of w] by simp
  then show ?thesis by (simp add: unat_div)
qed

definition never_accepts :: "'w zmq_env \<Rightarrow> bool" where
  \<comment> \<open>a peer that never takes a message, and a file system nobody interrupts\<close>
  "never_accepts E \<longleftrightarrow> (\<forall>w s rq. fst (z_call E (Z_send s rq) w) = Inl EAGAIN)
     \<and> (\<forall>w. fst (z_call E Z_fuse_interrupted w) = Inr 0 \<and> fst (z_call E Z_fuse_exited w) = Inr 0)"


definition demo_table :: "cache_entry hash_t" where
  "demo_table = \<lparr>hash_table = [[]], hash_nchains = 1, hash_nodecount = 0, hash_maxcount = 1000, hash_highmark = 2,
     hash_lowmark = 1, hash_compare = strcmp, hash_function = Hashfunc_djb2, hash_node_blocks = 3,
     hash_mask = 0, hash_dynamic = True\<rparr>"

definition demo_net :: "32 word \<Rightarrow> unit client" where
  \<comment> \<open>a client with one open socket\<close>
  "demo_net timeout = \<lparr>outcomes = [], live = 0, faults = [], n_errno = 0, n_world = (),
     n_sockets = [2 \<mapsto> \<lparr>zs_type = 3, zs_options = [], zs_endpoint = None\<rparr>], n_next = 3, n_sent = [],
     cl_pool = zero_pool,
     cl_cache = \<lparr>ac_table = demo_table, ac_max_age_sec = 3, ac_batch_size = 50, ac_locked = False\<rparr>,
     cl_settings = \<lparr>se_host_socket = None, se_server_public_key = None, se_server_public_key_file = None,
       se_client_public_key_file = None, se_client_public_key = None,
       se_client_secret_key = None, se_timeout = timeout, se_check_socket_connection = True\<rparr>,
     cl_received = []\<rparr>"


text \<open>
  A timeout above 4294 seconds is none: the counter of the attempts has 32 bits, so the
  seconds computed from it never reach the timeout, and a request nobody accepts makes the
  operation loop for ever.
\<close>

theorem long_timeout_never_ends:
  assumes "4294 < unat (se_timeout (cl_settings m))" "never_accepts E"
  shows "send_loop E s rq chk repetition m = None"
proof (rule ccontr)
  let ?P = "\<lambda>(E :: 'a zmq_env) (s :: nat) (rq :: request) (chk :: bool) (rep :: 32 word) (m :: 'a client) (y :: send_result \<times> 'a client).
    \<not> (never_accepts E \<and> 4294 < unat (se_timeout (cl_settings m)))"
  assume "send_loop E s rq chk repetition m \<noteq> None"
  then obtain y where y: "send_loop E s rq chk repetition m = Some y" by blast
  have "?P E s rq chk repetition m y"
  proof (rule send_loop.raw_induct [where P = ?P], goal_cases)
    case (1 loop E s rq chk rep m y)
    show ?case
    proof
      assume A: "never_accepts E \<and> 4294 < unat (se_timeout (cl_settings m))"
      let ?m0 = "touch_socket s m" and ?c = "Z_send s rq"
      let ?m2 = "z_next E (Z_usleep 1) (z_next E ?c ?m0)"
      let ?i = "interrupted E chk ?m2"
      have i: "\<not> fst ?i" using A by (simp add: interrupted_def never_accepts_def z_ret_def nonzero_def Let_def)
      have st: "cl_settings (snd ?i) = cl_settings m"
        using same_state_interrupted [of ?m2 E chk] by (simp add: same_state_def net_simps touch_socket_def)
      have t: "\<not> (rep + 1) div 1000000 \<ge> se_timeout (cl_settings m)"
        using A seconds_bound [of "rep + 1"] by (simp add: word_le_nat_alt)
      have "z_ret E ?c ?m0 = Inl EAGAIN" using A by (simp add: z_ret_def never_accepts_def)
      then have "loop E s rq chk (rep + 1) (snd ?i) = Some y"
        using 1(2) i t by (simp add: Let_def)
      from 1(1) [OF this] A st show False by simp
    qed
  qed (rule y)
  with assms show False by simp
qed

definition deaf_zmq :: "unit zmq_env" where
  "deaf_zmq = quiet_zmq\<lparr>z_call := (\<lambda>c w. (case c of Z_send _ _ \<Rightarrow> Inl EAGAIN | _ \<Rightarrow> Inr 0, w))\<rparr>"

theorem long_timeout_never_ends_witness:
  "send_loop deaf_zmq 1 empty_request True 0 (demo_net 5000) = None"
  by (rule long_timeout_never_ends) (simp_all add: never_accepts_def deaf_zmq_def demo_net_def)

end
