(* ===== verification/Rhizo_Operations.thy ===== *)
theory Rhizo_Operations
  imports Rhizo_Client
begin

text \<open>
  Model of the operations of the file system in \<^verbatim>\<open>src/fs/rhizofs.c\<close>. Every operation fills in a
  request, exchanges it for a response with \<open>Rhizofs_communicate\<close> and turns the response into the
  result libfuse expects, keeping the attribute cache up to date.

  What is proved: every operation returns, sends at most one request, the one it stands for, keeps
  the cache and pool invariants and gives back its memory; its result and which cache entries it
  drops; the paths on which a failure is returned as success.
\<close>

section \<open>The operations of the file system\<close>

text \<open>
  The macros of the operations. \<open>out\<close> makes the result of an operation from the C return value
  (most return nothing else). On the label \<^verbatim>\<open>error\<close> the request is deinitialised, the response
  destroyed, and the negated \<^verbatim>\<open>returned_err\<close> returned; \<open>Rhizofs_communicate\<close> has set that to 0 when
  it succeeded, so the checks that follow return 0.
\<close>

definition OP_DEINIT :: "request \<Rightarrow> response option \<Rightarrow> 'w client \<Rightarrow> 'w client" where
  "OP_DEINIT rq resp m = Response_from_message_destroy resp (Request_deinit rq m)"

definition OP_FAIL :: "(int \<Rightarrow> 'r) \<Rightarrow> int \<Rightarrow> request \<Rightarrow> response option \<Rightarrow> 'w client \<Rightarrow> 'r \<times> 'w client" where
  "OP_FAIL out returned_err rq resp m = (out (- returned_err), OP_DEINIT rq resp (reset_errno m))"

definition OP_INIT :: "(int \<Rightarrow> 'r) \<Rightarrow> (request \<Rightarrow> 'w client \<Rightarrow> ('r \<times> 'w client) option) \<Rightarrow> 'w client
    \<Rightarrow> ('r \<times> 'w client) option" where
  "OP_INIT out body m =
     (case Request_init m of
        (None, m1) \<Rightarrow> Some (OP_FAIL out ENOMEM empty_request None m1)
      | (Some rq, m1) \<Rightarrow> body rq m1)"

definition OP_COMMUNICATE :: "'w zmq_env \<Rightarrow> nat \<Rightarrow> (int \<Rightarrow> 'r) \<Rightarrow> request
    \<Rightarrow> (response \<Rightarrow> 'w client \<Rightarrow> 'r \<times> 'w client) \<Rightarrow> 'w client \<Rightarrow> ('r \<times> 'w client) option" where
  "OP_COMMUNICATE E t out rq body m =
     (case Rhizofs_communicate E t rq None True m of
        None \<Rightarrow> None
      | Some (resp, returned_err, m1) \<Rightarrow>
          Some (if returned_err \<noteq> 0 then OP_FAIL out returned_err rq resp m1
                else case resp of
                  None \<Rightarrow> OP_FAIL out 0 rq None m1
                | Some rs \<Rightarrow> body rs m1))"

definition cache_remove :: "string \<Rightarrow> 'w client \<Rightarrow> 'w client" where
  \<comment> \<open>\<^verbatim>\<open>AttrCache_remove(&attrcache, path)\<close>\<close>
  "cache_remove path m = (let (c, m1) = AttrCache_remove (cl_cache m) (Some path) m in m1\<lparr>cl_cache := c\<rparr>)"

definition cache_set :: "'w zmq_env \<Rightarrow> string \<Rightarrow> cache_entry \<Rightarrow> 'w client \<Rightarrow> bool \<times> 'w client" where
  "cache_set E path e m =
     (let (r, c, m1) = AttrCache_set (z_time E (n_world m)) (cl_cache m) path (Some e) m
      in (r, m1\<lparr>cl_cache := c\<rparr>))"

definition op_done :: "request \<Rightarrow> response \<Rightarrow> 'w client \<Rightarrow> int \<times> 'w client" where
  "op_done rq rs m = (0, OP_DEINIT rq (Some rs) m)"

definition op_done_uncached :: "string \<Rightarrow> request \<Rightarrow> response \<Rightarrow> 'w client \<Rightarrow> int \<times> 'w client" where
  "op_done_uncached path rq rs m = op_done rq rs (cache_remove path m)"

definition with_permissions :: "(int \<Rightarrow> 'r) \<Rightarrow> mode_t \<Rightarrow> request
    \<Rightarrow> (request \<Rightarrow> 'w client \<Rightarrow> ('r \<times> 'w client) option) \<Rightarrow> 'w client \<Rightarrow> ('r \<times> 'w client) option" where
  \<comment> \<open>\<^verbatim>\<open>request.permissions = Permissions_create(mode); check(...)\<close>\<close>
  "with_permissions out mode rq body m =
     (case Permissions_create mode m of
        (None, m1) \<Rightarrow> Some (OP_FAIL out OP_STD_RETURNED_ERR rq None m1)
      | (Some p, m1) \<Rightarrow> body (rq\<lparr>rq_permissions := Some p\<rparr>) m1)"

definition Rhizofs_rmdir :: "'w zmq_env \<Rightarrow> nat \<Rightarrow> string \<Rightarrow> 'w client \<Rightarrow> (int \<times> 'w client) option" where
  "Rhizofs_rmdir E t path =
     OP_INIT id (\<lambda>request. let request = request\<lparr>rq_path := Some path, rq_type := RMDIR\<rparr> in
       OP_COMMUNICATE E t id request (op_done_uncached path request))"

definition Rhizofs_mkdir :: "'w zmq_env \<Rightarrow> nat \<Rightarrow> string \<Rightarrow> mode_t \<Rightarrow> 'w client \<Rightarrow> (int \<times> 'w client) option" where
  "Rhizofs_mkdir E t path mode =
     OP_INIT id (\<lambda>request. let request = request\<lparr>rq_type := MKDIR, rq_path := Some path\<rparr> in
       with_permissions id mode request (\<lambda>request. OP_COMMUNICATE E t id request (op_done request)))"

definition Rhizofs_unlink :: "'w zmq_env \<Rightarrow> nat \<Rightarrow> string \<Rightarrow> 'w client \<Rightarrow> (int \<times> 'w client) option" where
  "Rhizofs_unlink E t path =
     OP_INIT id (\<lambda>request. let request = request\<lparr>rq_path := Some path, rq_type := UNLINK\<rparr> in
       OP_COMMUNICATE E t id request (op_done_uncached path request))"

definition Rhizofs_access :: "'w zmq_env \<Rightarrow> nat \<Rightarrow> string \<Rightarrow> mode_t \<Rightarrow> 'w client \<Rightarrow> (int \<times> 'w client) option" where
  "Rhizofs_access E t path access_mask =
     OP_INIT id (\<lambda>request. let request = request\<lparr>rq_path := Some path, rq_type := ACCESS\<rparr> in
       with_permissions id access_mask request (\<lambda>request. OP_COMMUNICATE E t id request (op_done request)))"

definition Rhizofs_open :: "'w zmq_env \<Rightarrow> nat \<Rightarrow> string \<Rightarrow> 32 word \<Rightarrow> 'w client \<Rightarrow> (int \<times> 'w client) option" where
  "Rhizofs_open E t path flags =
     OP_INIT id (\<lambda>request m. let request = request\<lparr>rq_type := OPEN, rq_path := Some path\<rparr> in
       case OpenFlags_from_bitmask flags m of
         (None, m1) \<Rightarrow> Some (OP_FAIL id OP_STD_RETURNED_ERR request None m1)
       | (Some f, m1) \<Rightarrow>
           (let request = request\<lparr>rq_openflags := Some f\<rparr> in
            OP_COMMUNICATE E t id request (op_done request) m1))"

definition Rhizofs_create :: "'w zmq_env \<Rightarrow> nat \<Rightarrow> string \<Rightarrow> mode_t \<Rightarrow> 'w client \<Rightarrow> (int \<times> 'w client) option" where
  "Rhizofs_create E t path create_mode =
     OP_INIT id (\<lambda>request. let request = request\<lparr>rq_type := CREATE, rq_path := Some path\<rparr> in
       with_permissions id create_mode request (\<lambda>request. OP_COMMUNICATE E t id request (op_done request)))"

definition Rhizofs_truncate :: "'w zmq_env \<Rightarrow> nat \<Rightarrow> string \<Rightarrow> int \<Rightarrow> 'w client \<Rightarrow> (int \<times> 'w client) option" where
  "Rhizofs_truncate E t path offset =
     OP_INIT id (\<lambda>request. let request = request\<lparr>rq_path := Some path, rq_offset := Some (int64 offset),
         rq_type := TRUNCATE\<rparr> in
       OP_COMMUNICATE E t id request (op_done_uncached path request))"

definition Rhizofs_chmod :: "'w zmq_env \<Rightarrow> nat \<Rightarrow> string \<Rightarrow> mode_t \<Rightarrow> 'w client \<Rightarrow> (int \<times> 'w client) option" where
  "Rhizofs_chmod E t path access_mode =
     OP_INIT id (\<lambda>request. let request = request\<lparr>rq_type := CHMOD, rq_path := Some path\<rparr> in
       with_permissions id access_mode request
         (\<lambda>request. OP_COMMUNICATE E t id request (op_done_uncached path request)))"

definition utimens_times :: "'w zmq_env \<Rightarrow> ((int \<times> int) \<times> (int \<times> int)) option \<Rightarrow> 'w client \<Rightarrow> time_set \<Rightarrow> time_set" where
  "utimens_times E tv m ts =
     (case tv of
        Some ((asec, ansec), (msec, mnsec)) \<Rightarrow>
          ts\<lparr>ts_access_sec := asec, ts_access_usec := usec_of_nsec ansec,
             ts_modify_sec := msec, ts_modify_usec := usec_of_nsec mnsec,
             ts_has_access_usec := True, ts_has_modify_usec := True\<rparr>
      | None \<Rightarrow>
          (let (sec, usec) = z_gettimeofday E (n_world m) in
           ts\<lparr>ts_access_sec := sec, ts_access_usec := int32 usec,
              ts_modify_sec := sec, ts_modify_usec := int32 usec,
              ts_has_access_usec := True, ts_has_modify_usec := True\<rparr>))"

definition Rhizofs_utimens :: "'w zmq_env \<Rightarrow> nat \<Rightarrow> string \<Rightarrow> ((int \<times> int) \<times> (int \<times> int)) option
    \<Rightarrow> 'w client \<Rightarrow> (int \<times> 'w client) option" where
  "Rhizofs_utimens E t path tv =
     OP_INIT id (\<lambda>request m. let request = request\<lparr>rq_type := UTIMENS, rq_path := Some path\<rparr> in
       case TimeSet_create m of
         (None, m1) \<Rightarrow> Some (OP_FAIL id OP_STD_RETURNED_ERR request None m1)
       | (Some ts, m1) \<Rightarrow>
           (let request = request\<lparr>rq_timestamps := Some (utimens_times E tv m1 ts)\<rparr> in
            OP_COMMUNICATE E t id request (op_done_uncached path request) m1))"

definition Rhizofs_link :: "'w zmq_env \<Rightarrow> nat \<Rightarrow> string \<Rightarrow> string \<Rightarrow> 'w client \<Rightarrow> (int \<times> 'w client) option" where
  "Rhizofs_link E t path_from path_to =
     OP_INIT id (\<lambda>request. let request = request\<lparr>rq_type := LINK, rq_path := Some path_from,
         rq_path_to := Some path_to\<rparr> in
       OP_COMMUNICATE E t id request (op_done request))"

definition Rhizofs_rename :: "'w zmq_env \<Rightarrow> nat \<Rightarrow> string \<Rightarrow> string \<Rightarrow> 'w client \<Rightarrow> (int \<times> 'w client) option" where
  "Rhizofs_rename E t path_from path_to =
     OP_INIT id (\<lambda>request. let request = request\<lparr>rq_type := RENAME, rq_path := Some path_from,
         rq_path_to := Some path_to\<rparr> in
       OP_COMMUNICATE E t id request (op_done_uncached path_from request))"

definition Rhizofs_symlink :: "'w zmq_env \<Rightarrow> nat \<Rightarrow> string \<Rightarrow> string \<Rightarrow> 'w client \<Rightarrow> (int \<times> 'w client) option" where
  "Rhizofs_symlink E t path_to path_from =
     OP_INIT id (\<lambda>request. let request = request\<lparr>rq_type := SYMLINK, rq_path := Some path_from,
         rq_path_to := Some path_to\<rparr> in
       OP_COMMUNICATE E t id request (op_done request))"

definition Rhizofs_mknod :: "'w zmq_env \<Rightarrow> nat \<Rightarrow> string \<Rightarrow> mode_t \<Rightarrow> 'w client \<Rightarrow> (int \<times> 'w client) option" where
  "Rhizofs_mknod E t path mode m =
     (if \<not> S_ISREG mode then Some (- EPERM, m)
      else OP_INIT id (\<lambda>request. let request = request\<lparr>rq_type := MKNOD, rq_path := Some path,
             rq_filetype := Some (FileType_from_local mode)\<rparr> in
           with_permissions id mode request
             (\<lambda>request. OP_COMMUNICATE E t id request (op_done request))) m)"

definition Rhizofs_chown :: "string \<Rightarrow> nat \<Rightarrow> nat \<Rightarrow> 'w client \<Rightarrow> (int \<times> 'w client) option" where
  "Rhizofs_chown path user grp m = Some (- ENOTSUP, m)"

text \<open>Operations that return data: a result is the C return value and what was written to the caller.\<close>

definition Rhizofs_read :: "'w zmq_env \<Rightarrow> nat \<Rightarrow> string \<Rightarrow> nat \<Rightarrow> int \<Rightarrow> 'w client
    \<Rightarrow> ((int \<times> byte list) \<times> 'w client) option" where
  "Rhizofs_read E t path size_wanted offset =
     (let out = (\<lambda>n. (n, [])) in
      OP_INIT out (\<lambda>request. let request = request\<lparr>rq_path := Some path,
          rq_size := Some (int64 (int size_wanted)), rq_offset := Some (int64 offset), rq_type := READ\<rparr> in
        OP_COMMUNICATE E t out request (\<lambda>response m.
          case rs_datablock response of
            None \<Rightarrow> OP_FAIL out 0 request (Some response) m
          | Some d \<Rightarrow>
              (if Response_has_data response = -1 then OP_FAIL out 0 request (Some response) m
               else case DataBlock_get_data_noalloc d size_wanted m of
                 (None, m1) \<Rightarrow> ((-1, []), OP_DEINIT request (Some response) m1)
               | (Some (size_read, buf), m1) \<Rightarrow>
                   ((size_read, buf), OP_DEINIT request (Some response) m1)))))"

definition Rhizofs_write :: "'w zmq_env \<Rightarrow> nat \<Rightarrow> string \<Rightarrow> byte list \<Rightarrow> int \<Rightarrow> 'w client
    \<Rightarrow> (int \<times> 'w client) option" where
  "Rhizofs_write E t path buf offset =
     OP_INIT id (\<lambda>request m. let request = request\<lparr>rq_path := Some path,
         rq_size := Some (int64 (int (length buf))), rq_offset := Some (int64 offset), rq_type := WRITE\<rparr>;
         (data_set, request, m1) = Request_set_data request buf m
       in if \<not> data_set then Some (OP_FAIL id OP_STD_RETURNED_ERR request None m1)
          else OP_COMMUNICATE E t id request (\<lambda>response m.
            let m1 = cache_remove path m in
            case rs_size response of
              None \<Rightarrow> OP_FAIL id 0 request (Some response) m1
            | Some n \<Rightarrow> (int32 n, OP_DEINIT request (Some response) m1)) m1)"

definition Rhizofs_readlink :: "'w zmq_env \<Rightarrow> nat \<Rightarrow> string \<Rightarrow> nat \<Rightarrow> 'w client
    \<Rightarrow> ((int \<times> string option) \<times> 'w client) option" where
  \<comment> \<open>a buffer of \<open>len\<close> bytes; without room for the terminator the byte before it is overwritten\<close>
  "Rhizofs_readlink E t path len =
     (let out = (\<lambda>n. (n, None)) in
      OP_INIT out (\<lambda>request. let request = request\<lparr>rq_type := READLINK, rq_path := Some path\<rparr> in
        OP_COMMUNICATE E t out request (\<lambda>response m.
          case rs_link_target response of
            None \<Rightarrow> OP_FAIL out 0 request (Some response) m
          | Some target \<Rightarrow>
              ((0, Some (take (len - 1) target)),
               OP_DEINIT request (Some response) (if len = 0 then add_fault Buffer_overflow m else m)))))"

definition Rhizofs_statfs :: "'w zmq_env \<Rightarrow> nat \<Rightarrow> string \<Rightarrow> 'w client
    \<Rightarrow> ((int \<times> statvfs option) \<times> 'w client) option" where
  "Rhizofs_statfs E t path =
     (let out = (\<lambda>n. (n, None)) in
      OP_INIT out (\<lambda>request. let request = request\<lparr>rq_type := STATFS, rq_path := Some path\<rparr> in
        OP_COMMUNICATE E t out request (\<lambda>response m.
          case rs_statfs response of
            None \<Rightarrow> OP_FAIL out 0 request (Some response) m
          | Some sf \<Rightarrow>
              ((0, Some \<lparr>f_bsize = sf_bsize sf, f_frsize = sf_frsize sf, f_blocks = sf_blocks sf,
                 f_bfree = sf_bfree sf, f_bavail = sf_bavail sf, f_files = sf_files sf,
                 f_ffree = sf_ffree sf, f_favail = sf_favail sf, f_fsid = sf_fsid sf,
                 f_flag = sf_flag sf, f_namemax = sf_namemax sf\<rparr>),
               OP_DEINIT request (Some response) m))))"

definition Rhizofs_convert_attrs_stat :: "'w zmq_env \<Rightarrow> attrs \<Rightarrow> stat \<Rightarrow> 'w client \<Rightarrow> bool \<times> stat \<times> 'w client" where
  "Rhizofs_convert_attrs_stat E attrs stbuf m =
     (let (copied, sb, m1) = Attrs_copy_to_stat (Some attrs) stbuf m in
      if \<not> copied then (False, sb, reset_errno m1)
      else let
        sb1 = (if a_is_owner attrs then sb\<lparr>st_uid := z_uid E (n_world m1)\<rparr> else sb);
        sb2 = (if a_is_in_group attrs then sb1\<lparr>st_gid := z_gid E (n_world m1)\<rparr> else sb1)
      in (True, sb2, m1))"

definition Rhizofs_getattr_remote :: "'w zmq_env \<Rightarrow> nat \<Rightarrow> string \<Rightarrow> stat \<Rightarrow> 'w client
    \<Rightarrow> ((int \<times> stat) \<times> 'w client) option" where
  "Rhizofs_getattr_remote E t path stbuf =
     OP_INIT (\<lambda>n. (n, stbuf)) (\<lambda>request. let request = request\<lparr>rq_path := Some path, rq_type := GETATTR\<rparr> in
       OP_COMMUNICATE E t (\<lambda>n. (n, stbuf)) request (\<lambda>response m.
         case rs_attrs response of
           None \<Rightarrow> OP_FAIL (\<lambda>n. (n, stbuf)) 0 request (Some response) m
         | Some a \<Rightarrow>
            (let (converted, sb, m1) = Rhizofs_convert_attrs_stat E a stbuf m;
                 fail = OP_FAIL (\<lambda>n. (n, sb)) 0 request (Some response)
             in if \<not> converted then fail m1
                else if \<not> alloc_ok m1 then fail (alloc_next m1)
                else case CacheEntry_create (alloc_next m1) of
                  (None, m2) \<Rightarrow> fail (release 1 m2)
                | (Some e, m2) \<Rightarrow>
                   (let current_time = z_time E (n_world m2) in
                    if current_time = -1 then fail (release 2 m2)
                    else let (stored, m3) =
                        cache_set E path (e\<lparr>ce_creation_ts := current_time, ce_stat := sb\<rparr>) m2
                      in if \<not> stored then fail (release 2 m3)
                         else ((0, sb), OP_DEINIT request (Some response) m3)))))"

definition Rhizofs_getattr :: "'w zmq_env \<Rightarrow> nat \<Rightarrow> string \<Rightarrow> stat \<Rightarrow> 'w client
    \<Rightarrow> ((int \<times> stat) \<times> 'w client) option" where
  "Rhizofs_getattr E t path stbuf m =
     (let (r, c, m1) = AttrCache_copy_stat (z_time E (n_world m)) (cl_cache m) (Some path) m;
          m2 = m1\<lparr>cl_cache := c\<rparr>
      in case r of
           Some sb \<Rightarrow> Some ((0, sb), m2)
         | None \<Rightarrow> Rhizofs_getattr_remote E t path stbuf m2)"

text \<open>
  The local pointers \<^verbatim>\<open>path_entry\<close> and \<^verbatim>\<open>cache_entry\<close> of \<open>Rhizofs_readdir\<close> live across the iterations
  of its loop. After an iteration they point to blocks the cache owns (\<open>Given\<close>), and the label
  \<^verbatim>\<open>error\<close> frees whatever they point to.
\<close>

datatype pointer = Null | Owned | Given

definition free_pointer :: "pointer \<Rightarrow> 'a heap_scheme \<Rightarrow> 'a heap_scheme" where
  "free_pointer p h = (case p of Null \<Rightarrow> h | Owned \<Rightarrow> release 1 h | Given \<Rightarrow> add_fault Double_free h)"

fun fill_loop :: "'w zmq_env \<Rightarrow> string \<Rightarrow> int \<Rightarrow> attrs list \<Rightarrow> pointer \<Rightarrow> pointer \<Rightarrow> string list
    \<Rightarrow> 'w client \<Rightarrow> bool \<times> pointer \<times> pointer \<times> string list \<times> 'w client" where
  "fill_loop E path current_time [] path_entry cache_entry names m = (True, path_entry, cache_entry, names, m)"
| "fill_loop E path current_time (a # entries) path_entry cache_entry names m =
     (case a_name a of
        None \<Rightarrow> (False, path_entry, cache_entry, names, m)
      | Some name \<Rightarrow>
         (let c = Z_filler name; m1 = z_next E c m in
          if nonzero (z_ret E c m) then (True, path_entry, cache_entry, names, m1)
          else case path_join (Some path) (Some name) m1 of
            (None, m2) \<Rightarrow> (False, Null, cache_entry, names @ [name], m2)
          | (Some p, m2) \<Rightarrow>
              (case CacheEntry_create m2 of
                 (None, m3) \<Rightarrow> (False, Owned, Null, names @ [name], m3)
               | (Some e, m3) \<Rightarrow>
                   (let (converted, sb, m4) = Rhizofs_convert_attrs_stat E a (ce_stat e) m3 in
                    if \<not> converted then (False, Owned, Owned, names @ [name], m4)
                    else let (stored, m5) =
                        cache_set E p (e\<lparr>ce_creation_ts := current_time, ce_stat := sb\<rparr>) m4
                      in if \<not> stored then (False, Owned, Owned, names @ [name], m5)
                         else fill_loop E path current_time entries Given Given (names @ [name]) m5))))"

definition Rhizofs_readdir :: "'w zmq_env \<Rightarrow> nat \<Rightarrow> string \<Rightarrow> 'w client
    \<Rightarrow> ((int \<times> string list) \<times> 'w client) option" where
  "Rhizofs_readdir E t path =
     (let out = (\<lambda>n. (n, [])) in
      OP_INIT out (\<lambda>request. let request = request\<lparr>rq_path := Some path, rq_type := READDIR\<rparr> in
        OP_COMMUNICATE E t out request (\<lambda>response m.
          let current_time = z_time E (n_world m) in
          if current_time = -1 then OP_FAIL out 0 request (Some response) m
          else let (complete, path_entry, cache_entry, names, m1) =
              fill_loop E path current_time (rs_entries response) Null Null [] m
          in if complete then ((0, names), OP_DEINIT request (Some response) m1)
             else OP_FAIL (\<lambda>n. (n, names)) 0 request (Some response)
                    (free_pointer cache_entry (free_pointer path_entry m1)))))"


section \<open>The contract of an operation\<close>

text \<open>
  \<open>owed\<close> is the number of blocks that are in use apart from the cache's own: three for each of its
  entries. An operation keeps it, except that shrinking a full cache loses blocks (\<open>exact\<close> tells
  whether that can happen).
\<close>

definition owed :: "'w client \<Rightarrow> int" where
  "owed m = live m - 3 * int (cache_size (cl_cache m))"

definition leaves :: "bool \<Rightarrow> fault set \<Rightarrow> int \<Rightarrow> request set \<Rightarrow> 'w client \<Rightarrow> 'w client \<Rightarrow> bool" where
  \<comment> \<open>\<open>F\<close>: the faults that may have happened, \<open>k\<close>: the blocks given back, \<open>R\<close>: the requests that may have been sent\<close>
  "leaves exact F k R m m' \<longleftrightarrow> client_ok m' \<and> cl_settings m' = cl_settings m
     \<and> (if exact then owed m' = owed m - k else owed m' \<ge> owed m - k)
     \<and> (\<exists>fs. faults m' = faults m @ fs \<and> set fs \<subseteq> F)
     \<and> (n_sent m' = n_sent m \<or> (\<exists>s. \<exists>rq \<in> R. n_sent m' = n_sent m @ [(s, rq)]))"

definition prepared :: "int \<Rightarrow> 'w client \<Rightarrow> 'w client \<Rightarrow> bool" where
  \<comment> \<open>only the heap has changed: \<open>k\<close> blocks more\<close>
  "prepared k m m' \<longleftrightarrow> live m' = live m + k \<and> faults m' = faults m \<and> n_sockets m' = n_sockets m
     \<and> n_next m' = n_next m \<and> n_sent m' = n_sent m \<and> cl_pool m' = cl_pool m \<and> cl_cache m' = cl_cache m
     \<and> cl_settings m' = cl_settings m \<and> cl_received m' = cl_received m"

lemma prepared_ok: "prepared k m m' \<Longrightarrow> client_ok m \<Longrightarrow> client_ok m'"
  by (rule client_ok_same) (simp_all add: prepared_def)

lemma prepared_trans: "prepared a m m1 \<Longrightarrow> prepared b m1 m2 \<Longrightarrow> prepared (a + b) m m2"
  by (simp add: prepared_def)

lemma leaves_prepared_first:
  "prepared a m m1 \<Longrightarrow> leaves ex F k R m1 m' \<Longrightarrow> leaves ex F (k - a) R m m'"
  by (auto simp: prepared_def leaves_def owed_def)

lemma leaves_prepared_then:
  "leaves ex F k R m m1 \<Longrightarrow> prepared a m1 m' \<Longrightarrow> leaves ex F (k - a) R m m'"
  using prepared_ok [of a m1 m'] by (auto simp: prepared_def leaves_def owed_def)

lemma leaves_prepared: "client_ok m \<Longrightarrow> prepared a m m' \<Longrightarrow> leaves ex F (- a) R m m'"
  using prepared_ok [of a m m'] by (auto simp: prepared_def leaves_def owed_def)

lemma leaves_trans:
  assumes "leaves ex F k R m m1" "leaves ex F k' {} m1 m2"
  shows "leaves ex F (k + k') R m m2"
  using assms by (cases ex) (auto simp: leaves_def)

lemma leaves_mono: "leaves ex F k R m m' \<Longrightarrow> F \<subseteq> F' \<Longrightarrow> R \<subseteq> R' \<Longrightarrow> (ex' \<longrightarrow> ex) \<Longrightarrow> leaves ex' F' k R' m m'"
  by (cases ex; cases ex') (auto simp: leaves_def)

definition op_at :: "bool \<Rightarrow> fault set \<Rightarrow> int \<Rightarrow> request set \<Rightarrow> ('r \<Rightarrow> 'w client \<Rightarrow> bool) \<Rightarrow> 'w client
    \<Rightarrow> ('r \<times> 'w client) option \<Rightarrow> bool" where
  \<comment> \<open>from the state \<open>m\<close> the operation returns, and its result and final state satisfy \<open>Q\<close>\<close>
  "op_at ex F k R Q m res \<longleftrightarrow> (\<exists>x m'. res = Some (x, m') \<and> leaves ex F k R m m' \<and> Q x m')"

lemma op_at_prepared:
  "prepared a m m1 \<Longrightarrow> op_at ex F k R Q m1 res \<Longrightarrow> op_at ex F (k - a) R Q m res"
  by (auto simp: op_at_def dest: leaves_prepared_first)

section \<open>The macros keep the contract\<close>

definition request_parts :: "request \<Rightarrow> int" where
  \<comment> \<open>what \<open>Request_deinit\<close> frees\<close>
  "request_parts rq = request_blocks rq - 1"

lemma heap_client_frame [net_simps]:
  fixes m :: "'w client"
  shows "n_sockets (release k m) = n_sockets m" "n_next (release k m) = n_next m" "n_sent (release k m) = n_sent m"
  by (simp_all add: release_def)

lemma Request_deinit_release: "Request_deinit rq h = release (request_parts rq) h"
  by (auto simp: Request_deinit_def request_parts_def request_blocks_def heap_simps of_opt_def
      OpenFlags_destroy_def TimeSet_destroy_def algebra_simps split: option.splits)

lemma OP_DEINIT_release:
  "OP_DEINIT rq resp m = release (request_parts rq + of_opt response_blocks resp) m"
  by (cases resp) (simp_all add: OP_DEINIT_def Request_deinit_release Response_from_message_destroy_def
      heap_simps algebra_simps)

lemma prepared_release [simp]: "prepared (- k) m (release k m)"
  by (simp add: prepared_def net_simps heap_simps)

lemma prepared_reset [simp]: "prepared 0 m (reset_errno m)"
  by (simp add: prepared_def net_simps)

lemma prepared_deinit [simp]:
  "prepared (- (request_parts rq + of_opt response_blocks resp)) m (OP_DEINIT rq resp m)"
  unfolding OP_DEINIT_release by (rule prepared_release)

lemma OP_FAIL_run:
  obtains m' where "OP_FAIL out e rq resp m = (out (- e), m')"
    "prepared (- (request_parts rq + of_opt response_blocks resp)) m m'"
  using that [of "OP_DEINIT rq resp (reset_errno m)"]
    prepared_trans [OF prepared_reset [of m] prepared_deinit [of rq resp "reset_errno m"]]
  by (simp add: OP_FAIL_def)

lemma request_parts_simps [simp]:
  "request_parts new_request = 1" "request_parts empty_request = 0"
  "request_parts (rq\<lparr>rq_path := p\<rparr>) = request_parts rq" "request_parts (rq\<lparr>rq_type := ty\<rparr>) = request_parts rq"
  "request_parts (rq\<lparr>rq_path_to := p\<rparr>) = request_parts rq" "request_parts (rq\<lparr>rq_size := n\<rparr>) = request_parts rq"
  "request_parts (rq\<lparr>rq_offset := n\<rparr>) = request_parts rq"
  "request_parts (rq\<lparr>rq_filetype := ft\<rparr>) = request_parts rq"
  by (simp_all add: request_parts_def request_blocks_def new_request_def empty_request_def)

lemma OP_INIT_ok:
  assumes "client_ok m"
    and "\<And>m1. client_ok m1 \<Longrightarrow> prepared 1 m m1 \<Longrightarrow> op_at ex F 1 R Q m1 (body new_request m1)"
    and "\<And>m1. prepared 0 m m1 \<Longrightarrow> Q (out (- ENOMEM)) m1"
  shows "op_at ex F 0 R Q m (OP_INIT out body m)"
proof (cases "alloc_ok m")
  case True
  have p: "prepared 1 m (alloc_next m)" using True by (simp add: prepared_def net_simps heap_simps)
  from op_at_prepared [OF p assms(2) [OF prepared_ok [OF p assms(1)] p]] True show ?thesis
    by (simp add: OP_INIT_def Request_init_def new_request_def)
next
  case False
  have p: "prepared 0 m (alloc_next m)" using False by (simp add: prepared_def net_simps heap_simps)
  obtain m' where f: "OP_FAIL out ENOMEM empty_request None (alloc_next m) = (out (- ENOMEM), m')"
    "prepared (- (request_parts empty_request + of_opt response_blocks None)) (alloc_next m) m'"
    by (rule OP_FAIL_run)
  then have "prepared 0 m m'" using prepared_trans [OF p f(2)] by simp
  with assms(1,3) f False leaves_prepared [of m 0 m' ex F R] show ?thesis
    by (simp add: OP_INIT_def Request_init_def op_at_def)
qed

text \<open>
  The outcomes of \<open>OP_COMMUNICATE\<close>: the request was lost, the server reported an error, or the
  body runs on the response.
\<close>

lemma OP_COMMUNICATE_ok:
  assumes ok: "client_ok m" and E: "forgets E" and R: "rq \<in> R" and F: "Uninitialised_use \<in> F"
    and lost: "\<And>e m1. cl_cache m1 = cl_cache m \<Longrightarrow> cl_received m1 = cl_received m
        \<Longrightarrow> (e = 0 \<Longrightarrow> n_sent m1 = n_sent m) \<Longrightarrow> Q (out (- e)) m1"
    and refused: "\<And>r m1. cl_cache m1 = cl_cache m \<Longrightarrow> cl_received m1 = cl_received m @ [r]
        \<Longrightarrow> Response_get_errno r \<noteq> 0 \<Longrightarrow> Q (out (- Response_get_errno r)) m1"
    and body: "\<And>r m1 x m2. client_ok m1 \<Longrightarrow> cl_cache m1 = cl_cache m \<Longrightarrow> cl_received m1 = cl_received m @ [r]
        \<Longrightarrow> Response_get_errno r = 0 \<Longrightarrow> body (Response_from_message r) m1 = (x, m2)
        \<Longrightarrow> leaves ex F (request_parts rq + response_blocks (Response_from_message r)) {} m1 m2 \<and> Q x m2"
  shows "op_at ex F (request_parts rq) R Q m (OP_COMMUNICATE E t out rq body m)"
proof (rule communicate_cases [OF ok E, of t rq True], goal_cases)
  case (1 e m1)
  obtain m2 where f: "OP_FAIL out e rq None m1 = (out (- e), m2)"
    "prepared (- (request_parts rq + of_opt response_blocks None)) m1 m2" by (rule OP_FAIL_run)
  have l: "leaves ex F 0 R m m1"
    using 1(2,3) R F by (auto simp: leaves_def exchanged_def only_uninitialised_def owed_def)
  have "Q (out (- e)) m2"
    by (rule lost) (use 1 f(2) in \<open>simp_all add: prepared_def exchanged_def\<close>)
  with f leaves_prepared_then [OF l f(2)] 1(1) show ?thesis
    by (cases "e = 0") (simp_all add: OP_COMMUNICATE_def op_at_def)
next
  case (2 r m1 s)
  let ?k = "response_blocks (Response_from_message r)"
  have l: "leaves ex F (- ?k) R m m1"
    using 2(2,3,4) R F by (auto simp: leaves_def exchanged_def owed_def)
  show ?thesis
  proof (cases "Response_get_errno r = 0")
    case True
    obtain x m2 where b: "body (Response_from_message r) m1 = (x, m2)" by fastforce
    have "leaves ex F (request_parts rq + ?k) {} m1 m2 \<and> Q x m2"
      by (rule body [OF _ _ 2(5) True b]) (use 2(2) in \<open>simp_all add: exchanged_def\<close>)
    with leaves_trans [OF l, of "request_parts rq + ?k" m2] b 2(1) True show ?thesis
      by (simp add: OP_COMMUNICATE_def op_at_def)
  next
    case False
    obtain m2 where f: "OP_FAIL out (Response_get_errno r) rq (Some (Response_from_message r)) m1
        = (out (- Response_get_errno r), m2)"
      "prepared (- (request_parts rq + of_opt response_blocks (Some (Response_from_message r)))) m1 m2"
      by (rule OP_FAIL_run)
    have "Q (out (- Response_get_errno r)) m2"
      by (rule refused) (use 2 f(2) False in \<open>simp_all add: prepared_def exchanged_def\<close>)
    with f leaves_prepared_then [OF l f(2)] 2(1) False show ?thesis
      by (simp add: OP_COMMUNICATE_def op_at_def)
  qed
qed

section \<open>Functions that only use the heap\<close>

text \<open>
  The functions of the other components take any state that extends the heap, and leave alone
  everything but the heap.
\<close>

named_theorems only_heap \<open>functions that leave alone what extends the heap\<close>

lemma more_heap [only_heap]:
  "heap.more (alloc_next h) = heap.more h" "heap.more (release k h) = heap.more h"
  "heap.more (add_fault f h) = heap.more h" "heap.more (realloc_next h) = heap.more h"
  "heap.more (store_upto a b h) = heap.more h" "heap.more (calloc_next n h) = heap.more h"
  by (simp_all add: alloc_next_def release_def add_fault_def realloc_next_def store_upto_def calloc_next_def)

lemma more_mapping [only_heap]:
  "heap.more (snd (PermissionSet_create h)) = heap.more h"
  "heap.more (snd (OpenFlags_from_bitmask flags h)) = heap.more h"
  "heap.more (snd (TimeSet_create h)) = heap.more h" "heap.more (snd (CacheEntry_create h)) = heap.more h"
  "heap.more (snd (path_join p1 p2 h)) = heap.more h"
  "heap.more (Permissions_destroy q h) = heap.more h" "heap.more (DataBlock_destroy d h) = heap.more h"
  by (simp_all add: PermissionSet_create_def OpenFlags_from_bitmask_def TimeSet_create_def
      CacheEntry_create_def path_join_def Permissions_destroy_def PermissionSet_destroy_def
      DataBlock_destroy_def only_heap Let_def split: option.split)

lemma more_Permissions_create [only_heap]: "heap.more (snd (Permissions_create mode h)) = heap.more h"
  by (simp add: Permissions_create_def PermissionSet_create_def Permissions_destroy_def
      PermissionSet_destroy_def Let_def only_heap)

lemma more_cache_delete [only_heap]: "heap.more (snd (cache_delete node c h)) = heap.more h"
  by (simp add: cache_delete_def hash_delete_free_def Let_def only_heap split: option.split)

lemma more_remove [only_heap]: "heap.more (snd (AttrCache_remove c p h)) = heap.more h"
  by (simp add: AttrCache_remove_def only_heap case_prod_beta Let_def split: option.split)

lemma more_copy_stat [only_heap]: "heap.more (snd (snd (AttrCache_copy_stat now c p h))) = heap.more h"
  by (simp add: AttrCache_copy_stat_def AttrCache_get_def only_heap case_prod_beta Let_def split: option.split)

lemma more_set [only_heap]: "heap.more (snd (snd (AttrCache_set now c p e h))) = heap.more h"
proof -
  have i: "heap.more (snd (snd (hash_alloc_insert k v H h))) = heap.more h" for k and v :: cache_entry and H and h :: "'b heap_scheme"
    by (simp add: hash_alloc_insert_def Let_def only_heap)
  have s: "heap.more (snd (snd (AttrCache_shrink now c h))) = heap.more h"
    by (simp add: AttrCache_shrink_def Let_def only_heap case_prod_beta split: option.split)
  show ?thesis
    by (simp add: AttrCache_set_def Let_def only_heap case_prod_beta i s split: option.split)
qed

lemma more_set_data [only_heap]: "heap.more (snd (snd (Request_set_data rq data h))) = heap.more h"
proof -
  have p: "heap.more (snd (snd (set_plain_data d data h))) = heap.more h" for d and h :: "'b heap_scheme"
    by (simp add: set_plain_data_def only_heap)
  have l: "heap.more (snd (snd (set_lz4_compressed_data d data h))) = heap.more h" for d and h :: "'b heap_scheme"
    by (simp add: set_lz4_compressed_data_def only_heap split: access.split prod.split)
  have f: "heap.more (snd (free_block_data d h)) = heap.more h" for d and h :: "'b heap_scheme"
    by (simp add: free_block_data_def only_heap)
  have c: "heap.more (snd (DataBlock_create h)) = heap.more h" for h :: "'b heap_scheme"
    by (simp add: DataBlock_create_def only_heap)
  have s: "heap.more (snd (snd (DataBlock_set_data d data cm h))) = heap.more h" for d cm and h :: "'b heap_scheme"
    by (simp add: DataBlock_set_data_def Let_def case_prod_beta p l f split: compression_type.split)
  show ?thesis
    by (cases "DataBlock_create h")
       (use c [of h] in \<open>auto simp: Request_set_data_def Let_def case_prod_beta s only_heap split: option.split\<close>)
qed

lemma more_lz4_decode [only_heap]: "heap.more (snd (lz4_decode d n h)) = heap.more h"
  by (simp add: lz4_decode_def only_heap split: access.split prod.split)

lemma more_get_data [only_heap]: "heap.more (snd (DataBlock_get_data_noalloc d n h)) = heap.more h"
  by (simp add: DataBlock_get_data_noalloc_def Let_def only_heap case_prod_beta split: option.split compression_type.split)

lemma cl_heap:
  fixes m m' :: "'w client"
  assumes "heap.more m' = heap.more m"
  shows "n_errno m' = n_errno m" "n_world m' = n_world m" "n_sockets m' = n_sockets m"
    "n_next m' = n_next m" "n_sent m' = n_sent m" "cl_pool m' = cl_pool m" "cl_cache m' = cl_cache m"
    "cl_settings m' = cl_settings m" "cl_received m' = cl_received m"
  using assms by (cases m; cases m'; simp)+

lemma prepared_heap:
  "heap.more m' = heap.more m \<Longrightarrow> live m' = live m + k \<Longrightarrow> faults m' = faults m \<Longrightarrow> prepared k m m'"
  using cl_heap [of m' m] by (simp add: prepared_def)

section \<open>The cache in the client\<close>

lemma cache_size_card: "cache_ok c \<Longrightarrow> cache_size c = card (dom (cache_map c)) \<and> finite (dom (cache_map c))"
  using table.size_law [of "ac_table c"] by (simp add: cache_ok_def cache_size_def cache_map_def)

lemma card_dom_drop: "finite (dom m) \<Longrightarrow> card (dom (m(k := None))) = card (dom m) - (if m k = None then 0 else 1)"
  by (auto simp: card_Diff_singleton_if domIff)

lemma card_dom_put: "finite (dom m) \<Longrightarrow> card (dom (m(k \<mapsto> v))) = card (dom m) + (if m k = None then 1 else 0)"
  by (auto simp: card_insert_if domIff insert_absorb)

lemma cache_remove_ok:
  assumes "client_ok m"
  shows "leaves True F 0 {} m (cache_remove path m)"
    "cache_map (cl_cache (cache_remove path m)) = (cache_map (cl_cache m))(path := None)"
    "cl_received (cache_remove path m) = cl_received m" "n_sent (cache_remove path m) = n_sent m"
proof -
  let ?c = "cl_cache m"
  have C: "cache_ok ?c" using assms by (simp add: client_ok_def)
  obtain c m1 where r: "AttrCache_remove ?c (Some path) m = (c, m1)" by fastforce
  note R = AttrCache_remove_ok [OF C, of path m, unfolded r fst_conv snd_conv]
  have more: "heap.more m1 = heap.more m" using more_remove [of ?c "Some path" m] r by simp
  have mx: "hash_maxcount (ac_table c) = hash_maxcount (ac_table ?c)"
    by (rule AttrCache_remove_cases [OF C, of path m])
       (use r C drop_bounded [of "ac_table ?c" path] in \<open>auto simp: cache_map_lookup cache_ok_def\<close>)
  have sz: "int (cache_size c) = int (cache_size ?c) - (if cache_map ?c path = None then 0 else 1)"
  proof (cases "cache_map ?c path")
    case (Some e)
    have "finite (dom (cache_map ?c))" using cache_size_card [OF C] by simp
    then have "0 < card (dom (cache_map ?c))" using Some by (auto simp: card_gt_0_iff)
    with Some cache_size_card [OF C] cache_size_card [OF R(1)] card_dom_drop [of "cache_map ?c" path]
    show ?thesis by (simp add: R(2))
  qed (use cache_size_card [OF C] cache_size_card [OF R(1)] in \<open>simp add: R(2) fun_upd_idem\<close>)
  have X: "cache_remove path m = m1\<lparr>cl_cache := c\<rparr>" by (simp add: cache_remove_def r)
  have "client_ok (m1\<lparr>cl_cache := c\<rparr>)"
    by (rule client_ok_cache [OF assms]) (use R(1) mx cl_heap [OF more] in simp_all)
  then show "leaves True F 0 {} m (cache_remove path m)"
    using R(3,4) sz cl_heap [OF more] by (simp add: X leaves_def owed_def)
  show "cache_map (cl_cache (cache_remove path m)) = (cache_map ?c)(path := None)"
    "cl_received (cache_remove path m) = cl_received m" "n_sent (cache_remove path m) = n_sent m"
    using R(2) cl_heap [OF more] by (simp_all add: X)
qed

section \<open>Simple operations\<close>

text \<open>
  What a simple operation returns. \<open>upd\<close> is what it does to the cache when the server reports
  success.
\<close>

definition result_ok :: "((string \<Rightarrow> cache_entry option) \<Rightarrow> string \<Rightarrow> cache_entry option) \<Rightarrow> 'w client
    \<Rightarrow> int \<Rightarrow> 'w client \<Rightarrow> bool" where
  "result_ok upd m x m' \<longleftrightarrow>
     (cl_received m' = cl_received m \<and> cache_map (cl_cache m') = cache_map (cl_cache m)
        \<and> (x = 0 \<longrightarrow> n_sent m' = n_sent m))
     \<or> (\<exists>r. cl_received m' = cl_received m @ [r] \<and> x = - Response_get_errno r
        \<and> cache_map (cl_cache m') = (if x = 0 then upd (cache_map (cl_cache m)) else cache_map (cl_cache m)))"

lemma result_ok_prepared: "prepared k m m1 \<Longrightarrow> result_ok upd m1 x m' = result_ok upd m x m'"
  by (simp add: prepared_def result_ok_def)

lemma leaves_deinit:
  "leaves ex F k R m m1 \<Longrightarrow> leaves ex F (k + request_parts rq + of_opt response_blocks resp) R m (OP_DEINIT rq resp m1)"
  using leaves_prepared_then [OF _ prepared_deinit, of ex F k R m m1 rq resp] by (simp add: algebra_simps)

lemma leaves_refl: "client_ok m \<Longrightarrow> leaves ex F 0 R m m"
  by (simp add: leaves_def)

lemma deinit_frame [net_simps]:
  "cl_received (OP_DEINIT rq resp m) = cl_received m" "cl_cache (OP_DEINIT rq resp m) = cl_cache m"
  "n_sent (OP_DEINIT rq resp m) = n_sent m"
  by (simp_all add: OP_DEINIT_release net_simps)

lemma communicate_done:
  assumes "client_ok m" "forgets E" "rq \<in> R" "Uninitialised_use \<in> F"
  shows "op_at True F (request_parts rq) R (result_ok id m) m (OP_COMMUNICATE E t id rq (op_done rq) m)"
proof (rule OP_COMMUNICATE_ok [OF assms], goal_cases)
  case (3 r m1 x m2)
  then show ?case
    using leaves_deinit [of True F 0 "{}" m1 m1 rq "Some (Response_from_message r)"] leaves_refl [of m1 True F "{}"]
    by (auto simp: op_done_def result_ok_def net_simps)
qed (auto simp: result_ok_def)

lemma communicate_done_uncached:
  assumes "client_ok m" "forgets E" "rq \<in> R" "Uninitialised_use \<in> F"
  shows "op_at True F (request_parts rq) R (result_ok (\<lambda>c. c(path := None)) m) m
    (OP_COMMUNICATE E t id rq (op_done_uncached path rq) m)"
proof (rule OP_COMMUNICATE_ok [OF assms], goal_cases)
  case (3 r m1 x m2)
  then show ?case
    using leaves_deinit [of True F 0 "{}" m1 "cache_remove path m1" rq "Some (Response_from_message r)"]
      cache_remove_ok(1) [of m1 F path] cache_remove_ok(2-) [of m1 path]
    by (auto simp: op_done_uncached_def op_done_def result_ok_def net_simps)
qed (auto simp: result_ok_def)

text \<open>Filling in a request keeps the contract when the allocation succeeds, and fails cleanly otherwise.\<close>

lemma op_at_fail:
  assumes "client_ok m" "prepared 0 m m1" "\<And>m'. prepared (- request_parts rq) m m' \<Longrightarrow> Q (out (- e)) m'"
  shows "op_at ex F (request_parts rq) R Q m (Some (OP_FAIL out e rq None m1))"
proof -
  obtain m' where f: "OP_FAIL out e rq None m1 = (out (- e), m')"
    "prepared (- (request_parts rq + of_opt response_blocks None)) m1 m'" by (rule OP_FAIL_run)
  then have p: "prepared (- request_parts rq) m m'" using prepared_trans [OF assms(2) f(2)] by simp
  from leaves_prepared [OF assms(1) p] assms(3) [OF p] f(1) show ?thesis by (simp add: op_at_def)
qed

lemma with_permissions_ok:
  assumes "client_ok m" "rq_permissions rq = None"
    and "\<And>p m1. client_ok m1 \<Longrightarrow> prepared 4 m m1 \<Longrightarrow> Permissions_to_bitmask (Some p) = Some (mode AND 0x1FF)
      \<Longrightarrow> op_at ex F (request_parts (rq\<lparr>rq_permissions := Some p\<rparr>)) R Q m1 (body (rq\<lparr>rq_permissions := Some p\<rparr>) m1)"
    and "\<And>m'. prepared (- request_parts rq) m m' \<Longrightarrow> Q (out (- EIO)) m'"
  shows "op_at ex F (request_parts rq) R Q m (with_permissions out mode rq body m)"
proof (rule Permissions_create_cases [of mode m], goal_cases)
  case (1 h)
  have "prepared 0 m h"
    by (rule prepared_heap) (use 1 more_Permissions_create [of mode m] in simp_all)
  with 1(1) op_at_fail [OF assms(1) this, of rq Q out EIO ex F R] assms(4) show ?thesis
    by (simp add: with_permissions_def)
next
  case (2 p h)
  have p: "prepared 4 m h"
    by (rule prepared_heap) (use 2 more_Permissions_create [of mode m] in simp_all)
  have "request_parts (rq\<lparr>rq_permissions := Some p\<rparr>) = request_parts rq + 4"
    using assms(2) 2(2) by (simp add: request_parts_def request_blocks_def permissions_blocks_complete)
  with op_at_prepared [OF p assms(3) [OF prepared_ok [OF p assms(1)] p Permissions_bitmask_trip [OF 2(1)]]] 2(1)
  show ?thesis by (simp add: with_permissions_def)
qed

section \<open>The interface of an operation\<close>

locale client_op =
  fixes P :: bool and E :: "'w zmq_env" and exact :: bool and F :: "fault set" and R :: "request set"
    and Q :: "'w client \<Rightarrow> 'r \<Rightarrow> 'w client \<Rightarrow> bool"
    and op :: "'w client \<Rightarrow> ('r \<times> 'w client) option"
  assumes contract: "P \<Longrightarrow> client_ok m \<Longrightarrow> forgets E \<Longrightarrow> op_at exact F 0 R (Q m) m (op m)"
begin

lemma returned:
  assumes P "client_ok m" "forgets E"
  obtains x m' where "op m = Some (x, m')" "leaves exact F 0 R m m'" "Q m x m'"
  using contract [OF assms] by (auto simp: op_at_def)

lemma keeps: "P \<Longrightarrow> client_ok m \<Longrightarrow> forgets E \<Longrightarrow> op m = Some (x, m') \<Longrightarrow> leaves exact F 0 R m m' \<and> Q m x m'"
  using contract [of m] by (auto simp: op_at_def)

end

abbreviation (input) dropping :: "string \<Rightarrow> (string \<Rightarrow> cache_entry option) \<Rightarrow> string \<Rightarrow> cache_entry option" where
  "dropping path \<equiv> \<lambda>c. c(path := None)"

lemma result_failed: "prepared k m m' \<Longrightarrow> x \<noteq> 0 \<Longrightarrow> result_ok upd m x m'"
  by (simp add: prepared_def result_ok_def)

lemma op_init_simple:
  assumes "client_ok m" "forgets E"
    and "\<And>m1. client_ok m1 \<Longrightarrow> prepared 1 m m1 \<Longrightarrow> op_at ex F 1 R (result_ok upd m1) m1 (body new_request m1)"
  shows "op_at ex F 0 R (result_ok upd m) m (OP_INIT id body m)"
proof (rule OP_INIT_ok [OF assms(1)])
  fix m1 assume "client_ok m1" "prepared 1 m m1"
  then show "op_at ex F 1 R (result_ok upd m) m1 (body new_request m1)"
    using assms(3) [of m1] result_ok_prepared [of 1 m m1 upd] by (simp add: op_at_def)
qed (simp add: result_failed)

lemma with_permissions_simple:
  assumes "client_ok m" "rq_permissions rq = None" "request_parts rq = 1"
    and "\<And>p m1. client_ok m1 \<Longrightarrow> Permissions_to_bitmask (Some p) = Some (mode AND 0x1FF)
      \<Longrightarrow> op_at ex F (request_parts (rq\<lparr>rq_permissions := Some p\<rparr>)) R (result_ok upd m1) m1 (body (rq\<lparr>rq_permissions := Some p\<rparr>) m1)"
  shows "op_at ex F 1 R (result_ok upd m) m (with_permissions id mode rq body m)"
proof (rule with_permissions_ok [OF assms(1,2), of mode ex F R "result_ok upd m" body id, unfolded assms(3)])
  fix p m1 assume "client_ok m1" "prepared 4 m m1" "Permissions_to_bitmask (Some p) = Some (mode AND 0x1FF)"
  then show "op_at ex F (request_parts (rq\<lparr>rq_permissions := Some p\<rparr>)) R (result_ok upd m) m1 (body (rq\<lparr>rq_permissions := Some p\<rparr>) m1)"
    using assms(4) [of m1 p] result_ok_prepared [of 4 m m1 upd] by (simp add: op_at_def)
qed (simp add: result_failed)

lemma new_request_parts [simp]: "rq_permissions new_request = None" "rq_datablock new_request = None"
  "rq_openflags new_request = None" "rq_timestamps new_request = None"
  by (simp_all add: new_request_def empty_request_def)

lemmas done_at = communicate_done [where F = "{Uninitialised_use}", OF _ _ _ insertI1]
lemmas uncached_at = communicate_done_uncached [where F = "{Uninitialised_use}", OF _ _ _ insertI1]

interpretation fs_rmdir: client_op True E True "{Uninitialised_use}"
    "{new_request\<lparr>rq_path := Some path, rq_type := RMDIR\<rparr>}" "result_ok (dropping path)"
    "Rhizofs_rmdir E t path" for E t path
  by unfold_locales
     (auto simp: Rhizofs_rmdir_def Let_def intro!: op_init_simple uncached_at
        [where rq = "new_request\<lparr>rq_path := Some path, rq_type := RMDIR\<rparr>", simplified])

interpretation fs_unlink: client_op True E True "{Uninitialised_use}"
    "{new_request\<lparr>rq_path := Some path, rq_type := UNLINK\<rparr>}" "result_ok (dropping path)"
    "Rhizofs_unlink E t path" for E t path
  by unfold_locales
     (auto simp: Rhizofs_unlink_def Let_def intro!: op_init_simple uncached_at
        [where rq = "new_request\<lparr>rq_path := Some path, rq_type := UNLINK\<rparr>", simplified])

interpretation fs_truncate: client_op True E True "{Uninitialised_use}"
    "{new_request\<lparr>rq_path := Some path, rq_offset := Some (int64 offset), rq_type := TRUNCATE\<rparr>}" "result_ok (dropping path)"
    "Rhizofs_truncate E t path offset" for E t path offset
  by unfold_locales
     (auto simp: Rhizofs_truncate_def Let_def intro!: op_init_simple uncached_at
        [where rq = "new_request\<lparr>rq_path := Some path, rq_offset := Some (int64 offset), rq_type := TRUNCATE\<rparr>", simplified])

interpretation fs_link: client_op True E True "{Uninitialised_use}"
    "{new_request\<lparr>rq_type := LINK, rq_path := Some path_from, rq_path_to := Some path_to\<rparr>}" "result_ok id"
    "Rhizofs_link E t path_from path_to" for E t path_from path_to
  by unfold_locales
     (auto simp: Rhizofs_link_def Let_def intro!: op_init_simple done_at
        [where rq = "new_request\<lparr>rq_type := LINK, rq_path := Some path_from, rq_path_to := Some path_to\<rparr>", simplified])

interpretation fs_rename: client_op True E True "{Uninitialised_use}"
    "{new_request\<lparr>rq_type := RENAME, rq_path := Some path_from, rq_path_to := Some path_to\<rparr>}" "result_ok (dropping path_from)"
    "Rhizofs_rename E t path_from path_to" for E t path_from path_to
  by unfold_locales
     (auto simp: Rhizofs_rename_def Let_def intro!: op_init_simple uncached_at
        [where rq = "new_request\<lparr>rq_type := RENAME, rq_path := Some path_from, rq_path_to := Some path_to\<rparr>", simplified])

interpretation fs_symlink: client_op True E True "{Uninitialised_use}"
    "{new_request\<lparr>rq_type := SYMLINK, rq_path := Some path_from, rq_path_to := Some path_to\<rparr>}" "result_ok id"
    "Rhizofs_symlink E t path_to path_from" for E t path_to path_from
  by unfold_locales
     (auto simp: Rhizofs_symlink_def Let_def intro!: op_init_simple done_at
        [where rq = "new_request\<lparr>rq_type := SYMLINK, rq_path := Some path_from, rq_path_to := Some path_to\<rparr>", simplified])

interpretation fs_mkdir: client_op True E True "{Uninitialised_use}"
    "{new_request\<lparr>rq_type := MKDIR, rq_path := Some path\<rparr>\<lparr>rq_permissions := Some p\<rparr> | p.
       Permissions_to_bitmask (Some p) = Some (mode AND 0x1FF)}" "result_ok id"
    "Rhizofs_mkdir E t path mode" for E t path mode
  by unfold_locales
     (auto simp: Rhizofs_mkdir_def Let_def intro!: op_init_simple with_permissions_simple done_at)

interpretation fs_access: client_op True E True "{Uninitialised_use}"
    "{new_request\<lparr>rq_path := Some path, rq_type := ACCESS\<rparr>\<lparr>rq_permissions := Some p\<rparr> | p.
       Permissions_to_bitmask (Some p) = Some (access_mask AND 0x1FF)}" "result_ok id"
    "Rhizofs_access E t path access_mask" for E t path access_mask
  by unfold_locales
     (auto simp: Rhizofs_access_def Let_def intro!: op_init_simple with_permissions_simple done_at)

interpretation fs_create: client_op True E True "{Uninitialised_use}"
    "{new_request\<lparr>rq_type := CREATE, rq_path := Some path\<rparr>\<lparr>rq_permissions := Some p\<rparr> | p.
       Permissions_to_bitmask (Some p) = Some (create_mode AND 0x1FF)}" "result_ok id"
    "Rhizofs_create E t path create_mode" for E t path create_mode
  by unfold_locales
     (auto simp: Rhizofs_create_def Let_def intro!: op_init_simple with_permissions_simple done_at)

interpretation fs_chmod: client_op True E True "{Uninitialised_use}"
    "{new_request\<lparr>rq_type := CHMOD, rq_path := Some path\<rparr>\<lparr>rq_permissions := Some p\<rparr> | p.
       Permissions_to_bitmask (Some p) = Some (access_mode AND 0x1FF)}" "result_ok (dropping path)"
    "Rhizofs_chmod E t path access_mode" for E t path access_mode
  by unfold_locales
     (auto simp: Rhizofs_chmod_def Let_def intro!: op_init_simple with_permissions_simple uncached_at)

interpretation fs_mknod: client_op True E True "{Uninitialised_use}"
    "{new_request\<lparr>rq_type := MKNOD, rq_path := Some path, rq_filetype := Some (FileType_from_local mode),
        rq_permissions := Some p\<rparr> | p. Permissions_to_bitmask (Some p) = Some (mode AND 0x1FF) \<and> S_ISREG mode}"
    "result_ok id" "Rhizofs_mknod E t path mode" for E t path mode
proof unfold_locales
  fix m :: "'a client"
  assume A: "client_ok m" "forgets E"
  let ?R = "{new_request\<lparr>rq_type := MKNOD, rq_path := Some path, rq_filetype := Some (FileType_from_local mode),
        rq_permissions := Some p\<rparr> | p. Permissions_to_bitmask (Some p) = Some (mode AND 0x1FF) \<and> S_ISREG mode}"
  show "op_at True {Uninitialised_use} 0 ?R (result_ok id m) m (Rhizofs_mknod E t path mode m)"
  proof (cases "S_ISREG mode")
    case False
    with A show ?thesis
      by (simp add: Rhizofs_mknod_def op_at_def leaves_refl result_ok_def)
  next
    case True
    with A show ?thesis
      by (auto simp: Rhizofs_mknod_def Let_def intro!: op_init_simple with_permissions_simple done_at)
  qed
qed

interpretation fs_chown: client_op True E True "{}" "{}" "result_ok id" "Rhizofs_chown path u g" for E path u g
  by unfold_locales (simp add: Rhizofs_chown_def op_at_def leaves_refl result_ok_def)

text \<open>The two operations with another allocation of their own.\<close>

lemma own_alloc_ok:
  assumes "client_ok m" "request_parts rq = 1"
    and "\<And>m1. client_ok m1 \<Longrightarrow> prepared 1 m m1 \<Longrightarrow> op_at ex F 2 R (result_ok upd m1) m1 (body m1)"
  shows "op_at ex F 1 R (result_ok upd m) m
     (if alloc_ok m then body (alloc_next m) else Some (OP_FAIL id EIO rq None (alloc_next m)))"
proof (cases "alloc_ok m")
  case True
  have p: "prepared 1 m (alloc_next m)" using True by (simp add: prepared_def net_simps heap_simps)
  from assms(3) [OF prepared_ok [OF p assms(1)] p] op_at_prepared [OF p, of ex F 2 R "result_ok upd m"] True show ?thesis
    using result_ok_prepared [OF p, of upd] by (simp add: op_at_def)
next
  case False
  have p: "prepared 0 m (alloc_next m)" using False by (simp add: prepared_def net_simps heap_simps)
  from op_at_fail [OF assms(1) p, of rq "result_ok upd m" id EIO ex F R, unfolded assms(2)] False show ?thesis
    by (simp add: result_failed)
qed

interpretation fs_open: client_op True E True "{Uninitialised_use}"
    "{new_request\<lparr>rq_type := OPEN, rq_path := Some path, rq_openflags := Some f\<rparr> | f.
       OpenFlags_to_bitmask (Some f) = Some (flags AND 0x6C3)}" "result_ok id"
    "Rhizofs_open E t path flags" for E t path flags
proof unfold_locales
  fix m :: "'a client"
  let ?R = "{new_request\<lparr>rq_type := OPEN, rq_path := Some path, rq_openflags := Some f\<rparr> | f.
       OpenFlags_to_bitmask (Some f) = Some (flags AND 0x6C3)}"
  assume A: "client_ok m" "forgets E"
  obtain f where f: "OpenFlags_from_bitmask flags h = (if alloc_ok h then Some f else None, alloc_next h)"
    for h :: "'a client"
    by (rule that [of "\<lparr>of_rdonly = flags AND O_RDONLY \<noteq> 0, of_wronly = flags AND O_WRONLY \<noteq> 0,
          of_rdwr = flags AND O_RDWR \<noteq> 0, of_creat = flags AND O_CREAT \<noteq> 0,
          of_excl = flags AND O_EXCL \<noteq> 0, of_trunc = flags AND O_TRUNC \<noteq> 0,
          of_append = flags AND O_APPEND \<noteq> 0\<rparr>"]) (simp add: OpenFlags_from_bitmask_def)
  have trip: "OpenFlags_to_bitmask (Some f) = Some (flags AND 0x6C3)" if "alloc_ok h" for h :: "'a client"
    using OpenFlags_bitmask_trip [of flags h f] f [of h] that by simp
  show "op_at True {Uninitialised_use} 0 ?R (result_ok id m) m (Rhizofs_open E t path flags m)"
    unfolding Rhizofs_open_def
  proof (rule op_init_simple [OF A])
    fix m1 assume m1: "client_ok m1" "prepared 1 m m1"
    let ?rq = "new_request\<lparr>rq_type := OPEN, rq_path := Some path\<rparr>"
    have "op_at True {Uninitialised_use} 1 ?R (result_ok id m1) m1
      (if alloc_ok m1 then OP_COMMUNICATE E t id (?rq\<lparr>rq_openflags := Some f\<rparr>) (op_done (?rq\<lparr>rq_openflags := Some f\<rparr>)) (alloc_next m1)
       else Some (OP_FAIL id EIO ?rq None (alloc_next m1)))"
    proof (cases "alloc_ok m1")
      case True
      have k: "request_parts (?rq\<lparr>rq_openflags := Some f\<rparr>) = 2"
        by (simp add: request_parts_def request_blocks_def new_request_def empty_request_def)
      show ?thesis
      proof (rule own_alloc_ok [OF m1(1)])
        fix m2 assume m2: "client_ok m2" "prepared 1 m1 m2"
        show "op_at True {Uninitialised_use} 2 ?R (result_ok id m2) m2
          (OP_COMMUNICATE E t id (?rq\<lparr>rq_openflags := Some f\<rparr>) (op_done (?rq\<lparr>rq_openflags := Some f\<rparr>)) m2)"
          using done_at [OF m2(1) A(2), of "?rq\<lparr>rq_openflags := Some f\<rparr>" ?R t, unfolded k] trip [OF True] by auto
      qed simp
    next
      case False
      have "prepared 0 m1 (alloc_next m1)" using False by (simp add: prepared_def net_simps heap_simps)
      from op_at_fail [OF m1(1) this, of ?rq "result_ok id m1" id EIO] False show ?thesis
        by (simp add: result_failed)
    qed
    then show "op_at True {Uninitialised_use} 1 ?R (result_ok id m1) m1
       (let request = ?rq in case OpenFlags_from_bitmask flags m1 of
         (None, m1) \<Rightarrow> Some (OP_FAIL id EIO request None m1)
       | (Some f, m1) \<Rightarrow> (let request = request\<lparr>rq_openflags := Some f\<rparr> in OP_COMMUNICATE E t id request (op_done request) m1))"
      by (simp add: f Let_def split: if_splits)
  qed
qed

lemma utimens_parts: "request_parts (new_request\<lparr>rq_type := ty, rq_path := p, rq_timestamps := Some ts\<rparr>) = 2"
  by (simp add: request_parts_def request_blocks_def new_request_def empty_request_def)

definition times_asked :: "((int \<times> int) \<times> (int \<times> int)) option \<Rightarrow> time_set \<Rightarrow> bool" where
  \<comment> \<open>the times of a request for explicit times; without, any time of day\<close>
  "times_asked tv ts \<longleftrightarrow> (case tv of None \<Rightarrow> True | Some ((asec, ansec), (msec, mnsec)) \<Rightarrow>
     ts_access_sec ts = asec \<and> ts_access_usec ts = usec_of_nsec ansec
     \<and> ts_modify_sec ts = msec \<and> ts_modify_usec ts = usec_of_nsec mnsec)"

interpretation fs_utimens: client_op True E True "{Uninitialised_use}"
    "{new_request\<lparr>rq_type := UTIMENS, rq_path := Some path, rq_timestamps := Some ts\<rparr> | ts. times_asked tv ts}"
    "result_ok (dropping path)" "Rhizofs_utimens E t path tv" for E t path tv
proof unfold_locales
  fix m :: "'a client"
  let ?R = "{new_request\<lparr>rq_type := UTIMENS, rq_path := Some path, rq_timestamps := Some ts\<rparr> | ts. times_asked tv ts}"
  let ?rq = "new_request\<lparr>rq_type := UTIMENS, rq_path := Some path\<rparr>"
  assume A: "client_ok m" "forgets E"
  obtain ts0 where ts: "TimeSet_create h = (if alloc_ok h then Some ts0 else None, alloc_next h)" for h :: "'a client"
    by (rule that [of "\<lparr>ts_access_sec = 0, ts_modify_sec = 0, ts_creation_sec = 0, ts_has_creation_sec = False,
               ts_access_usec = 0, ts_modify_usec = 0, ts_creation_usec = 0,
               ts_has_access_usec = False, ts_has_modify_usec = False,
               ts_has_creation_usec = False\<rparr>"]) (simp add: TimeSet_create_def)
  define rq1 where "rq1 h = ?rq\<lparr>rq_timestamps := Some (utimens_times E tv h ts0)\<rparr>" for h :: "'a client"
  have asked: "rq1 h \<in> ?R" for h
    by (auto simp: rq1_def times_asked_def utimens_times_def split: option.splits)
  show "op_at True {Uninitialised_use} 0 ?R (result_ok (dropping path) m) m (Rhizofs_utimens E t path tv m)"
    unfolding Rhizofs_utimens_def
  proof (rule op_init_simple [OF A])
    fix m1 assume m1: "client_ok m1" "prepared 1 m m1"
    have "op_at True {Uninitialised_use} 1 ?R (result_ok (dropping path) m1) m1
      (if alloc_ok m1 then (\<lambda>m2. OP_COMMUNICATE E t id (rq1 m2) (op_done_uncached path (rq1 m2)) m2) (alloc_next m1)
       else Some (OP_FAIL id EIO ?rq None (alloc_next m1)))"
    proof (rule own_alloc_ok [OF m1(1)])
      fix m2 assume m2: "client_ok m2" "prepared 1 m1 m2"
      have k: "request_parts (rq1 m2) = 2" by (simp add: rq1_def utimens_parts)
      show "op_at True {Uninitialised_use} 2 ?R (result_ok (dropping path) m2) m2
        (OP_COMMUNICATE E t id (rq1 m2) (op_done_uncached path (rq1 m2)) m2)"
        using uncached_at [OF m2(1) A(2) asked [of m2], of path t, unfolded k] .
    qed simp
    then show "op_at True {Uninitialised_use} 1 ?R (result_ok (dropping path) m1) m1
       (let request = ?rq in case TimeSet_create m1 of
         (None, m1) \<Rightarrow> Some (OP_FAIL id EIO request None m1)
       | (Some ts, m1) \<Rightarrow> (let request = request\<lparr>rq_timestamps := Some (utimens_times E tv m1 ts)\<rparr> in
            OP_COMMUNICATE E t id request (op_done_uncached path request) m1))"
      by (simp add: ts Let_def rq1_def split: if_splits)
  qed
qed

section \<open>Operations that return data\<close>

definition data_result :: "(int \<Rightarrow> 'r) \<Rightarrow> (response \<Rightarrow> 'r) \<Rightarrow> 'w client \<Rightarrow> 'r \<Rightarrow> 'w client \<Rightarrow> bool" where
  \<comment> \<open>the result is read off the response, the cache stays as it is\<close>
  "data_result out g m x m' \<longleftrightarrow> cl_cache m' = cl_cache m \<and>
     ((cl_received m' = cl_received m \<and> (\<exists>e. x = out (- e) \<and> (e = 0 \<longrightarrow> n_sent m' = n_sent m)))
      \<or> (\<exists>r. cl_received m' = cl_received m @ [r]
           \<and> x = (if Response_get_errno r \<noteq> 0 then out (- Response_get_errno r) else g r)))"

lemma data_result_prepared: "prepared k m m1 \<Longrightarrow> data_result out g m1 x m' = data_result out g m x m'"
  by (simp add: prepared_def data_result_def)

lemma data_result_failed: "prepared k m m' \<Longrightarrow> e \<noteq> 0 \<Longrightarrow> data_result out g m (out (- e)) m'"
  by (auto simp: prepared_def data_result_def)

definition body_ok :: "bool \<Rightarrow> fault set \<Rightarrow> request \<Rightarrow> response \<Rightarrow> 'r \<Rightarrow> 'w client \<Rightarrow> 'r \<times> 'w client \<Rightarrow> bool" where
  \<comment> \<open>the part after \<open>OP_COMMUNICATE\<close> frees request and response and returns \<open>y\<close>\<close>
  "body_ok ex F rq rs y m res \<longleftrightarrow> leaves ex F (request_parts rq + response_blocks rs) {} m (snd res)
     \<and> fst res = y \<and> cl_cache (snd res) = cl_cache m \<and> cl_received (snd res) = cl_received m"

lemma body_ok_fail:
  assumes "client_ok m" "out (- e) = y"
  shows "body_ok ex F rq rs y m (OP_FAIL out e rq (Some rs) m)"
proof -
  obtain m' where f: "OP_FAIL out e rq (Some rs) m = (out (- e), m')"
    "prepared (- (request_parts rq + of_opt response_blocks (Some rs))) m m'" by (rule OP_FAIL_run)
  with leaves_prepared [OF assms(1) f(2), of ex F "{}"] assms(2) show ?thesis
    by (simp add: body_ok_def prepared_def add.commute)
qed

lemma body_ok_done:
  assumes "leaves ex F 0 {} m m1" "cl_cache m1 = cl_cache m" "cl_received m1 = cl_received m" "x = y"
  shows "body_ok ex F rq rs y m (x, OP_DEINIT rq (Some rs) m1)"
  using leaves_deinit [OF assms(1), of rq "Some rs"] assms(2-) by (simp add: body_ok_def net_simps)

lemma leaves_fault: "client_ok m \<Longrightarrow> f \<in> F \<Longrightarrow> leaves ex F 0 R m (add_fault f m)"
  using client_ok_same [of m "add_fault f m"]
  by (simp add: leaves_def owed_def net_simps heap_simps)

lemma data_op_ok:
  assumes ok: "client_ok m" "forgets E"
    and "Uninitialised_use \<in> F" "rq \<in> R" "request_parts rq = 1" "body new_request = OP_COMMUNICATE E t out rq body'"
    and "\<And>r m1. client_ok m1 \<Longrightarrow> Response_get_errno r = 0
       \<Longrightarrow> body_ok ex F rq (Response_from_message r) (g r) m1 (body' (Response_from_message r) m1)"
  shows "op_at ex F 0 R (data_result out g m) m (OP_INIT out body m)"
proof (rule OP_INIT_ok [OF ok(1)])
  fix m1 assume m1: "client_ok m1" "prepared 1 m m1"
  have "op_at ex F (request_parts rq) R (data_result out g m1) m1 (OP_COMMUNICATE E t out rq body' m1)"
  proof (rule OP_COMMUNICATE_ok [OF m1(1) ok(2) assms(4,3)], goal_cases)
    case (1 e m2)
    then show ?case by (auto simp: data_result_def)
  next
    case (2 r m2)
    then show ?case by (auto simp: data_result_def)
  next
    case (3 r m2 x m3)
    from assms(7) [OF 3(1,4)] 3(2-) assms(5) show ?case by (auto simp: data_result_def body_ok_def)
  qed
  then show "op_at ex F 1 R (data_result out g m) m1 (body new_request m1)"
    using data_result_prepared [OF m1(2), of out g] assms(5,6) by (simp add: op_at_def)
next
  fix m1 assume "prepared 0 m m1"
  then show "data_result out g m (out (- ENOMEM)) m1" by (rule data_result_failed) simp
qed

definition readlink_outcome :: "nat \<Rightarrow> response \<Rightarrow> int \<times> string option" where
  "readlink_outcome len r = (0, map_option (take (len - 1)) (rs_link_target r))"

definition statfs_outcome :: "response \<Rightarrow> int \<times> statvfs option" where
  "statfs_outcome r = (0, map_option (\<lambda>sf. \<lparr>f_bsize = sf_bsize sf, f_frsize = sf_frsize sf,
     f_blocks = sf_blocks sf, f_bfree = sf_bfree sf, f_bavail = sf_bavail sf, f_files = sf_files sf,
     f_ffree = sf_ffree sf, f_favail = sf_favail sf, f_fsid = sf_fsid sf, f_flag = sf_flag sf,
     f_namemax = sf_namemax sf\<rparr>) (rs_statfs r))"

definition read_outcome :: "nat \<Rightarrow> response \<Rightarrow> int \<times> byte list" where
  "read_outcome n r =
     (case rs_datablock r of
        None \<Rightarrow> (0, [])
      | Some d \<Rightarrow> (if int32 (db_size d) = -1 then (0, [])
          else case fst (DataBlock_get_data_noalloc d n quiet_heap) of None \<Rightarrow> (-1, []) | Some x \<Rightarrow> x))"

lemma Response_from_message_simps [simp]:
  "rs_link_target (Response_from_message r) = rs_link_target r"
  "rs_statfs (Response_from_message r) = rs_statfs r" "rs_attrs (Response_from_message r) = rs_attrs r"
  "rs_datablock (Response_from_message r) = rs_datablock r" "rs_entries (Response_from_message r) = rs_entries r"
  "rs_size (Response_from_message r) = rs_size r"
  by (simp_all add: Response_from_message_def)

interpretation fs_readlink: client_op True E True "{Uninitialised_use} \<union> (if len = 0 then {Buffer_overflow} else {})"
    "{new_request\<lparr>rq_type := READLINK, rq_path := Some path\<rparr>}"
    "data_result (\<lambda>n. (n, None)) (readlink_outcome len)" "Rhizofs_readlink E t path len" for E t path len
proof unfold_locales
  fix m :: "'a client"
  let ?F = "{Uninitialised_use} \<union> (if len = 0 then {Buffer_overflow} else {})"
  let ?rq = "new_request\<lparr>rq_type := READLINK, rq_path := Some path\<rparr>"
  assume "client_ok m" "forgets E"
  then show "op_at True ?F 0 {?rq} (data_result (\<lambda>n. (n, None)) (readlink_outcome len) m) m (Rhizofs_readlink E t path len m)"
    unfolding Rhizofs_readlink_def Let_def
  proof (rule data_op_ok)
    fix r and m1 :: "'a client" assume "client_ok m1"
    then show "body_ok True ?F ?rq (Response_from_message r) (readlink_outcome len r) m1
      (case rs_link_target (Response_from_message r) of
         None \<Rightarrow> OP_FAIL (\<lambda>n. (n, None)) 0 ?rq (Some (Response_from_message r)) m1
       | Some target \<Rightarrow> ((0, Some (take (len - 1) target)), OP_DEINIT ?rq (Some (Response_from_message r))
             (if len = 0 then add_fault Buffer_overflow m1 else m1)))"
      by (auto simp: readlink_outcome_def net_simps split: option.split
          intro!: body_ok_fail body_ok_done leaves_refl leaves_fault)
  qed simp_all
qed

interpretation fs_statfs: client_op True E True "{Uninitialised_use}"
    "{new_request\<lparr>rq_type := STATFS, rq_path := Some path\<rparr>}"
    "data_result (\<lambda>n. (n, None)) statfs_outcome" "Rhizofs_statfs E t path" for E t path
proof unfold_locales
  fix m :: "'a client"
  let ?rq = "new_request\<lparr>rq_type := STATFS, rq_path := Some path\<rparr>"
  assume "client_ok m" "forgets E"
  then show "op_at True {Uninitialised_use} 0 {?rq} (data_result (\<lambda>n. (n, None)) statfs_outcome m) m (Rhizofs_statfs E t path m)"
    unfolding Rhizofs_statfs_def Let_def
    by (rule data_op_ok)
       (auto simp: statfs_outcome_def split: option.split intro!: body_ok_fail body_ok_done leaves_refl)
qed

lemma noalloc_run:
  obtains r fs where "\<And>h :: 'a heap_scheme. fst (DataBlock_get_data_noalloc d n h) = r"
    "\<And>h :: 'a heap_scheme. live (snd (DataBlock_get_data_noalloc d n h)) = live h"
    "\<And>h :: 'a heap_scheme. faults (snd (DataBlock_get_data_noalloc d n h)) = faults h @ fs"
    "set fs \<subseteq> {Buffer_overflow, Buffer_overread, Signed_overflow}" "fst (DataBlock_get_data_noalloc d n quiet_heap) = r"
proof -
  let ?z = "size_t (db_size d)"
  let ?fs = "if \<not> n \<ge> ?z then [] else case db_compression d of
      COMPR_NONE \<Rightarrow> (if length (db_data d) \<le> n then [] else [Buffer_overflow])
    | COMPR_LZ4 \<Rightarrow> (case LZ4_uncompress (db_data d) (replicate ?z 0) (int32 (int ?z)) of
        Fault f \<Rightarrow> [access_fault f] | Ok _ \<Rightarrow> [])
    | COMPR_unlisted _ \<Rightarrow> []"
  have a: "access_fault f \<in> {Buffer_overflow, Buffer_overread, Signed_overflow}" for f by (cases f) simp_all
  note cases = compression_type.split access.split prod.split if_split
  have "fst (DataBlock_get_data_noalloc d n h) = fst (DataBlock_get_data_noalloc d n quiet_heap)
    \<and> live (snd (DataBlock_get_data_noalloc d n h)) = live h
    \<and> faults (snd (DataBlock_get_data_noalloc d n h)) = faults h @ ?fs" for h :: "'a heap_scheme"
    by (simp add: DataBlock_get_data_noalloc_def lz4_decode_def Let_def heap_simps store_upto_def split: cases)
  moreover have "set ?fs \<subseteq> {Buffer_overflow, Buffer_overread, Signed_overflow}"
    using a by (auto split: compression_type.split access.split simp del: insert_iff)
  ultimately show thesis by (intro that [of "fst (DataBlock_get_data_noalloc d n quiet_heap)" ?fs]) simp_all
qed

interpretation fs_read: client_op True E True "{Uninitialised_use, Buffer_overflow, Buffer_overread, Signed_overflow}"
    "{new_request\<lparr>rq_path := Some path, rq_size := Some (int64 (int n)), rq_offset := Some (int64 offset), rq_type := READ\<rparr>}"
    "data_result (\<lambda>n. (n, [])) (read_outcome n)" "Rhizofs_read E t path n offset" for E t path n offset
proof unfold_locales
  fix m :: "'a client"
  let ?F = "{Uninitialised_use, Buffer_overflow, Buffer_overread, Signed_overflow}"
  let ?rq = "new_request\<lparr>rq_path := Some path, rq_size := Some (int64 (int n)), rq_offset := Some (int64 offset), rq_type := READ\<rparr>"
  assume "client_ok m" "forgets E"
  then show "op_at True ?F 0 {?rq} (data_result (\<lambda>n. (n, [])) (read_outcome n) m) m (Rhizofs_read E t path n offset m)"
    unfolding Rhizofs_read_def Let_def
  proof (rule data_op_ok)
    fix r and m1 :: "'a client" assume ok: "client_ok m1"
    let ?rs = "Response_from_message r"
    show "body_ok True ?F ?rq ?rs (read_outcome n r) m1
      (case rs_datablock ?rs of
            None \<Rightarrow> OP_FAIL (\<lambda>n. (n, [])) 0 ?rq (Some ?rs) m1
          | Some d \<Rightarrow>
              (if Response_has_data ?rs = -1 then OP_FAIL (\<lambda>n. (n, [])) 0 ?rq (Some ?rs) m1
               else case DataBlock_get_data_noalloc d n m1 of
                 (None, m1) \<Rightarrow> ((-1, []), OP_DEINIT ?rq (Some ?rs) m1)
               | (Some (size_read, buf), m1) \<Rightarrow> ((size_read, buf), OP_DEINIT ?rq (Some ?rs) m1)))"
    proof (cases "rs_datablock r = None \<or> Response_has_data ?rs = -1")
      case True
      with ok show ?thesis
        by (auto simp: read_outcome_def Response_has_data_def split: option.splits intro!: body_ok_fail)
    next
      case False
      then obtain d where d: "rs_datablock r = Some d" "int32 (db_size d) \<noteq> -1" by (auto simp: Response_has_data_def)
      obtain x m2 where g: "DataBlock_get_data_noalloc d n m1 = (x, m2)" by fastforce
      obtain x' fs where n: "fst (DataBlock_get_data_noalloc d n m1) = x'"
        "live (snd (DataBlock_get_data_noalloc d n m1)) = live m1"
        "faults (snd (DataBlock_get_data_noalloc d n m1)) = faults m1 @ fs"
        "set fs \<subseteq> {Buffer_overflow, Buffer_overread, Signed_overflow}" "fst (DataBlock_get_data_noalloc d n quiet_heap) = x'"
        by (rule noalloc_run [of d n thesis]) (use that in blast)
      have more: "heap.more m2 = heap.more m1" using more_get_data [of d n m1] g by simp
      have c2: "client_ok m2" by (rule client_ok_same [OF ok]) (simp_all add: cl_heap [OF more])
      have l: "leaves True ?F 0 {} m1 m2"
        using n g c2 cl_heap [OF more] by (auto simp: leaves_def owed_def)
      show ?thesis
        using d g n(1,5) cl_heap [OF more] l
        by (auto simp: read_outcome_def Response_has_data_def split: option.split intro!: body_ok_done)
    qed
  qed simp_all
qed

text \<open>Writing: the data goes into a block of the request.\<close>

definition write_ok :: "string \<Rightarrow> 'w client \<Rightarrow> int \<Rightarrow> 'w client \<Rightarrow> bool" where
  "write_ok path m x m' \<longleftrightarrow>
     (cl_received m' = cl_received m \<and> cl_cache m' = cl_cache m \<and> (x = 0 \<longrightarrow> n_sent m' = n_sent m))
     \<or> (\<exists>r. cl_received m' = cl_received m @ [r]
        \<and> (if Response_get_errno r \<noteq> 0 then x = - Response_get_errno r \<and> cl_cache m' = cl_cache m
           else x = (case rs_size r of None \<Rightarrow> 0 | Some n \<Rightarrow> int32 n)
             \<and> cache_map (cl_cache m') = (cache_map (cl_cache m))(path := None)))"

lemma write_ok_same:
  "cl_cache m1 = cl_cache m \<Longrightarrow> cl_received m1 = cl_received m \<Longrightarrow> n_sent m1 = n_sent m
     \<Longrightarrow> write_ok path m1 x m' = write_ok path m x m'"
  by (simp add: write_ok_def)

lemma set_data_in_client:
  fixes m :: "'w client"
  assumes "length buf < 2 ^ 31" "rq_datablock rq = None"
  obtains (fail) m1 where "Request_set_data rq buf m = (False, rq, m1)" "prepared 0 m m1"
  | (ok) d m1 where "Request_set_data rq buf m = (True, rq\<lparr>rq_datablock := Some d\<rparr>, m1)"
      "prepared (data_block_blocks d) m m1" "block_holds d buf"
proof (rule Request_set_data_cases [OF assms, of m], goal_cases)
  case (1 h)
  have "prepared 0 m h"
    by (rule prepared_heap) (use 1 more_set_data [of rq buf m] in simp_all)
  with 1(3) show thesis by (intro fail) simp_all
next
  case (2 d h)
  have "prepared (data_block_blocks d) m h"
    by (rule prepared_heap) (use 2 more_set_data [of rq buf m] in simp_all)
  with 2(3,6) show thesis by (intro ok) simp_all
qed

abbreviation (input) write_request :: "string \<Rightarrow> byte list \<Rightarrow> int \<Rightarrow> request" where
  "write_request path buf offset \<equiv> new_request\<lparr>rq_path := Some path,
     rq_size := Some (int64 (int (length buf))), rq_offset := Some (int64 offset), rq_type := WRITE\<rparr>"

definition write_body :: "string \<Rightarrow> request \<Rightarrow> response \<Rightarrow> 'w client \<Rightarrow> int \<times> 'w client" where
  "write_body path rq response m =
     (let m1 = cache_remove path m in
      case rs_size response of
        None \<Rightarrow> OP_FAIL id 0 rq (Some response) m1
      | Some n \<Rightarrow> (int32 n, OP_DEINIT rq (Some response) m1))"

lemma write_body_ok:
  assumes "client_ok m1" "write_body path rq rs m1 = (x, m2)"
  shows "leaves True F (request_parts rq + response_blocks rs) {} m1 m2"
    "x = (case rs_size rs of None \<Rightarrow> 0 | Some n \<Rightarrow> int32 n)"
    "cache_map (cl_cache m2) = (cache_map (cl_cache m1))(path := None)" "cl_received m2 = cl_received m1"
proof -
  note c = cache_remove_ok(1) [OF assms(1), of F path] cache_remove_ok(2,3) [OF assms(1), of path]
  have ok: "client_ok (cache_remove path m1)" using c(1) by (simp add: leaves_def)
  have "body_ok True F rq rs (case rs_size rs of None \<Rightarrow> 0 | Some n \<Rightarrow> int32 n) (cache_remove path m1) (x, m2)"
    using assms(2) body_ok_fail [OF ok, of id 0 0] body_ok_done [OF leaves_refl [OF ok] refl refl refl]
    by (auto simp: write_body_def Let_def simp flip: assms(2) split: option.splits)
  then show "leaves True F (request_parts rq + response_blocks rs) {} m1 m2"
    "x = (case rs_size rs of None \<Rightarrow> 0 | Some n \<Rightarrow> int32 n)"
    "cache_map (cl_cache m2) = (cache_map (cl_cache m1))(path := None)" "cl_received m2 = cl_received m1"
    using c leaves_trans [OF c(1)] by (auto simp: body_ok_def)
qed

interpretation fs_write: client_op "length buf < 2 ^ 31" E True
    "{Uninitialised_use}"
    "{write_request path buf offset\<lparr>rq_datablock := Some d\<rparr> | d. block_holds d buf}"
    "write_ok path" "Rhizofs_write E t path buf offset" for E t path buf offset
proof unfold_locales
  fix m :: "'a client"
  let ?F = "{Uninitialised_use}" and ?rq = "write_request path buf offset"
  let ?R = "{?rq\<lparr>rq_datablock := Some d\<rparr> | d. block_holds d buf}"
  assume P: "length buf < 2 ^ 31" and A: "client_ok m" "forgets E"
  show "op_at True ?F 0 ?R (write_ok path m) m (Rhizofs_write E t path buf offset m)"
    unfolding Rhizofs_write_def
  proof (rule OP_INIT_ok [OF A(1)])
    fix m1 assume m1: "client_ok m1" "prepared 1 m m1"
    let ?res = "let (data_set, request, m2) = Request_set_data ?rq buf m1 in
       if \<not> data_set then Some (OP_FAIL id EIO request None m2)
       else OP_COMMUNICATE E t id request (write_body path request) m2"
    have "op_at True ?F 1 ?R (write_ok path m) m1 ?res"
    proof (rule set_data_in_client [of buf ?rq m1], goal_cases)
      case (3 m2)
      have "op_at True ?F (request_parts ?rq) ?R (write_ok path m) m1 (Some (OP_FAIL id EIO ?rq None m2))"
        by (rule op_at_fail [OF m1(1) 3(2)]) (use m1(2) in \<open>auto simp: write_ok_def prepared_def\<close>)
      with 3(1) show ?case by simp
    next
      case (4 d m2)
      note W = 4
      let ?rq1 = "?rq\<lparr>rq_datablock := Some d\<rparr>"
      have ok2: "client_ok m2" using prepared_ok [OF W(2) m1(1)] .
      have k: "request_parts ?rq1 = 1 + data_block_blocks d"
        by (simp add: request_parts_def request_blocks_def new_request_def empty_request_def)
      have "op_at True ?F (request_parts ?rq1) ?R (write_ok path m) m2 (OP_COMMUNICATE E t id ?rq1 (write_body path ?rq1) m2)"
      proof (rule OP_COMMUNICATE_ok [OF ok2 A(2)], goal_cases)
        case 1
        then show ?case using W(3) by blast
      next
        case (3 e m3)
        then show ?case using m1(2) W(2) by (auto simp: write_ok_def prepared_def)
      next
        case (4 r m3)
        then show ?case using m1(2) W(2) by (auto simp: write_ok_def prepared_def)
      next
        case (5 r m3 x m4)
        from write_body_ok(1) [OF 5(1,5), of ?F] write_body_ok(2-4) [OF 5(1,5)] 5(2-4) m1(2) W(2) show ?case
          by (auto simp: write_ok_def prepared_def)
      qed simp
      from op_at_prepared [OF W(2) this] W(1) k show ?case by simp
    qed (use P in simp_all)
    then show "op_at True ?F 1 ?R (write_ok path m) m1
      (let request = ?rq; (data_set, request, m1) = Request_set_data request buf m1
       in if \<not> data_set then Some (OP_FAIL id EIO request None m1)
          else OP_COMMUNICATE E t id request (\<lambda>response m.
            let m1 = cache_remove path m in
            case rs_size response of
              None \<Rightarrow> OP_FAIL id 0 request (Some response) m1
            | Some n \<Rightarrow> (int32 n, OP_DEINIT request (Some response) m1)) m1)"
      unfolding write_body_def [abs_def] Let_def .
  qed (auto simp: write_ok_def prepared_def)
qed

section \<open>Operations that fill the cache\<close>

definition time_works :: "'w zmq_env \<Rightarrow> bool" where
  \<comment> \<open>\<^verbatim>\<open>time(NULL)\<close> does not fail\<close>
  "time_works E \<longleftrightarrow> (\<forall>w. z_time E w \<noteq> -1)"

lemma cache_set_ok:
  assumes ok: "client_ok m" and T: "time_works E" and S: "cache_set E path e m = (r, m')"
  shows "leaves False F (if r then 2 else 0) {} m m'" "n_world m' = n_world m"
    "cl_received m' = cl_received m" "n_sent m' = n_sent m"
    "cache_map (cl_cache m') q = Some e' \<Longrightarrow> cache_map (cl_cache m) q = Some e' \<or> (q = path \<and> e' = e)"
    "r \<Longrightarrow> cache_map (cl_cache m') path = Some e"
proof -
  let ?c = "cl_cache m" and ?now = "z_time E (n_world m)"
  define base where "base = cache_with_room ?now ?c m"
  have C: "cache_ok ?c" "?now \<noteq> -1" "0 < hash_maxcount (ac_table ?c)"
    using ok T by (simp_all add: client_ok_def time_works_def)
  obtain c m1 where s: "AttrCache_set ?now ?c path (Some e) m = (r, c, m1)" "m' = m1\<lparr>cl_cache := c\<rparr>"
    using S by (auto simp: cache_set_def split: prod.splits)
  note R = AttrCache_set_ok [OF C s(1) base_def]
  note B = cache_with_room_ok [OF C, of m, folded base_def]
  have more: "heap.more m1 = heap.more m" using more_set [of ?now ?c path "Some e" m] s(1) by simp
  have szc: "cache_size ?c = card (dom (cache_map ?c))" "finite (dom (cache_map ?c))"
    "cache_size base = card (dom (cache_map base))" "finite (dom (cache_map base))"
    "cache_size c = card (dom (cache_map c))"
    using cache_size_card [OF C(1)] cache_size_card [OF B(1)] cache_size_card [OF R(1)] by simp_all
  have le: "cache_size base \<le> cache_size ?c"
    unfolding szc(1,3) using card_mono [OF szc(2) map_le_implies_dom_le [OF B(3)]] .
  have sz: "int (cache_size c) = int (cache_size base) + (if r then 1 else 0) - (if cache_map base path = None then 0 else 1)"
  proof (cases r)
    case True
    then show ?thesis using szc(3-5) card_dom_put [OF szc(4), of path e] by (simp add: R(2))
  next
    case False
    show ?thesis
    proof (cases "cache_map base path")
      case (Some x)
      then have "0 < card (dom (cache_map base))" using szc(4) by (auto simp: card_gt_0_iff)
      with Some False szc(3-5) card_dom_drop [OF szc(4), of path] show ?thesis by (simp add: R(2))
    qed (use False szc(3,5) in \<open>simp add: R(2) fun_upd_idem\<close>)
  qed
  have "client_ok (m1\<lparr>cl_cache := c\<rparr>)"
    by (rule client_ok_cache [OF ok]) (use R(1,3) cl_heap [OF more] in simp_all)
  then show "leaves False F (if r then 2 else 0) {} m m'"
    using R(5,6) sz le cl_heap [OF more] by (simp add: s(2) leaves_def owed_def split: if_splits)
  show "n_world m' = n_world m" "cl_received m' = cl_received m" "n_sent m' = n_sent m"
    using cl_heap [OF more] by (simp_all add: s(2))
  show "cache_map (cl_cache m) q = Some e' \<or> (q = path \<and> e' = e)" if "cache_map (cl_cache m') q = Some e'"
    using that B(3) by (auto simp: s(2) R(2) map_le_def dom_def split: if_splits)
  show "cache_map (cl_cache m') path = Some e" if r using that by (simp add: s(2) R(2))
qed

text \<open>The stat of an attribute, as the client presents it to the calling process.\<close>

definition with_ids :: "'w zmq_env \<Rightarrow> 'w \<Rightarrow> attrs \<Rightarrow> stat \<Rightarrow> stat" where
  "with_ids E w a sb =
     sb\<lparr>st_uid := (if a_is_owner a then z_uid E w else st_uid sb),
        st_gid := (if a_is_in_group a then z_gid E w else st_gid sb)\<rparr>"

definition presented :: "'w zmq_env \<Rightarrow> attrs \<Rightarrow> stat \<Rightarrow> bool" where
  \<comment> \<open>the stat is what the attributes say\<close>
  "presented E a sb \<longleftrightarrow> (\<exists>w s. fst (Attrs_copy_to_stat (Some a) zero_stat quiet_heap) \<and>
     fst (snd (Attrs_copy_to_stat (Some a) zero_stat quiet_heap)) = s \<and> sb = with_ids E w a s)"

lemma copy_to_stat_run:
  fixes h :: "'a heap_scheme"
  shows "fst (Attrs_copy_to_stat (Some a) sb h) = fst (Attrs_copy_to_stat (Some a) zero_stat quiet_heap)"
    "fst (snd (Attrs_copy_to_stat (Some a) sb h)) = fst (snd (Attrs_copy_to_stat (Some a) zero_stat quiet_heap))"
    "snd (snd (Attrs_copy_to_stat (Some a) sb h)) = h \<or> (\<not> fst (Attrs_copy_to_stat (Some a) sb h)
       \<and> snd (snd (Attrs_copy_to_stat (Some a) sb h)) = add_fault Null_deref h)"
  by (auto simp: Attrs_copy_to_stat_def Let_def split: option.split)

lemma convert_ok:
  assumes ok: "client_ok m" and C: "Rhizofs_convert_attrs_stat E a sb m = (b, sb', m')" and F: "Null_deref \<in> F"
  shows "leaves True F 0 {} m m'" "n_world m' = n_world m" "cl_received m' = cl_received m"
    "n_sent m' = n_sent m" "cl_cache m' = cl_cache m" "b \<Longrightarrow> presented E a sb'"
    "b = fst (Attrs_copy_to_stat (Some a) zero_stat quiet_heap)" "outcomes m' = outcomes m"
proof -
  obtain b0 s m1 where r: "Attrs_copy_to_stat (Some a) sb m = (b0, s, m1)" by (metis prod_cases3)
  note run = copy_to_stat_run [of a sb m, unfolded r, simplified]
  have m1: "m1 = m \<or> \<not> b0 \<and> m1 = add_fault Null_deref m" using run(3) .
  have e: "b = b0" "m' = (if b0 then m1 else reset_errno m1)"
    using C by (auto simp: Rhizofs_convert_attrs_stat_def r Let_def split: if_splits)
  have "client_ok (add_fault Null_deref m)"
    by (rule client_ok_same [OF ok]) (simp_all add: net_simps)
  moreover have "client_ok (reset_errno x)" if "client_ok x" for x :: "'a client"
    by (rule client_ok_same [OF that]) (simp_all add: net_simps)
  ultimately have ok': "client_ok m'" using e m1 ok by auto
  then show "leaves True F 0 {} m m'"
    using e m1 F by (auto simp: leaves_def owed_def net_simps heap_simps)
  show "n_world m' = n_world m" "cl_received m' = cl_received m" "n_sent m' = n_sent m" "cl_cache m' = cl_cache m"
    "outcomes m' = outcomes m"
    using e m1 by (auto simp: net_simps heap_simps add_fault_def)
  show "b = fst (Attrs_copy_to_stat (Some a) zero_stat quiet_heap)" using e(1) run(1) by simp
  show "presented E a sb'" if b
  proof -
    have "sb' = with_ids E (n_world m1) a s"
      using C that e(1) by (auto simp: Rhizofs_convert_attrs_stat_def r with_ids_def Let_def)
    with that e(1) run(1,2) show ?thesis by (auto simp: presented_def)
  qed
qed

definition stat_result :: "'w zmq_env \<Rightarrow> string \<Rightarrow> 'w client \<Rightarrow> int \<times> stat \<Rightarrow> 'w client \<Rightarrow> bool" where
  \<comment> \<open>what \<open>Rhizofs_getattr\<close> returns and puts into the cache\<close>
  "stat_result E path m x m' \<longleftrightarrow>
     (cl_received m' = cl_received m \<and> cache_map (cl_cache m') \<subseteq>\<^sub>m cache_map (cl_cache m)
        \<and> (fst x = 0 \<longrightarrow> n_sent m' = n_sent m))
     \<or> (\<exists>r. cl_received m' = cl_received m @ [r] \<and> fst x = - Response_get_errno r
        \<and> (\<forall>q e. cache_map (cl_cache m') q = Some e \<longrightarrow> cache_map (cl_cache m) q = Some e
             \<or> (q = path \<and> Response_get_errno r = 0 \<and> ce_stat e = snd x
                  \<and> (\<exists>a. rs_attrs r = Some a \<and> presented E a (ce_stat e))))
        \<and> (\<forall>a. Response_get_errno r = 0 \<and> rs_attrs r = Some a
             \<and> fst (Attrs_copy_to_stat (Some a) zero_stat quiet_heap) \<longrightarrow> presented E a (snd x)))"

lemma stat_result_same:
  "cl_cache m1 = cl_cache m \<Longrightarrow> cl_received m1 = cl_received m \<Longrightarrow> n_sent m1 = n_sent m
     \<Longrightarrow> stat_result E path m1 x m' = stat_result E path m x m'"
  by (simp add: stat_result_def)

lemma stat_result_lost:
  "cl_cache m' = cl_cache m \<Longrightarrow> cl_received m' = cl_received m \<Longrightarrow> (fst x = 0 \<Longrightarrow> n_sent m' = n_sent m)
     \<Longrightarrow> stat_result E path m x m'"
  by (simp add: stat_result_def)

definition getattr_body :: "'w zmq_env \<Rightarrow> string \<Rightarrow> stat \<Rightarrow> request \<Rightarrow> response \<Rightarrow> 'w client \<Rightarrow> (int \<times> stat) \<times> 'w client" where
  "getattr_body E path stbuf request response m =
     (case rs_attrs response of
           None \<Rightarrow> OP_FAIL (\<lambda>n. (n, stbuf)) 0 request (Some response) m
         | Some a \<Rightarrow>
            (let (converted, sb, m1) = Rhizofs_convert_attrs_stat E a stbuf m;
                 fail = OP_FAIL (\<lambda>n. (n, sb)) 0 request (Some response)
             in if \<not> converted then fail m1
                else if \<not> alloc_ok m1 then fail (alloc_next m1)
                else case CacheEntry_create (alloc_next m1) of
                  (None, m2) \<Rightarrow> fail (release 1 m2)
                | (Some e, m2) \<Rightarrow>
                   (let current_time = z_time E (n_world m2) in
                    if current_time = -1 then fail (release 2 m2)
                    else let (stored, m3) =
                        cache_set E path (e\<lparr>ce_creation_ts := current_time, ce_stat := sb\<rparr>) m2
                      in if \<not> stored then fail (release 2 m3)
                         else ((0, sb), OP_DEINIT request (Some response) m3))))"

text \<open>What the body does before it frees request and response.\<close>

definition grown :: "'w zmq_env \<Rightarrow> fault set \<Rightarrow> int \<Rightarrow> (string \<Rightarrow> stat \<Rightarrow> bool) \<Rightarrow> 'w client \<Rightarrow> 'w client \<Rightarrow> bool" where
  \<comment> \<open>the cache has at most gained entries that satisfy \<open>N\<close>\<close>
  "grown E F k N m m' \<longleftrightarrow> leaves False F k {} m m' \<and> cl_received m' = cl_received m \<and> n_sent m' = n_sent m
     \<and> (\<forall>q e. cache_map (cl_cache m') q = Some e \<longrightarrow> cache_map (cl_cache m) q = Some e \<or> N q (ce_stat e))"

lemma grown_refl: "client_ok m \<Longrightarrow> grown E F 0 N m m"
  by (simp add: grown_def leaves_refl)

lemma grown_trans: "grown E F k N m m1 \<Longrightarrow> grown E F k' N m1 m2 \<Longrightarrow> grown E F (k + k') N m m2"
  using leaves_trans [of False F k "{}" m m1 k' m2] by (auto simp: grown_def)

lemma grown_prepared: "client_ok m \<Longrightarrow> prepared k m m' \<Longrightarrow> grown E F (- k) N m m'"
  using leaves_prepared [of m k m' False F "{}"] by (auto simp: grown_def prepared_def)

lemma grown_deinit:
  "grown E F k N m m1 \<Longrightarrow> grown E F (k + request_parts rq + of_opt response_blocks resp) N m (OP_DEINIT rq resp m1)"
  using leaves_deinit [of False F k "{}" m m1 rq resp] by (simp add: grown_def net_simps)

lemma grown_reset: "grown E F k N m m1 \<Longrightarrow> grown E F k N m (reset_errno m1)"
  using leaves_prepared_then [OF _ prepared_reset, of False F k "{}" m m1] by (simp add: grown_def net_simps)

lemma grown_ok: "grown E F k N m m' \<Longrightarrow> client_ok m'"
  by (simp add: grown_def leaves_def)

lemma grown_fail:
  "grown E F k N m m1 \<Longrightarrow> OP_FAIL out e rq (Some rs) m1 = (x, m2)
     \<Longrightarrow> grown E F (k + request_parts rq + response_blocks rs) N m m2 \<and> x = out (- e)"
  using grown_deinit [OF grown_reset, of E F k N m m1 rq "Some rs"] by (auto simp: OP_FAIL_def)

lemma convert_grown:
  assumes "client_ok m" "Rhizofs_convert_attrs_stat E a sb m = (b, sb', m')" "Null_deref \<in> F"
  shows "grown E F 0 N m m'"
  using convert_ok [OF assms] leaves_mono [of True F 0 "{}" m m' F "{}" False]
  by (simp add: grown_def)

lemma cache_set_grown:
  assumes "client_ok m" "time_works E" "cache_set E path e m = (r, m')" "N path (ce_stat e)"
  shows "grown E F (if r then 2 else 0) N m m'"
  using cache_set_ok [OF assms(1-3)] assms(4) by (auto simp: grown_def)

lemma prepared_alloc: "prepared (if alloc_ok m then 1 else 0) m (alloc_next m)"
  by (simp add: prepared_def net_simps heap_simps)

lemma getattr_body_ok:
  assumes ok: "client_ok m" and T: "time_works E" and F: "Null_deref \<in> F"
    and b: "getattr_body E path stbuf rq rs m = (x, m')"
  defines "N \<equiv> \<lambda>q s. q = path \<and> s = snd x \<and> (\<exists>a. rs_attrs rs = Some a \<and> presented E a s)"
  shows "grown E F (request_parts rq + response_blocks rs) N m m' \<and> fst x = 0
    \<and> (\<forall>a. rs_attrs rs = Some a \<and> fst (Attrs_copy_to_stat (Some a) zero_stat quiet_heap) \<longrightarrow> presented E a (snd x))"
proof (cases "rs_attrs rs")
  case None
  with b grown_fail [OF grown_refl [OF ok], of "\<lambda>n. (n, stbuf)" 0 rq rs x m' E F N] show ?thesis
    by (auto simp: getattr_body_def)
next
  case (Some a)
  obtain cv sb m1 where c: "Rhizofs_convert_attrs_stat E a stbuf m = (cv, sb, m1)" by (metis prod_cases3)
  note C = convert_ok [OF ok c F]
  have g1: "grown E F 0 N m m1" by (rule convert_grown [OF ok c F])
  let ?out = "\<lambda>n. (n, sb)"
  have B: "getattr_body E path stbuf rq rs m =
      (if \<not> cv then OP_FAIL ?out 0 rq (Some rs) m1
       else if \<not> alloc_ok m1 then OP_FAIL ?out 0 rq (Some rs) (alloc_next m1)
       else case CacheEntry_create (alloc_next m1) of
         (None, m2) \<Rightarrow> OP_FAIL ?out 0 rq (Some rs) (release 1 m2)
       | (Some e, m2) \<Rightarrow>
          (let current_time = z_time E (n_world m2) in
           if current_time = -1 then OP_FAIL ?out 0 rq (Some rs) (release 2 m2)
           else let (stored, m3) = cache_set E path (e\<lparr>ce_creation_ts := current_time, ce_stat := sb\<rparr>) m2
             in if \<not> stored then OP_FAIL ?out 0 rq (Some rs) (release 2 m3)
                else ((0, sb), OP_DEINIT rq (Some rs) m3)))"
    by (simp add: getattr_body_def Some c Let_def)
  have fin: ?thesis if g: "grown E F 0 (\<lambda>q s. q = path \<and> s = sb \<and> cv) m m2"
      and r: "(x, m') = OP_FAIL ?out 0 rq (Some rs) m2 \<or> (x, m') = ((0, sb), OP_DEINIT rq (Some rs) m2)" for m2
  proof -
    have sx: "x = (0, sb)" and m': "m' = OP_DEINIT rq (Some rs) m2 \<or> m' = OP_DEINIT rq (Some rs) (reset_errno m2)"
      using r by (auto simp: OP_FAIL_def)
    have g': "grown E F 0 N m m2"
      using g C(6) Some sx by (auto simp: grown_def N_def)
    have "grown E F (request_parts rq + response_blocks rs) N m m'"
      using m' grown_deinit [OF g', of rq "Some rs"] grown_deinit [OF grown_reset [OF g'], of rq "Some rs"] by auto
    with sx Some C(6,7) show ?thesis by simp
  qed
  let ?N = "\<lambda>q s. q = path \<and> s = sb \<and> cv"
  have h1: "grown E F 0 ?N m m1" by (rule convert_grown [OF ok c F])
  let ?m2 = "alloc_next m1" and ?m3 = "alloc_next (alloc_next m1)"
  have h2: "grown E F (- (if alloc_ok m1 then 1 else 0)) ?N m ?m2"
    using grown_trans [OF h1 grown_prepared [OF grown_ok [OF h1] prepared_alloc]] by simp
  have h3: "grown E F (- (if alloc_ok m1 then 1 else 0) - (if alloc_ok ?m2 then 1 else 0)) ?N m ?m3"
    using grown_trans [OF h2 grown_prepared [OF grown_ok [OF h2] prepared_alloc]] by simp
  have rel: "grown E F (j + k) ?N m (release k m4)" if "grown E F j ?N m m4" for j k m4
    using grown_trans [OF that grown_prepared [OF grown_ok [OF that] prepared_release]] by simp
  show ?thesis
  proof (cases "cv \<and> alloc_ok m1 \<and> alloc_ok ?m2 \<and> z_time E (n_world ?m3) \<noteq> -1")
    case True
    let ?e = "\<lparr>ce_stat = sb, ce_creation_ts = z_time E (n_world ?m3)\<rparr>"
    obtain st m4 where s: "cache_set E path ?e ?m3 = (st, m4)" by fastforce
    have "grown E F (if st then 2 else 0) ?N ?m3 m4"
      by (rule cache_set_grown [OF grown_ok [OF h3] T s]) (use True in simp)
    from grown_trans [OF h3 this] True have h4: "grown E F ((if st then 2 else 0) - 2) ?N m m4" by simp
    show ?thesis
    proof (cases st)
      case True
      then show ?thesis
        using h4 \<open>cv \<and> _\<close> B b s by (intro fin [of m4]) (simp_all add: CacheEntry_create_def)
    next
      case False
      then show ?thesis
        using rel [OF h4, of 2] \<open>cv \<and> _\<close> B b s
        by (intro fin [of "release 2 m4"]) (simp_all add: CacheEntry_create_def)
    qed
  next
    case False
    then consider (unconverted) "\<not> cv" | (no_path) "cv" "\<not> alloc_ok m1"
      | (no_entry) "cv" "alloc_ok m1" "\<not> alloc_ok ?m2"
      | (no_time) "cv" "alloc_ok m1" "alloc_ok ?m2" "z_time E (n_world ?m3) = -1" by blast
    then show ?thesis
    proof cases
      case unconverted
      with B b show ?thesis by (intro fin [OF h1]) simp
    next
      case no_path
      with h2 have "grown E F 0 ?N m ?m2" by simp
      with no_path B b show ?thesis by (intro fin [of ?m2]) simp_all
    next
      case no_entry
      with rel [OF h3, of 1] have "grown E F 0 ?N m (release 1 ?m3)" by simp
      with no_entry B b show ?thesis by (intro fin [of "release 1 ?m3"]) (simp_all add: CacheEntry_create_def)
    next
      case no_time
      with rel [OF h3, of 2] have "grown E F 0 ?N m (release 2 ?m3)" by simp
      with no_time B b show ?thesis by (intro fin [of "release 2 ?m3"]) (simp_all add: CacheEntry_create_def)
    qed
  qed
qed

interpretation fs_getattr_remote: client_op "time_works E" E False "{Uninitialised_use, Null_deref}"
    "{new_request\<lparr>rq_path := Some path, rq_type := GETATTR\<rparr>}"
    "stat_result E path" "Rhizofs_getattr_remote E t path stbuf" for E t path stbuf
proof unfold_locales
  fix m :: "'a client"
  let ?F = "{Uninitialised_use, Null_deref}" and ?rq = "new_request\<lparr>rq_path := Some path, rq_type := GETATTR\<rparr>"
  let ?out = "\<lambda>n. (n, stbuf)"
  assume T: "time_works E" and A: "client_ok m" "forgets E"
  have op: "Rhizofs_getattr_remote E t path stbuf = OP_INIT ?out (\<lambda>request. let request = request\<lparr>rq_path := Some path, rq_type := GETATTR\<rparr> in
      OP_COMMUNICATE E t ?out request (getattr_body E path stbuf request))"
    unfolding Rhizofs_getattr_remote_def getattr_body_def [abs_def] ..
  show "op_at False ?F 0 {?rq} (stat_result E path m) m (Rhizofs_getattr_remote E t path stbuf m)"
    unfolding op
  proof (rule OP_INIT_ok [OF A(1)])
    fix m1 assume m1: "client_ok m1" "prepared 1 m m1"
    have "op_at False ?F (request_parts ?rq) {?rq} (stat_result E path m) m1 (OP_COMMUNICATE E t ?out ?rq (getattr_body E path stbuf ?rq) m1)"
    proof (rule OP_COMMUNICATE_ok [OF m1(1) A(2)], goal_cases)
      case (3 e m2)
      then show ?case using m1(2) by (intro stat_result_lost) (auto simp: prepared_def)
    next
      case (4 r m2)
      then show ?case using m1(2) by (auto simp: stat_result_def prepared_def)
    next
      case (5 r m2 x m3)
      from getattr_body_ok [OF 5(1) T _ 5(5), of ?F] 5(2-4) m1(2) show ?case
        by (auto simp: grown_def stat_result_def prepared_def)
    qed simp_all
    then show "op_at False ?F 1 {?rq} (stat_result E path m) m1
      ((let request = new_request\<lparr>rq_path := Some path, rq_type := GETATTR\<rparr> in
        OP_COMMUNICATE E t ?out request (getattr_body E path stbuf request)) m1)"
      by (simp add: Let_def)
  qed (auto intro!: stat_result_lost simp: prepared_def)
qed

lemma leaves_first: "leaves ex F k {} m m1 \<Longrightarrow> leaves ex F k' R m1 m' \<Longrightarrow> leaves ex F (k + k') R m m'"
  by (cases ex) (auto simp: leaves_def)

lemma stat_result_mono:
  assumes "stat_result E path m1 x m'" "cache_map (cl_cache m1) \<subseteq>\<^sub>m cache_map (cl_cache m)"
    "cl_received m1 = cl_received m" "n_sent m1 = n_sent m"
  shows "stat_result E path m x m'"
proof -
  have sub: "cache_map (cl_cache m1) q = Some e \<Longrightarrow> cache_map (cl_cache m) q = Some e" for q e
    using assms(2) by (force simp: map_le_def dom_def)
  from assms(1) show ?thesis
    unfolding stat_result_def
  proof (elim disjE exE, goal_cases)
    case 1
    then show ?case using assms(3,4) map_le_trans [OF _ assms(2)] by auto
  next
    case (2 r)
    have "cache_map (cl_cache m) q = Some e \<or> (q = path \<and> Response_get_errno r = 0 \<and> ce_stat e = snd x
        \<and> (\<exists>a. rs_attrs r = Some a \<and> presented E a (ce_stat e)))" if "cache_map (cl_cache m') q = Some e" for q e
      using 2 that sub by blast
    with 2 assms(3) show ?case by (intro disjI2 exI [of _ r]) simp
  qed
qed

definition getattr_result :: "'w zmq_env \<Rightarrow> string \<Rightarrow> 'w client \<Rightarrow> int \<times> stat \<Rightarrow> 'w client \<Rightarrow> bool" where
  "getattr_result E path m x m' \<longleftrightarrow>
     (cl_received m' = cl_received m \<and> n_sent m' = n_sent m \<and> cl_cache m' = cl_cache m
        \<and> (\<exists>e. cache_map (cl_cache m) path = Some e \<and> fresh_entry (z_time E (n_world m)) (cl_cache m) e
             \<and> x = (0, ce_stat e)))
     \<or> stat_result E path m x m'"

lemma copy_stat_in_client:
  assumes "client_ok m" "AttrCache_copy_stat (z_time E (n_world m)) (cl_cache m) (Some path) m = (r, c, m1)"
  defines "m2 \<equiv> m1\<lparr>cl_cache := c\<rparr>"
  shows "leaves ex F 0 {} m m2" "cache_map (cl_cache m2) \<subseteq>\<^sub>m cache_map (cl_cache m)"
    "cl_received m2 = cl_received m" "n_sent m2 = n_sent m"
    "r = Some sb \<Longrightarrow> m2 = m \<and> (\<exists>e. cache_map (cl_cache m) path = Some e
       \<and> fresh_entry (z_time E (n_world m)) (cl_cache m) e \<and> sb = ce_stat e)"
proof -
  let ?now = "z_time E (n_world m)" and ?c = "cl_cache m"
  have C: "cache_ok ?c" using assms(1) by (simp add: client_ok_def)
  obtain r0 where G: "AttrCache_get ?now ?c (Some path) m = (r0, c, m1)" "r = map_option ce_stat r0"
    using assms(2) AttrCache_copy_stat_get [OF C, of ?now path m] by (auto split: prod.splits)
  have more: "heap.more m1 = heap.more m" using more_copy_stat [of ?now ?c "Some path" m] assms(2) by simp
  have "leaves ex F 0 {} m m2 \<and> cache_map c \<subseteq>\<^sub>m cache_map ?c \<and> (\<forall>sb. r = Some sb \<longrightarrow> m2 = m \<and>
    (\<exists>e. cache_map ?c path = Some e \<and> fresh_entry ?now ?c e \<and> sb = ce_stat e))"
  proof (rule AttrCache_get_cases [OF C, of path ?now m], goal_cases)
    case 1
    then have "c = ?c" "m1 = m" "r = None" using G by auto
    with assms(1) show ?case by (simp add: m2_def leaves_refl)
  next
    case (2 e h)
    note D = cache_ok_drop [OF C, of path]
    have c: "c = ?c\<lparr>ac_table := table_drop path (ac_table ?c)\<rparr>" "m1 = h" "r = None" using 2(3) G by auto
    have "finite (dom (cache_map ?c))" using cache_size_card [OF C] by simp
    then have sz: "int (cache_size c) = int (cache_size ?c) - 1"
      using cache_size_card [OF C] cache_size_card [of c] D card_dom_drop [of "cache_map ?c" path] 2(1)
      by (simp add: c(1) card_gt_0_iff) (metis One_nat_def Suc_pred card_gt_0_iff domIff empty_iff of_nat_Suc option.distinct(1) add_diff_cancel_left')
    have mx: "hash_maxcount (ac_table c) = hash_maxcount (ac_table ?c)"
      using 2(1) C drop_bounded [of "ac_table ?c" path] by (auto simp: c(1) cache_map_lookup cache_ok_def)
    have "client_ok m2"
      unfolding m2_def by (rule client_ok_cache [OF assms(1)]) (use D 2(1) mx cl_heap [OF more] in \<open>simp_all add: c(1)\<close>)
    then show ?case
      using 2 c sz cl_heap [OF more] D by (auto simp: m2_def leaves_def owed_def map_le_def)
  next
    case (3 e)
    then have "c = ?c" "m1 = m" "r = Some (ce_stat e)" using G by auto
    with 3 assms(1) show ?case by (auto simp: m2_def leaves_refl)
  qed
  then show "leaves ex F 0 {} m m2" "cache_map (cl_cache m2) \<subseteq>\<^sub>m cache_map ?c"
    "cl_received m2 = cl_received m" "n_sent m2 = n_sent m"
    "r = Some sb \<Longrightarrow> m2 = m \<and> (\<exists>e. cache_map (cl_cache m) path = Some e
       \<and> fresh_entry (z_time E (n_world m)) (cl_cache m) e \<and> sb = ce_stat e)"
    using cl_heap [OF more] by (auto simp: m2_def)
qed

interpretation fs_getattr: client_op "time_works E" E False "{Uninitialised_use, Null_deref}"
    "{new_request\<lparr>rq_path := Some path, rq_type := GETATTR\<rparr>}"
    "getattr_result E path" "Rhizofs_getattr E t path stbuf" for E t path stbuf
proof unfold_locales
  fix m :: "'a client"
  let ?F = "{Uninitialised_use, Null_deref}" and ?R = "{new_request\<lparr>rq_path := Some path, rq_type := GETATTR\<rparr>}"
  assume T: "time_works E" and A: "client_ok m" "forgets E"
  obtain r c m1 where cs: "AttrCache_copy_stat (z_time E (n_world m)) (cl_cache m) (Some path) m = (r, c, m1)"
    by (metis prod_cases3)
  let ?m2 = "m1\<lparr>cl_cache := c\<rparr>"
  note C = copy_stat_in_client [OF A(1) cs]
  show "op_at False ?F 0 ?R (getattr_result E path m) m (Rhizofs_getattr E t path stbuf m)"
  proof (cases r)
    case (Some sb)
    with C(5) [of sb] A(1) cs show ?thesis
      by (auto simp: Rhizofs_getattr_def op_at_def getattr_result_def leaves_refl)
  next
    case None
    have ok: "client_ok ?m2" using C(1) [of False ?F] by (simp add: leaves_def)
    from fs_getattr_remote.contract [OF T ok A(2), of path t stbuf] obtain x m' where
      g: "Rhizofs_getattr_remote E t path stbuf ?m2 = Some (x, m')" "leaves False ?F 0 ?R ?m2 m'"
      "stat_result E path ?m2 x m'" by (auto simp: op_at_def)
    from leaves_first [OF C(1) g(2)] stat_result_mono [OF g(3) C(2-4)] g(1) None cs show ?thesis
      by (simp add: Rhizofs_getattr_def op_at_def getattr_result_def)
  qed
qed

section \<open>Reading a directory\<close>

definition owned_blocks :: "pointer \<Rightarrow> int" where
  "owned_blocks p = (if p = Owned then 1 else 0)"

lemma owned_blocks_simps [simp]: "owned_blocks Null = 0" "owned_blocks Owned = 1" "owned_blocks Given = 0"
  by (simp_all add: owned_blocks_def)

definition listed :: "'w zmq_env \<Rightarrow> string \<Rightarrow> attrs list \<Rightarrow> string \<Rightarrow> stat \<Rightarrow> bool" where
  \<comment> \<open>the path is that of an entry, the stat what its attributes say\<close>
  "listed E path entries q s \<longleftrightarrow> (\<exists>a \<in> set entries. \<exists>n. a_name a = Some n \<and> q = joined path n \<and> presented E a s)"

lemma grown_mono: "grown E F k N m m' \<Longrightarrow> F \<subseteq> F' \<Longrightarrow> (\<And>q s. N q s \<Longrightarrow> N' q s) \<Longrightarrow> grown E F' k N' m m'"
  using leaves_mono [of False F k "{}" m m' F' "{}" False] unfolding grown_def by blast

lemma grown_leaves:
  "leaves False F k {} m m' \<Longrightarrow> cl_received m' = cl_received m \<Longrightarrow> n_sent m' = n_sent m \<Longrightarrow> cl_cache m' = cl_cache m
     \<Longrightarrow> grown E F k N m m'"
  by (simp add: grown_def)

lemma grown_next: "client_ok m \<Longrightarrow> grown E F 0 N m (z_next E c m)"
  by (rule grown_leaves)
     (use client_ok_same [of m "z_next E c m"] in \<open>auto simp: leaves_def owed_def net_simps\<close>)

lemma grown_join:
  assumes "client_ok m" "path_join (Some p) (Some n) m = (r, m')" "Buffer_overflow \<in> F"
  shows "grown E F (- (if r = None then 0 else 1)) N m m' \<and> (\<forall>q. r = Some q \<longrightarrow> q = joined p n)
    \<and> (alloc_ok m \<longrightarrow> r \<noteq> None)"
proof -
  have more: "heap.more m' = heap.more m" using more_mapping(5) [of "Some p" "Some n" m] assms(2) by simp
  have ok: "client_ok m'" using client_ok_same [OF assms(1)] cl_heap [OF more] by blast
  have "live m' = live m + (if r = None then 0 else 1) \<and> (\<exists>fs. faults m' = faults m @ fs \<and> set fs \<subseteq> F)
    \<and> (\<forall>q. r = Some q \<longrightarrow> q = joined p n) \<and> (alloc_ok m \<longrightarrow> r \<noteq> None)"
    by (rule path_join_cases [of "Some p" "Some n" m]) (use assms(2,3) in \<open>auto split: if_splits\<close>)
  with ok cl_heap [OF more] show ?thesis
    by (auto intro!: grown_leaves simp: leaves_def owed_def)
qed

lemma fill_loop_ok:
  assumes "client_ok m" "time_works E" "{Null_deref, Buffer_overflow} \<subseteq> F" "pe \<noteq> Owned" "ce \<noteq> Owned"
    and "fill_loop E path now entries pe ce names m = (ok, pe', ce', names', m')"
  shows "grown E F (- owned_blocks pe' - owned_blocks ce') (listed E path entries) m m'
    \<and> (ok \<longrightarrow> pe' \<noteq> Owned \<and> ce' \<noteq> Owned)
    \<and> (\<exists>k. map a_name (take k entries) = map Some (drop (length names) names') \<and> take (length names) names' = names)"
  using assms(1,4-6)
proof (induction entries arbitrary: pe ce names m)
  case Nil
  then show ?case by (auto simp: owned_blocks_def intro: grown_refl)
next
  case (Cons a entries)
  let ?N = "listed E path (a # entries)"
  note ok = Cons.prems(1)
  show ?case
  proof (cases "a_name a")
    case None
    with Cons.prems show ?thesis by (auto simp: owned_blocks_def intro: grown_refl exI [of _ 0])
  next
    case (Some n)
    define m1 where "m1 = z_next E (Z_filler n) m"
    have g1: "grown E F 0 ?N m m1" unfolding m1_def by (rule grown_next [OF ok])
    obtain r m2 where j: "path_join (Some path) (Some n) m1 = (r, m2)" by fastforce
    have J: "grown E F (- (if r = None then 0 else 1)) ?N m1 m2" "\<forall>q. r = Some q \<longrightarrow> q = joined path n"
      using grown_join [OF grown_ok [OF g1] j, of F E ?N] assms(3) by auto
    note g2 = grown_trans [OF g1 J(1)]
    have g3: "grown E F (- (if r = None then 0 else 1) - (if alloc_ok m2 then 1 else 0)) ?N m (alloc_next m2)"
      using grown_trans [OF g2 grown_prepared [OF grown_ok [OF g2] prepared_alloc]] by simp
    obtain cv sb m4 where c: "Rhizofs_convert_attrs_stat E a zero_stat (alloc_next m2) = (cv, sb, m4)" by (metis prod_cases3)
    have F: "Null_deref \<in> F" using assms(3) by simp
    note C = convert_ok [OF grown_ok [OF g3] c F]
    have g4: "grown E F (- (if r = None then 0 else 1) - (if alloc_ok m2 then 1 else 0)) ?N m m4"
      using grown_trans [OF g3 convert_grown [OF grown_ok [OF g3] c F]] by simp
    obtain st m5 where s: "cache_set E (joined path n) \<lparr>ce_stat = sb, ce_creation_ts = now\<rparr> m4 = (st, m5)" by fastforce
    have g5: "grown E F (- (if r = None then 0 else 1) - (if alloc_ok m2 then 1 else 0) + (if st then 2 else 0)) ?N m m5"
      if cv
    proof -
      have "?N (joined path n) (ce_stat \<lparr>ce_stat = sb, ce_creation_ts = now\<rparr>)"
        using C(6) [OF that] Some by (auto simp: listed_def)
      then have "grown E F (if st then 2 else 0) ?N m4 m5"
        by (rule cache_set_grown [OF grown_ok [OF g4] assms(2) s])
      from grown_trans [OF g4 this] show ?thesis .
    qed
    have step: "fill_loop E path now (a # entries) pe ce names m =
      (if nonzero (z_ret E (Z_filler n) m) then (True, pe, ce, names, m1)
       else if r = None then (False, Null, ce, names @ [n], m2)
       else if \<not> alloc_ok m2 then (False, Owned, Null, names @ [n], alloc_next m2)
       else if \<not> cv then (False, Owned, Owned, names @ [n], m4)
       else if \<not> st then (False, Owned, Owned, names @ [n], m5)
       else fill_loop E path now entries Given Given (names @ [n]) m5)"
    proof (cases r)
      case None
      then show ?thesis by (simp add: Some j Let_def flip: m1_def)
    next
      case (Some q)
      then have "q = joined path n" using J(2) by simp
      then show ?thesis using Some \<open>a_name a = Some n\<close> s c j
        by (simp add: Let_def CacheEntry_create_def flip: m1_def)
    qed
    have one: "\<exists>k. map a_name (take k (a # entries)) = map Some (drop (length names) (names @ [n]))
        \<and> take (length names) (names @ [n]) = names"
      using Some by (intro exI [of _ 1]) simp
    have none: "\<exists>k. map a_name (take k (a # entries)) = map Some (drop (length names) names)
        \<and> take (length names) names = names"
      by (intro exI [of _ 0]) simp
    have out: "owned_blocks pe = 0" "owned_blocks ce = 0" using Cons.prems(2,3) by (simp_all add: owned_blocks_def)
    consider (full) "nonzero (z_ret E (Z_filler n) m)"
      | (no_path) "\<not> nonzero (z_ret E (Z_filler n) m)" "r = None"
      | (no_entry) "\<not> nonzero (z_ret E (Z_filler n) m)" "r \<noteq> None" "\<not> alloc_ok m2"
      | (unconverted) "\<not> nonzero (z_ret E (Z_filler n) m)" "r \<noteq> None" "alloc_ok m2" "\<not> cv"
      | (unstored) "\<not> nonzero (z_ret E (Z_filler n) m)" "r \<noteq> None" "alloc_ok m2" cv "\<not> st"
      | (added) "\<not> nonzero (z_ret E (Z_filler n) m)" "r \<noteq> None" "alloc_ok m2" cv st by blast
    then show ?thesis
    proof cases
      case full
      with step Cons.prems(4) have "(ok, pe', ce', names', m') = (True, pe, ce, names, m1)" by simp
      with g1 none out Cons.prems(2,3) show ?thesis by simp
    next
      case no_path
      with step Cons.prems(4) have "(ok, pe', ce', names', m') = (False, Null, ce, names @ [n], m2)" by simp
      with g2 one out no_path show ?thesis by simp
    next
      case no_entry
      with step Cons.prems(4) have "(ok, pe', ce', names', m') = (False, Owned, Null, names @ [n], alloc_next m2)" by simp
      with g3 one no_entry show ?thesis by simp
    next
      case unconverted
      with step Cons.prems(4) have "(ok, pe', ce', names', m') = (False, Owned, Owned, names @ [n], m4)" by simp
      with g4 one unconverted show ?thesis by simp
    next
      case unstored
      with step Cons.prems(4) have "(ok, pe', ce', names', m') = (False, Owned, Owned, names @ [n], m5)" by simp
      with g5 one unstored show ?thesis by simp
    next
      case added
      with step have "fill_loop E path now (a # entries) pe ce names m
          = fill_loop E path now entries Given Given (names @ [n]) m5" by (simp del: fill_loop.simps)
      with Cons.prems(4) have rec: "fill_loop E path now entries Given Given (names @ [n]) m5 = (ok, pe', ce', names', m')"
        by (simp only:)
      have g5': "grown E F 0 ?N m m5" using g5 added by simp
      from Cons.IH [OF grown_ok [OF g5'] _ _ rec]
      have R: "grown E F (- owned_blocks pe' - owned_blocks ce') (listed E path entries) m5 m'"
        "ok \<longrightarrow> pe' \<noteq> Owned \<and> ce' \<noteq> Owned"
        "\<exists>k. map a_name (take k entries) = map Some (drop (length (names @ [n])) names')
          \<and> take (length (names @ [n])) names' = names @ [n]" by simp_all
      have "grown E F (- owned_blocks pe' - owned_blocks ce') ?N m5 m'"
        by (rule grown_mono [OF R(1)]) (auto simp: listed_def)
      from grown_trans [OF g5' this] have G: "grown E F (- owned_blocks pe' - owned_blocks ce') ?N m m'" by simp
      from R(3) obtain k where k: "map a_name (take k entries) = map Some (drop (length (names @ [n])) names')"
        "take (Suc (length names)) names' = names @ [n]" by auto
      have "take (length names) names' = names"
        using arg_cong [OF k(2), of "take (length names)"] by (simp add: min_def)
      moreover have "drop (length names) names' = n # drop (Suc (length names)) names'"
        using k(2) by (metis append_eq_conv_conj append_take_drop_id append.assoc append_Cons append_Nil)
      ultimately have "\<exists>k. map a_name (take k (a # entries)) = map Some (drop (length names) names')
          \<and> take (length names) names' = names"
        using k(1) Some by (intro exI [of _ "Suc k"]) simp
      with G R(2) show ?thesis by simp
    qed
  qed
qed

lemma free_pointer_grown:
  assumes "client_ok m" "Double_free \<in> F"
  shows "grown E F (owned_blocks p) N m (free_pointer p m)"
proof (cases p)
  case Owned
  with grown_prepared [OF assms(1) prepared_release [of 1], of E F N] show ?thesis by (simp add: free_pointer_def)
next
  case Given
  with leaves_fault [OF assms] show ?thesis
    by (auto intro!: grown_leaves simp: free_pointer_def net_simps)
qed (simp add: free_pointer_def grown_refl [OF assms(1)])

definition readdir_result :: "'w zmq_env \<Rightarrow> string \<Rightarrow> 'w client \<Rightarrow> int \<times> string list \<Rightarrow> 'w client \<Rightarrow> bool" where
  "readdir_result E path m x m' \<longleftrightarrow>
     (cl_received m' = cl_received m \<and> cl_cache m' = cl_cache m \<and> snd x = [] \<and> (fst x = 0 \<longrightarrow> n_sent m' = n_sent m))
     \<or> (\<exists>r. cl_received m' = cl_received m @ [r] \<and> fst x = - Response_get_errno r
        \<and> (\<exists>k. map a_name (take k (rs_entries r)) = map Some (snd x))
        \<and> (\<forall>q e. cache_map (cl_cache m') q = Some e \<longrightarrow> cache_map (cl_cache m) q = Some e
             \<or> (Response_get_errno r = 0 \<and> listed E path (rs_entries r) q (ce_stat e))))"

definition readdir_body :: "'w zmq_env \<Rightarrow> string \<Rightarrow> request \<Rightarrow> response \<Rightarrow> 'w client \<Rightarrow> (int \<times> string list) \<times> 'w client" where
  "readdir_body E path request response m =
     (let current_time = z_time E (n_world m) in
      if current_time = -1 then OP_FAIL (\<lambda>n. (n, [])) 0 request (Some response) m
      else let (complete, path_entry, cache_entry, names, m1) =
          fill_loop E path current_time (rs_entries response) Null Null [] m
      in if complete then ((0, names), OP_DEINIT request (Some response) m1)
         else OP_FAIL (\<lambda>n. (n, names)) 0 request (Some response)
                (free_pointer cache_entry (free_pointer path_entry m1)))"

lemma readdir_body_ok:
  assumes ok: "client_ok m" and T: "time_works E" and F: "{Null_deref, Buffer_overflow, Double_free} \<subseteq> F"
    and b: "readdir_body E path rq rs m = (x, m')"
  shows "grown E F (request_parts rq + response_blocks rs) (listed E path (rs_entries rs)) m m' \<and> fst x = 0
    \<and> (\<exists>k. map a_name (take k (rs_entries rs)) = map Some (snd x))"
proof -
  let ?N = "listed E path (rs_entries rs)"
  obtain cmp pe ce names m1 where f: "fill_loop E path (z_time E (n_world m)) (rs_entries rs) Null Null [] m
      = (cmp, pe, ce, names, m1)" by (metis prod_cases5)
  have L: "grown E F (- owned_blocks pe - owned_blocks ce) ?N m m1" "cmp \<longrightarrow> pe \<noteq> Owned \<and> ce \<noteq> Owned"
    "\<exists>k. map a_name (take k (rs_entries rs)) = map Some names"
    using fill_loop_ok [OF ok T _ _ _ f, of F] F by auto
  have D: "Double_free \<in> F" using F by simp
  let ?m2 = "free_pointer pe m1" and ?m3 = "free_pointer ce (free_pointer pe m1)"
  have g2: "grown E F (- owned_blocks ce) ?N m ?m2"
    using grown_trans [OF L(1) free_pointer_grown [OF grown_ok [OF L(1)] D, where p = pe]] by simp
  have g3: "grown E F 0 ?N m ?m3"
    using grown_trans [OF g2 free_pointer_grown [OF grown_ok [OF g2] D, where p = ce]] by simp
  have B: "(x, m') = (if cmp then ((0, names), OP_DEINIT rq (Some rs) m1)
      else OP_FAIL (\<lambda>n. (n, names)) 0 rq (Some rs) ?m3)"
    using b T by (simp add: readdir_body_def Let_def f time_works_def)
  show ?thesis
  proof (cases cmp)
    case True
    with L have "grown E F 0 ?N m m1" by (simp add: owned_blocks_def)
    from grown_deinit [OF this, of rq "Some rs"] True B L(3) show ?thesis by simp
  next
    case False
    with grown_fail [OF g3, of "\<lambda>n. (n, names)" 0 rq rs x m'] B L(3) show ?thesis by auto
  qed
qed

interpretation fs_readdir: client_op "time_works E" E False
    "{Uninitialised_use, Null_deref, Buffer_overflow, Double_free}"
    "{new_request\<lparr>rq_path := Some path, rq_type := READDIR\<rparr>}"
    "readdir_result E path" "Rhizofs_readdir E t path" for E t path
proof unfold_locales
  fix m :: "'a client"
  let ?F = "{Uninitialised_use, Null_deref, Buffer_overflow, Double_free}"
  let ?rq = "new_request\<lparr>rq_path := Some path, rq_type := READDIR\<rparr>"
  let ?out = "\<lambda>n. (n, [])"
  assume T: "time_works E" and A: "client_ok m" "forgets E"
  have op: "Rhizofs_readdir E t path = OP_INIT ?out (\<lambda>request. let request = request\<lparr>rq_path := Some path, rq_type := READDIR\<rparr> in
      OP_COMMUNICATE E t ?out request (readdir_body E path request))"
    unfolding Rhizofs_readdir_def readdir_body_def [abs_def] Let_def ..
  show "op_at False ?F 0 {?rq} (readdir_result E path m) m (Rhizofs_readdir E t path m)"
    unfolding op
  proof (rule OP_INIT_ok [OF A(1)])
    fix m1 assume m1: "client_ok m1" "prepared 1 m m1"
    have "op_at False ?F (request_parts ?rq) {?rq} (readdir_result E path m) m1 (OP_COMMUNICATE E t ?out ?rq (readdir_body E path ?rq) m1)"
    proof (rule OP_COMMUNICATE_ok [OF m1(1) A(2)], goal_cases)
      case (3 e m2)
      then show ?case using m1(2) by (auto simp: prepared_def readdir_result_def)
    next
      case (4 r m2)
      have "\<exists>k. map a_name (take k (rs_entries r)) = map Some []" by (rule exI [of _ 0]) simp
      with 4 show ?case using m1(2) by (auto simp: readdir_result_def prepared_def)
    next
      case (5 r m2 x m3)
      from readdir_body_ok [OF 5(1) T _ 5(5), of ?F] 5(2-4) m1(2) show ?case
        by (auto simp: grown_def readdir_result_def prepared_def)
    qed simp_all
    then show "op_at False ?F 1 {?rq} (readdir_result E path m) m1
      ((let request = new_request\<lparr>rq_path := Some path, rq_type := READDIR\<rparr> in
        OP_COMMUNICATE E t ?out request (readdir_body E path request)) m1)"
      by (simp add: Let_def)
  qed (auto simp: prepared_def readdir_result_def)
qed

end
