(* ===== verification/Rhizo_Mount.thy ===== *)
theory Rhizo_Mount
  imports Rhizo_Operations
begin

text \<open>
  The mounted file system of \<^verbatim>\<open>src/fs/rhizofs.c\<close>: what libfuse calls. \<open>fuse_op\<close> lists the calls
  of the table \<^verbatim>\<open>rhizofs_operations\<close> with their arguments and \<open>fuse_call\<close> runs the operation the
  table names; \<open>Rhizofs_init\<close> and \<open>Rhizofs_destroy\<close> set up and tear down the globals. A mount is a
  sequence of calls made by any threads; two operations do not overlap.

  What is proved: a mount started by \<open>Rhizofs_init\<close> answers every call, keeps its invariants, and
  sends at most one request for each call; results of the simple operations; that the cache only
  holds what the server said and is emptied of what an operation changed; and the failures: lost
  requests reported as success, stale entries after a rename, double frees.
\<close>

section \<open>Set-up and tear-down\<close>

abbreviation (input) ZMQ_REQ :: int where "ZMQ_REQ \<equiv> 3"

definition Rhizofs_settings_init :: rhizo_settings where
  "Rhizofs_settings_init = \<lparr>se_host_socket = None, se_server_public_key = None,
     se_server_public_key_file = None, se_client_public_key_file = None,
     se_client_public_key = None, se_client_secret_key = None, se_timeout = TIMEOUT_DEFAULT,
     se_check_socket_connection = True\<rparr>"

definition Rhizofs_settings_check :: "rhizo_settings \<Rightarrow> int" where
  "Rhizofs_settings_check se = (if se_host_socket se = None then -1 else 0)"

definition RhizoPriv_create :: "'w zmq_env \<Rightarrow> 'w client \<Rightarrow> nat option \<times> 'w client" where
  \<comment> \<open>the result is the ZeroMQ context of the struct that was allocated\<close>
  "RhizoPriv_create E m =
     (if \<not> alloc_ok m then (None, reset_errno (alloc_next m))
      else let m1 = alloc_next m; m2 = z_next E Z_init m1 in
        case z_ret E Z_init m1 of
          Inl _ \<Rightarrow> (None, release 1 (reset_errno m2))
        | Inr ctx \<Rightarrow> (Some (nat ctx), m2))"

definition pool_deinit :: "'w client \<Rightarrow> 'w client" where
  \<comment> \<open>\<^verbatim>\<open>SocketPool_deinit(&socketpool)\<close>\<close>
  "pool_deinit m = (let (sp, m1) = SocketPool_deinit (cl_pool m) m in m1\<lparr>cl_pool := sp\<rparr>)"

definition RhizoPriv_destroy :: "nat option \<Rightarrow> 'w client \<Rightarrow> 'w client" where
  "RhizoPriv_destroy priv m =
     (let m1 = pool_deinit m in if priv = None then m1 else release 1 m1)"

text \<open>
  The label \<^verbatim>\<open>error\<close> of \<open>Rhizofs_init\<close>. The cache has no table yet, unless its mutex could not be
  created: then \<open>AttrCache_init\<close> has freed the table and left the pointer, and \<open>AttrCache_deinit\<close>
  walks it again.
\<close>

definition init_error :: "nat option \<Rightarrow> bool \<Rightarrow> 'w client \<Rightarrow> 'w client" where
  "init_error priv table_dangling m =
     (let m1 = pool_deinit m in
      RhizoPriv_destroy priv (if table_dangling then add_fault Use_after_free m1 else m1))"

definition Rhizofs_init :: "'w zmq_env \<Rightarrow> bool \<Rightarrow> 'w client \<Rightarrow> nat option \<times> 'w client" where
  \<comment> \<open>\<open>mutex_ok\<close>: whether \<^verbatim>\<open>pthread_mutex_init\<close> succeeds\<close>
  "Rhizofs_init E mutex_ok m =
     (case RhizoPriv_create E m of
        (None, m1) \<Rightarrow> (None, init_error None False (reset_errno m1))
      | (Some ctx, m1) \<Rightarrow>
          (case se_host_socket (cl_settings m1) of
             None \<Rightarrow> (None, add_fault Null_deref m1)
           | Some host_socket \<Rightarrow>
              (let
                 (pool_made, sp, m2) = SocketPool_init E ctx host_socket ZMQ_REQ m1;
                 m3 = m2\<lparr>cl_pool := sp\<rparr>
               in if \<not> pool_made then (None, init_error (Some ctx) False (reset_errno m3))
                  else let
                    se = cl_settings m3;
                    client_keys = (case (se_client_public_key se, se_client_secret_key se) of
                        (Some a, Some b) \<Rightarrow> Some (a, b) | _ \<Rightarrow> None);
                    m4 = m3\<lparr>cl_pool := keyed_pool (se_server_public_key se) client_keys sp\<rparr>
                  in case AttrCache_init ATTRCACHE_MAXSIZE ATTRCACHE_DEFAULT_MAXAGE_SEC mutex_ok m4 of
                       (None, m5) \<Rightarrow> (None, init_error (Some ctx)
                          (fst (hash_create ATTRCACHE_MAXSIZE (Some strcmp) (Some Hashfunc_djb2) m4
                              :: cache_entry hash_t option \<times> 'w client) \<noteq> None)
                          (reset_errno m5))
                     | (Some cache, m5) \<Rightarrow> (Some ctx, m5\<lparr>cl_cache := cache\<rparr>))))"

definition Rhizofs_destroy :: "nat option \<Rightarrow> 'w client \<Rightarrow> 'w client" where
  "Rhizofs_destroy priv m =
     (let m1 = pool_deinit m;
          m2 = AttrCache_deinit (cl_cache m1) m1
      in RhizoPriv_destroy priv m2)"

section \<open>The table of operations\<close>

datatype fuse_op =
    Fuse_readdir string
  | Fuse_getattr string stat
  | Fuse_mkdir string mode_t
  | Fuse_rmdir string
  | Fuse_unlink string
  | Fuse_access string mode_t
  | Fuse_open string "32 word"
  | Fuse_read string nat int
  | Fuse_write string "byte list" int
  | Fuse_create string mode_t
  | Fuse_truncate string int
  | Fuse_chmod string mode_t
  | Fuse_utimens string "((int \<times> int) \<times> (int \<times> int)) option"
  | Fuse_link string string
  | Fuse_rename string string
  | Fuse_symlink string string
  | Fuse_readlink string nat
  | Fuse_mknod string mode_t
  | Fuse_chown string nat nat
  | Fuse_statfs string

text \<open>The value libfuse gets: the C return value.\<close>

definition status :: "((int \<times> 'r) \<times> 'w client) option \<Rightarrow> (int \<times> 'w client) option" where
  "status res = map_option (\<lambda>((n, _), m). (n, m)) res"

fun fuse_call :: "'w zmq_env \<Rightarrow> nat \<Rightarrow> fuse_op \<Rightarrow> 'w client \<Rightarrow> (int \<times> 'w client) option" where
  "fuse_call E t (Fuse_readdir p) m = status (Rhizofs_readdir E t p m)"
| "fuse_call E t (Fuse_getattr p sb) m = status (Rhizofs_getattr E t p sb m)"
| "fuse_call E t (Fuse_mkdir p mode) m = Rhizofs_mkdir E t p mode m"
| "fuse_call E t (Fuse_rmdir p) m = Rhizofs_rmdir E t p m"
| "fuse_call E t (Fuse_unlink p) m = Rhizofs_unlink E t p m"
| "fuse_call E t (Fuse_access p mode) m = Rhizofs_access E t p mode m"
| "fuse_call E t (Fuse_open p flags) m = Rhizofs_open E t p flags m"
| "fuse_call E t (Fuse_read p n offset) m = status (Rhizofs_read E t p n offset m)"
| "fuse_call E t (Fuse_write p buf offset) m = Rhizofs_write E t p buf offset m"
| "fuse_call E t (Fuse_create p mode) m = Rhizofs_create E t p mode m"
| "fuse_call E t (Fuse_truncate p offset) m = Rhizofs_truncate E t p offset m"
| "fuse_call E t (Fuse_chmod p mode) m = Rhizofs_chmod E t p mode m"
| "fuse_call E t (Fuse_utimens p tv) m = Rhizofs_utimens E t p tv m"
| "fuse_call E t (Fuse_link p q) m = Rhizofs_link E t p q m"
| "fuse_call E t (Fuse_rename p q) m = Rhizofs_rename E t p q m"
| "fuse_call E t (Fuse_symlink target p) m = Rhizofs_symlink E t target p m"
| "fuse_call E t (Fuse_readlink p n) m = status (Rhizofs_readlink E t p n m)"
| "fuse_call E t (Fuse_mknod p mode) m = Rhizofs_mknod E t p mode m"
| "fuse_call E t (Fuse_chown p u g) m = Rhizofs_chown p u g m"
| "fuse_call E t (Fuse_statfs p) m = status (Rhizofs_statfs E t p m)"

fun fuse_run :: "'w zmq_env \<Rightarrow> (nat \<times> fuse_op) list \<Rightarrow> 'w client \<Rightarrow> (int list \<times> 'w client) option" where
  \<comment> \<open>calls made one after the other, each by some thread\<close>
  "fuse_run E [] m = Some ([], m)"
| "fuse_run E ((t, op) # ops) m =
     (case fuse_call E t op m of
        None \<Rightarrow> None
      | Some (n, m1) \<Rightarrow> map_option (\<lambda>(ns, m2). (n # ns, m2)) (fuse_run E ops m1))"

section \<open>Every call keeps the contract\<close>

fun args_ok :: "fuse_op \<Rightarrow> bool" where
  "args_ok (Fuse_write p buf offset) \<longleftrightarrow> length buf < 2 ^ 31"
| "args_ok op \<longleftrightarrow> True"

abbreviation (input) client_faults :: "fault set" where
  "client_faults \<equiv> {Uninitialised_use, Null_deref, Buffer_overflow, Double_free, Buffer_overread, Signed_overflow}"

lemma op_at_status: "op_at ex F k R Q m res \<Longrightarrow> op_at ex F k R (\<lambda>n m'. \<exists>x. Q (n, x) m') m (status res)"
  by (auto simp: op_at_def status_def)

definition keeps_contract :: "'w client \<Rightarrow> (int \<times> 'w client) option \<Rightarrow> bool" where
  "keeps_contract m res \<longleftrightarrow> (\<exists>n m'. res = Some (n, m') \<and> leaves False client_faults 0 UNIV m m')"

lemma op_at_keeps: "op_at ex F 0 R Q m res \<Longrightarrow> F \<subseteq> client_faults \<Longrightarrow> keeps_contract m res"
  using leaves_mono [of ex F 0 R m _ client_faults UNIV False]
  by (auto simp: op_at_def keeps_contract_def)

lemma fuse_call_keeps:
  assumes "client_ok m" "forgets E" "time_works E" "args_ok op"
  shows "keeps_contract m (fuse_call E t op m)"
proof (cases op)
  case (Fuse_write p buf offset)
  with assms show ?thesis by (auto intro!: op_at_keeps fs_write.contract)
qed (use assms in \<open>auto intro!: op_at_keeps op_at_status fs_readdir.contract fs_getattr.contract
    fs_mkdir.contract fs_rmdir.contract fs_unlink.contract fs_access.contract fs_open.contract
    fs_read.contract fs_create.contract fs_truncate.contract fs_chmod.contract fs_utimens.contract
    fs_link.contract fs_rename.contract fs_symlink.contract fs_readlink.contract fs_mknod.contract
    fs_chown.contract fs_statfs.contract split: if_splits\<close>)

lemma fuse_run_keeps:
  assumes "client_ok m" "forgets E" "time_works E" "\<forall>(t, op) \<in> set ops. args_ok op"
  shows "\<exists>ns m'. fuse_run E ops m = Some (ns, m') \<and> length ns = length ops \<and> client_ok m'
    \<and> owed m \<le> owed m' \<and> (\<exists>fs. faults m' = faults m @ fs \<and> set fs \<subseteq> client_faults)
    \<and> length (n_sent m') \<le> length (n_sent m) + length ops"
  using assms(1,4)
proof (induction ops arbitrary: m)
  case Nil
  then show ?case by (auto intro!: exI [of _ "[]"])
next
  case (Cons x ops)
  obtain t op where x: "x = (t, op)" by fastforce
  from fuse_call_keeps [OF Cons.prems(1) assms(2,3), of op t] Cons.prems(2) x obtain n m1
    where c: "fuse_call E t op m = Some (n, m1)" and l: "leaves False client_faults 0 UNIV m m1"
    by (auto simp: keeps_contract_def)
  have "client_ok m1" using l by (simp add: leaves_def)
  from Cons.IH [OF this] Cons.prems(2) obtain ns m' where
    r: "fuse_run E ops m1 = Some (ns, m')" "length ns = length ops" "client_ok m'" "owed m1 \<le> owed m'"
      "\<exists>fs. faults m' = faults m1 @ fs \<and> set fs \<subseteq> client_faults"
      "length (n_sent m') \<le> length (n_sent m1) + length ops" by auto
  have "length (n_sent m1) \<le> length (n_sent m) + 1" "owed m \<le> owed m1"
    "\<exists>fs. faults m1 = faults m @ fs \<and> set fs \<subseteq> client_faults"
    using l by (auto simp: leaves_def)
  with c r x show ?case
    by (intro exI [of _ "n # ns"] exI [of _ m']) force
qed

lemma Rhizofs_init_ok:
  assumes "Rhizofs_init E True m = (Some ctx, m')" "n_sockets m = Map.empty" "timeout_ok m"
    and "\<forall>k \<in> set_option (se_server_public_key (cl_settings m)) \<union> set_option (se_client_public_key (cl_settings m))
       \<union> set_option (se_client_secret_key (cl_settings m)). 39 \<le> length k"
  shows "client_ok m' \<and> cache_map (cl_cache m') = Map.empty \<and> n_sent m' = n_sent m \<and> cl_received m' = cl_received m
    \<and> live m' = live m + 4 \<and> faults m' = faults m"
proof -
  obtain m1 where p: "RhizoPriv_create E m = (Some ctx, m1)" "live m1 = live m + 1" "faults m1 = faults m"
      "n_sockets m1 = Map.empty" "n_sent m1 = n_sent m" "cl_settings m1 = cl_settings m" "cl_received m1 = cl_received m"
    using assms(1,2)
    by (auto simp: Rhizofs_init_def RhizoPriv_create_def Let_def net_simps heap_simps
        split: if_splits sum.splits option.splits prod.splits)
  obtain name where name: "se_host_socket (cl_settings m) = Some name"
    using assms(1) p(1,6) by (auto simp: Rhizofs_init_def split: option.splits)
  obtain made sp m2 where i: "SocketPool_init E ctx name ZMQ_REQ m1 = (made, sp, m2)" by (metis prod_cases3)
  define se where "se = cl_settings m"
  define keys where "keys = (case (se_client_public_key se, se_client_secret_key se) of
      (Some a, Some b) \<Rightarrow> Some (a, b) | _ \<Rightarrow> None)"
  define sp1 where "sp1 = keyed_pool (se_server_public_key se) keys sp"
  have made and i2: "live m2 = live m1 + 1" "faults m2 = faults m1" "n_sockets m2 = n_sockets m1"
    "n_sent m2 = n_sent m1" "cl_settings m2 = cl_settings m1" "cl_received m2 = cl_received m1"
    using assms(1) p i name
    by (auto simp: Rhizofs_init_def SocketPool_init_def Let_def net_simps heap_simps zero_pool_def
        free_socket_name_def split: if_splits sum.splits prod.splits)
  let ?m4 = "m2\<lparr>cl_pool := sp1\<rparr>"
  obtain cache h where c: "AttrCache_init ATTRCACHE_MAXSIZE ATTRCACHE_DEFAULT_MAXAGE_SEC True ?m4 = (Some cache, h)"
    and m': "m' = h\<lparr>cl_cache := cache\<rparr>"
    using assms(1) p(1,6) i name \<open>made\<close> i2
    by (auto simp: Rhizofs_init_def Let_def sp1_def keys_def se_def split: option.splits prod.splits)
  note C = AttrCache_init_ok [OF c]
  have more: "heap.more h = heap.more ?m4"
    using c by (auto simp: AttrCache_init_def hash_create_def only_heap split: if_splits option.splits prod.splits)
  note H = cl_heap [OF more]
  obtain key where sp: "sp = zero_pool\<lparr>sp_socket_name := Some name, sp_socket_type := ZMQ_REQ, sp_context := ctx,
      sp_key := key\<rparr>"
    using i \<open>made\<close> by (auto simp: SocketPool_init_def Let_def split: if_splits sum.splits prod.splits)
  have "pool_ok sp1 m' \<and> pool_keys_long sp1"
    using i2(3) p(4) H(3) assms(4)
    by (auto simp: sp1_def sp keyed_pool_def keys_def se_def zero_pool_def pool_ok_def m' pool_keys_long_def
        keys_long_def SocketPool_set_server_public_key_def SocketPool_set_client_keypair_def
        split: option.splits)
  moreover have "cl_pool m' = sp1" using H(6) m' by simp
  ultimately have "client_ok m'"
    using C(1,3) H(8) i2(5) p(6) assms(3) by (simp add: client_ok_def timeout_ok_def m')
  with C(2,6,7) H i2 p(2,3,5-7) show ?thesis by (simp add: m')
qed

section \<open>What the calls ask for\<close>

fun simple_op :: "fuse_op \<Rightarrow> bool" where
  \<comment> \<open>the operations that return nothing but a status\<close>
  "simple_op (Fuse_readdir p) = False"
| "simple_op (Fuse_getattr p sb) = False"
| "simple_op (Fuse_read p n offset) = False"
| "simple_op (Fuse_write p buf offset) = False"
| "simple_op (Fuse_readlink p n) = False"
| "simple_op (Fuse_statfs p) = False"
| "simple_op _ = True"

abbreviation (input) of_mode :: "permissions \<Rightarrow> mode_t \<Rightarrow> bool" where
  \<comment> \<open>the nine permission bits of \<open>mode\<close>\<close>
  "of_mode ps mode \<equiv> Permissions_to_bitmask (Some ps) = Some (mode AND 0x1FF)"

fun asks :: "fuse_op \<Rightarrow> request \<Rightarrow> bool" where
  "asks (Fuse_rmdir p) rq \<longleftrightarrow> rq = new_request\<lparr>rq_path := Some p, rq_type := RMDIR\<rparr>"
| "asks (Fuse_unlink p) rq \<longleftrightarrow> rq = new_request\<lparr>rq_path := Some p, rq_type := UNLINK\<rparr>"
| "asks (Fuse_truncate p offset) rq
     \<longleftrightarrow> rq = new_request\<lparr>rq_path := Some p, rq_offset := Some (int64 offset), rq_type := TRUNCATE\<rparr>"
| "asks (Fuse_link p q) rq \<longleftrightarrow> rq = new_request\<lparr>rq_type := LINK, rq_path := Some p, rq_path_to := Some q\<rparr>"
| "asks (Fuse_rename p q) rq \<longleftrightarrow> rq = new_request\<lparr>rq_type := RENAME, rq_path := Some p, rq_path_to := Some q\<rparr>"
| "asks (Fuse_symlink target p) rq
     \<longleftrightarrow> rq = new_request\<lparr>rq_type := SYMLINK, rq_path := Some p, rq_path_to := Some target\<rparr>"
| "asks (Fuse_mkdir p mode) rq \<longleftrightarrow> (\<exists>ps. of_mode ps mode \<and>
     rq = new_request\<lparr>rq_type := MKDIR, rq_path := Some p, rq_permissions := Some ps\<rparr>)"
| "asks (Fuse_access p mode) rq \<longleftrightarrow> (\<exists>ps. of_mode ps mode \<and>
     rq = new_request\<lparr>rq_path := Some p, rq_type := ACCESS, rq_permissions := Some ps\<rparr>)"
| "asks (Fuse_create p mode) rq \<longleftrightarrow> (\<exists>ps. of_mode ps mode \<and>
     rq = new_request\<lparr>rq_type := CREATE, rq_path := Some p, rq_permissions := Some ps\<rparr>)"
| "asks (Fuse_chmod p mode) rq \<longleftrightarrow> (\<exists>ps. of_mode ps mode \<and>
     rq = new_request\<lparr>rq_type := CHMOD, rq_path := Some p, rq_permissions := Some ps\<rparr>)"
| "asks (Fuse_mknod p mode) rq \<longleftrightarrow> (\<exists>ps. of_mode ps mode \<and> S_ISREG mode \<and>
     rq = new_request\<lparr>rq_type := MKNOD, rq_path := Some p, rq_filetype := Some (FileType_from_local mode),
       rq_permissions := Some ps\<rparr>)"
| "asks (Fuse_open p flags) rq \<longleftrightarrow> (\<exists>f. OpenFlags_to_bitmask (Some f) = Some (flags AND 0x6C3) \<and>
     rq = new_request\<lparr>rq_type := OPEN, rq_path := Some p, rq_openflags := Some f\<rparr>)"
| "asks (Fuse_utimens p tv) rq \<longleftrightarrow> (\<exists>ts. times_asked tv ts \<and>
     rq = new_request\<lparr>rq_type := UTIMENS, rq_path := Some p, rq_timestamps := Some ts\<rparr>)"
| "asks op rq \<longleftrightarrow> False"

fun forgotten :: "fuse_op \<Rightarrow> string set" where
  \<comment> \<open>the paths a successful call drops from the cache\<close>
  "forgotten (Fuse_rmdir p) = {p}"
| "forgotten (Fuse_unlink p) = {p}"
| "forgotten (Fuse_truncate p offset) = {p}"
| "forgotten (Fuse_chmod p mode) = {p}"
| "forgotten (Fuse_utimens p tv) = {p}"
| "forgotten (Fuse_rename p q) = {p}"
| "forgotten (Fuse_write p buf offset) = {p}"
| "forgotten op = {}"

definition forget :: "fuse_op \<Rightarrow> (string \<Rightarrow> cache_entry option) \<Rightarrow> string \<Rightarrow> cache_entry option" where
  "forget op c = c |` (- forgotten op)"

lemma forget_simps [simp]:
  "forgotten op = {} \<Longrightarrow> forget op = id" "forgotten op = {p} \<Longrightarrow> forget op = (\<lambda>c. c(p := None))"
  by (auto simp: forget_def restrict_map_def fun_eq_iff)

lemma op_at_mono: "op_at ex F k R Q m res \<Longrightarrow> F \<subseteq> F' \<Longrightarrow> R \<subseteq> R' \<Longrightarrow> (\<And>x m'. Q x m' \<Longrightarrow> Q' x m')
    \<Longrightarrow> op_at ex F' k R' Q' m res"
  using leaves_mono [of ex F k R m _ F' R' ex] by (auto simp: op_at_def)

lemma simple_call:
  assumes "client_ok m" "forgets E" "simple_op op"
  shows "op_at True {Uninitialised_use} 0 (Collect (asks op)) (result_ok (forget op) m) m (fuse_call E t op m)"
proof -
  show ?thesis
    using assms(3)
  proof (cases op)
    case (Fuse_mkdir p mode)
    then show ?thesis by (auto intro!: fs_mkdir.contract [OF TrueI assms(1,2), THEN op_at_mono])
  next
    case (Fuse_rmdir p)
    then show ?thesis by (auto intro!: fs_rmdir.contract [OF TrueI assms(1,2), THEN op_at_mono])
  next
    case (Fuse_unlink p)
    then show ?thesis by (auto intro!: fs_unlink.contract [OF TrueI assms(1,2), THEN op_at_mono])
  next
    case (Fuse_access p mode)
    then show ?thesis by (auto intro!: fs_access.contract [OF TrueI assms(1,2), THEN op_at_mono])
  next
    case (Fuse_open p flags)
    then show ?thesis by (auto intro!: fs_open.contract [OF TrueI assms(1,2), THEN op_at_mono])
  next
    case (Fuse_create p mode)
    then show ?thesis by (auto intro!: fs_create.contract [OF TrueI assms(1,2), THEN op_at_mono])
  next
    case (Fuse_truncate p offset)
    then show ?thesis by (auto intro!: fs_truncate.contract [OF TrueI assms(1,2), THEN op_at_mono])
  next
    case (Fuse_chmod p mode)
    then show ?thesis by (auto intro!: fs_chmod.contract [OF TrueI assms(1,2), THEN op_at_mono])
  next
    case (Fuse_utimens p tv)
    then show ?thesis by (auto intro!: fs_utimens.contract [OF TrueI assms(1,2), THEN op_at_mono])
  next
    case (Fuse_link p q)
    then show ?thesis by (auto intro!: fs_link.contract [OF TrueI assms(1,2), THEN op_at_mono])
  next
    case (Fuse_rename p q)
    then show ?thesis by (auto intro!: fs_rename.contract [OF TrueI assms(1,2), THEN op_at_mono])
  next
    case (Fuse_symlink target p)
    then show ?thesis by (auto intro!: fs_symlink.contract [OF TrueI assms(1,2), THEN op_at_mono])
  next
    case (Fuse_mknod p mode)
    then show ?thesis by (auto intro!: fs_mknod.contract [OF TrueI assms(1,2), THEN op_at_mono])
  next
    case (Fuse_chown p u g)
    then show ?thesis by (auto intro!: fs_chown.contract [OF TrueI assms(1,2), THEN op_at_mono])
  qed simp_all
qed

section \<open>Where cache entries come from\<close>

fun origin :: "'w zmq_env \<Rightarrow> fuse_op \<Rightarrow> string \<Rightarrow> response \<Rightarrow> stat \<Rightarrow> bool" where
  \<comment> \<open>the response gave the call \<open>op\<close> the stat \<open>s\<close> of \<open>q\<close>\<close>
  "origin E (Fuse_getattr p sb) q r s \<longleftrightarrow> Response_get_errno r = 0 \<and> q = p
     \<and> (\<exists>a. rs_attrs r = Some a \<and> presented E a s)"
| "origin E (Fuse_readdir p) q r s \<longleftrightarrow> Response_get_errno r = 0 \<and> listed E p (rs_entries r) q s"
| "origin E _ q r s \<longleftrightarrow> False"

definition cache_news :: "'w zmq_env \<Rightarrow> fuse_op set \<Rightarrow> 'w client \<Rightarrow> 'w client \<Rightarrow> bool" where
  \<comment> \<open>what the cache holds and did not hold before was received by one of the calls\<close>
  "cache_news E ops m m' \<longleftrightarrow> (\<exists>rs. cl_received m' = cl_received m @ rs
     \<and> (\<forall>q e. cache_map (cl_cache m') q = Some e \<longrightarrow> cache_map (cl_cache m) q = Some e
          \<or> (\<exists>op \<in> ops. \<exists>r \<in> set rs. origin E op q r (ce_stat e))))"

lemma cache_news_refl: "cl_received m' = cl_received m \<Longrightarrow> cache_map (cl_cache m') \<subseteq>\<^sub>m cache_map (cl_cache m)
    \<Longrightarrow> cache_news E ops m m'"
  by (auto simp: cache_news_def map_le_def dom_def)

lemma cache_news_trans: "cache_news E ops m m1 \<Longrightarrow> cache_news E ops m1 m2 \<Longrightarrow> cache_news E ops m m2"
  unfolding cache_news_def by (elim exE conjE, rule_tac x = "rs @ rsa" in exI) fastforce

lemma cache_news_mono: "cache_news E ops m m' \<Longrightarrow> ops \<subseteq> ops' \<Longrightarrow> cache_news E ops' m m'"
  unfolding cache_news_def by blast

lemma result_news: "result_ok (forget op) m x m' \<Longrightarrow> cache_news E ops m m'"
  by (auto simp: result_ok_def cache_news_def forget_def restrict_map_def split: if_splits)

lemma data_news: "data_result out g m x m' \<Longrightarrow> cache_news E ops m m'"
  by (auto simp: data_result_def cache_news_def)

lemma write_news: "write_ok p m x m' \<Longrightarrow> cache_news E ops m m'"
  by (auto simp: write_ok_def cache_news_def split: if_splits)

lemma getattr_news:
  assumes "getattr_result E p m x m'"
  shows "cache_news E {Fuse_getattr p sb} m m'"
  using assms unfolding getattr_result_def stat_result_def
proof (elim disjE exE conjE, goal_cases)
  case (3 r)
  show ?case
    unfolding cache_news_def using 3(1,3) by (intro exI [of _ "[r]"]) fastforce
qed (auto intro: cache_news_refl)

lemma readdir_news: "readdir_result E p m x m' \<Longrightarrow> cache_news E {Fuse_readdir p} m m'"
  by (auto simp: readdir_result_def cache_news_def)

lemma fuse_call_news:
  assumes "client_ok m" "forgets E" "time_works E" "args_ok op" "fuse_call E t op m = Some (n, m')"
  shows "cache_news E {op} m m'"
proof (cases "simple_op op")
  case True
  from simple_call [OF assms(1,2) this, of t] assms(5) show ?thesis
    by (auto simp: op_at_def intro: result_news)
next
  case False
  with assms show ?thesis
  proof (cases op)
    case (Fuse_readdir p)
    with assms fs_readdir.contract [OF assms(3,1,2), where path = p and t = t] show ?thesis
      by (auto simp: op_at_def status_def intro: readdir_news)
  next
    case (Fuse_getattr p sb)
    with assms fs_getattr.contract [OF assms(3,1,2), where path = p and t = t and stbuf = sb] show ?thesis
      by (auto simp: op_at_def status_def intro: getattr_news)
  next
    case (Fuse_read p k offset)
    with assms fs_read.contract [OF TrueI assms(1,2), where path = p and n = k and offset = offset and t = t] show ?thesis
      by (auto simp: op_at_def status_def intro: data_news)
  next
    case (Fuse_write p buf offset)
    with assms fs_write.contract [OF _ assms(1,2), where path = p and buf = buf and offset = offset and t = t] show ?thesis
      by (auto simp: op_at_def intro: write_news)
  next
    case (Fuse_readlink p k)
    with assms fs_readlink.contract [OF TrueI assms(1,2), where path = p and len = k and t = t] show ?thesis
      by (auto simp: op_at_def status_def intro: data_news)
  next
    case (Fuse_statfs p)
    with assms fs_statfs.contract [OF TrueI assms(1,2), where path = p and t = t] show ?thesis
      by (auto simp: op_at_def status_def intro: data_news)
  qed simp_all
qed

lemma fuse_run_news:
  assumes "client_ok m" "forgets E" "time_works E" "\<forall>(t, op) \<in> set ops. args_ok op"
    and "fuse_run E ops m = Some (ns, m')"
  shows "cache_news E (snd ` set ops) m m'"
  using assms(1,4,5)
proof (induction ops arbitrary: m ns)
  case Nil
  then show ?case by (simp add: cache_news_refl)
next
  case (Cons x ops)
  obtain t op where x: "x = (t, op)" by fastforce
  obtain n m1 ns1 where c: "fuse_call E t op m = Some (n, m1)" and r: "fuse_run E ops m1 = Some (ns1, m')"
    using Cons.prems(3) x by (auto split: option.splits)
  have a: "args_ok op" using Cons.prems(2) x by simp
  have "client_ok m1"
    using fuse_call_keeps [OF Cons.prems(1) assms(2,3) a, of t] c by (auto simp: keeps_contract_def leaves_def)
  from Cons.IH [OF this _ r] Cons.prems(2) have "cache_news E (snd ` set (x # ops)) m1 m'"
    by (auto intro: cache_news_mono)
  moreover from fuse_call_news [OF Cons.prems(1) assms(2,3) a c] x have "cache_news E (snd ` set (x # ops)) m m1"
    by (auto intro: cache_news_mono)
  ultimately show ?case using cache_news_trans by blast
qed

section \<open>A working system\<close>

text \<open>With memory and a network that works, every simple operation gets its answer.\<close>

definition ready :: "'w client \<Rightarrow> bool" where
  "ready m \<longleftrightarrow> client_ok m \<and> outcomes m = [] \<and> pool_encrypted (cl_pool m)"

definition served :: "response \<Rightarrow> 'w client \<Rightarrow> ('r \<times> 'w client) option \<Rightarrow> bool" where
  \<comment> \<open>a request was sent and the response \<open>r\<close> received\<close>
  "served r m res \<longleftrightarrow> (\<exists>x m'. res = Some (x, m') \<and> cl_received m' = cl_received m @ [r]
     \<and> length (n_sent m') = length (n_sent m) + 1)"

lemma ready_heap: "ready m \<Longrightarrow> heap.more m1 = heap.more m \<Longrightarrow> outcomes m1 = [] \<Longrightarrow> ready m1"
  using cl_heap [of m1 m] client_ok_same [of m m1] by (simp add: ready_def)

lemma served_heap: "served r m1 res \<Longrightarrow> heap.more m1 = heap.more m \<Longrightarrow> served r m res"
  using cl_heap [of m1 m] by (simp add: served_def)

lemma served_init:
  assumes "ready m" "\<And>m1. ready m1 \<Longrightarrow> served r m1 (body new_request m1)"
  shows "served r m (OP_INIT out body m)"
proof -
  have "alloc_ok m" and o: "outcomes (alloc_next m) = []" using assms(1) by (simp_all add: ready_def heap_simps)
  then have "OP_INIT out body m = body new_request (alloc_next m)"
    by (simp add: OP_INIT_def Request_init_def new_request_def)
  with served_heap [OF assms(2) [OF ready_heap [OF assms(1) more_heap(1) o]] more_heap(1)] show ?thesis by simp
qed

lemma served_permissions:
  assumes "ready m" "\<And>p m1. ready m1 \<Longrightarrow> served r m1 (body (rq\<lparr>rq_permissions := Some p\<rparr>) m1)"
  shows "served r m (with_permissions out mode rq body m)"
proof -
  obtain p h where c: "Permissions_create mode m = (Some p, h)" "outcomes h = []"
    using assms(1) by (simp add: Permissions_create_def PermissionSet_create_def Let_def ready_def heap_simps)
  have "heap.more h = heap.more m" using more_Permissions_create [of mode m] c(1) by simp
  from served_heap [OF assms(2) [OF ready_heap [OF assms(1) this c(2)]] this] c(1) show ?thesis
    by (simp add: with_permissions_def)
qed

lemma served_communicate:
  assumes "ready m" "forgets E" "answers E r"
    and "\<And>rs m1 x m2. client_ok m1 \<Longrightarrow> outcomes m1 = [] \<Longrightarrow> body rs m1 = (x, m2)
      \<Longrightarrow> cl_received m2 = cl_received m1 \<and> n_sent m2 = n_sent m1"
  shows "served r m (OP_COMMUNICATE E t out rq body m)"
proof (rule communicate_works [of m E r t rq True])
  fix m1 assume m1: "Rhizofs_communicate E t rq None True m
      = Some (Some (Response_from_message r), Response_get_errno r, m1)"
    "exchanged rq (response_blocks (Response_from_message r)) m m1" "cl_received m1 = cl_received m @ [r]"
    "\<exists>s. n_sent m1 = n_sent m @ [(s, rq)]" "outcomes m1 = []"
  have "client_ok m1" using m1(2) by (simp add: exchanged_def)
  then show ?thesis
    using m1(1,3,4,5) assms(4) [of m1 "Response_from_message r"]
    by (cases "body (Response_from_message r) m1")
       (auto simp: served_def OP_COMMUNICATE_def OP_FAIL_def net_simps OP_DEINIT_release)
qed (use assms in \<open>simp_all add: ready_def\<close>)

lemma served_done: "ready m \<Longrightarrow> forgets E \<Longrightarrow> answers E r \<Longrightarrow> served r m (OP_COMMUNICATE E t out rq (op_done rq) m)"
  by (rule served_communicate) (auto simp: op_done_def net_simps OP_DEINIT_release)

lemma served_uncached:
  "ready m \<Longrightarrow> forgets E \<Longrightarrow> answers E r \<Longrightarrow> served r m (OP_COMMUNICATE E t out rq (op_done_uncached path rq) m)"
  by (rule served_communicate) (auto simp: op_done_uncached_def op_done_def net_simps cache_remove_ok OP_DEINIT_release)

lemma served_body_fail:
  "OP_FAIL out e rq rs m1 = (x, m2) \<Longrightarrow> cl_received m2 = cl_received m1 \<and> n_sent m2 = n_sent m1"
  by (auto simp: OP_FAIL_def net_simps)

lemma served_getattr:
  assumes "ready m" "forgets E" "time_works E" "answers E r" "cache_map (cl_cache m) p = None"
  shows "served r m (Rhizofs_getattr E t p sb m)"
proof -
  have ok: "client_ok m" "cache_ok (cl_cache m)" using assms(1) by (simp_all add: ready_def client_ok_def)
  have "AttrCache_get (z_time E (n_world m)) (cl_cache m) (Some p) m = (None, cl_cache m, m)"
    by (rule AttrCache_get_cases [OF ok(2), of p "z_time E (n_world m)" m]) (use assms(5) in auto)
  then have "Rhizofs_getattr E t p sb m = Rhizofs_getattr_remote E t p sb m"
    by (simp add: Rhizofs_getattr_def AttrCache_copy_stat_get [OF ok(2)])
  moreover have op: "Rhizofs_getattr_remote E t p sb = OP_INIT (\<lambda>n. (n, sb)) (\<lambda>request.
      let request = request\<lparr>rq_path := Some p, rq_type := GETATTR\<rparr> in
      OP_COMMUNICATE E t (\<lambda>n. (n, sb)) request (getattr_body E p sb request))"
    unfolding Rhizofs_getattr_remote_def getattr_body_def [abs_def] ..
  moreover have body: "cl_received m2 = cl_received m1 \<and> n_sent m2 = n_sent m1"
    if "client_ok m1" "getattr_body E p sb rq rs m1 = (x, m2)" for rq rs x m1 m2
    using getattr_body_ok [OF that(1) assms(3) insertI1 [of Null_deref "{}"] that(2)] by (simp add: grown_def)
  moreover have "served r m (Rhizofs_getattr_remote E t p sb m)"
    unfolding op
  proof (rule served_init [OF assms(1)])
    fix m1 :: "'a client" assume r: "ready m1"
    show "served r m1 ((let request = new_request\<lparr>rq_path := Some p, rq_type := GETATTR\<rparr> in
        OP_COMMUNICATE E t (\<lambda>n. (n, sb)) request (getattr_body E p sb request)) m1)"
      unfolding Let_def by (rule served_communicate [OF r assms(2,4)]) (rule body)
  qed
  ultimately show ?thesis by simp
qed

lemma served_read:
  assumes "ready m" "forgets E" "answers E r"
  shows "served r m (Rhizofs_read E t p n offset m)"
  unfolding Rhizofs_read_def Let_def
proof (intro served_init served_communicate, goal_cases)
  case (5 m1 rs m2 x m3)
  have g: "cl_received h = cl_received m2 \<and> n_sent h = n_sent m2"
    if "DataBlock_get_data_noalloc d n m2 = (res, h)" for d res h
    using cl_heap(5,9) [OF more_get_data [of d n m2]] that by simp
  show ?case
    using 5(4) by (auto dest!: served_body_fail g simp: net_simps split: option.splits if_splits prod.splits)
qed (use assms in simp_all)

lemma set_small:
  fixes m :: "'w client"
  assumes "outcomes m = []" "buf \<noteq> []" "length buf \<le> 100" "rq_datablock rq = None"
  shows "Request_set_data rq buf m = (True, rq\<lparr>rq_datablock := Some \<lparr>db_size = int (length buf),
    db_data = buf, db_compression = COMPR_NONE\<rparr>\<rparr>, alloc_next (alloc_next m))"
  using assms by (simp add: Request_set_data_def DataBlock_create_def DataBlock_set_data_def set_plain_data_def heap_simps)

lemma write_small_sent:
  assumes "ready m" "forgets E" "answers E r" "buf \<noteq> []" "length buf \<le> 100"
  shows "\<exists>k m' s. Rhizofs_write E t p buf offset m = Some (k, m') \<and> cl_received m' = cl_received m @ [r]
    \<and> n_sent m' = n_sent m @ [(s, write_request p buf offset\<lparr>rq_datablock := Some \<lparr>db_size = int (length buf),
        db_data = buf, db_compression = COMPR_NONE\<rparr>\<rparr>)]"
proof -
  let ?rq = "write_request p buf offset"
  let ?rq1 = "?rq\<lparr>rq_datablock := Some \<lparr>db_size = int (length buf), db_data = buf, db_compression = COMPR_NONE\<rparr>\<rparr>"
  let ?m1 = "alloc_next (alloc_next (alloc_next m))"
  have o: "outcomes m = []" using assms(1) by (simp add: ready_def)
  have d: "Request_set_data ?rq buf (alloc_next m) = (True, ?rq1, ?m1)"
    by (rule set_small) (use o assms(4,5) in \<open>simp_all add: heap_simps\<close>)
  have op: "Rhizofs_write E t p buf offset m = OP_COMMUNICATE E t id ?rq1 (write_body p ?rq1) ?m1"
    using o by (simp add: Rhizofs_write_def OP_INIT_def Request_init_def heap_simps Let_def
        new_request_def [symmetric] d write_body_def [abs_def])
  have more: "heap.more ?m1 = heap.more m" by (simp add: more_heap)
  have r: "ready ?m1" by (rule ready_heap [OF assms(1) more]) (use o in \<open>simp add: heap_simps\<close>)
  note H = cl_heap [OF more]
  show ?thesis
  proof (rule communicate_works [of ?m1 E r t ?rq1 True], goal_cases)
    case (6 m2)
    have ok: "client_ok m2" using 6(2) by (simp add: exchanged_def)
    obtain k m3 where b: "write_body p ?rq1 (Response_from_message r) m2 = (k, m3)" by fastforce
    have c: "cl_received m3 = cl_received m2 \<and> n_sent m3 = n_sent m2"
      using b cache_remove_ok(3,4) [OF ok, of p]
      by (auto simp: write_body_def Let_def net_simps dest!: served_body_fail split: option.splits)
    show ?case
      unfolding op using 6(1,3,4) b c H
      by (auto simp: OP_COMMUNICATE_def OP_FAIL_def net_simps)
  qed (use r assms in \<open>simp_all add: ready_def\<close>)
qed

fun refused_locally :: "fuse_op \<Rightarrow> bool" where
  \<comment> \<open>calls that fail without a request\<close>
  "refused_locally (Fuse_chown p u g) = True"
| "refused_locally (Fuse_mknod p mode) = (\<not> S_ISREG mode)"
| "refused_locally _ = False"

lemma simple_served:
  assumes "ready m" "forgets E" "answers E r" "simple_op op" "\<not> refused_locally op"
  shows "served r m (fuse_call E t op m)"
proof -
  show ?thesis
    using assms(4,5)
  proof (cases op)
    case (Fuse_open p flags)
    have "served r m (Rhizofs_open E t p flags m)"
      unfolding Rhizofs_open_def
    proof (rule served_init [OF assms(1)])
      fix m1 :: "'a client" assume m1: "ready m1"
      obtain f where f: "OpenFlags_from_bitmask flags m1 = (Some f, alloc_next m1)"
        using m1 by (simp add: OpenFlags_from_bitmask_def ready_def heap_simps)
      have "ready (alloc_next m1)"
        by (rule ready_heap [OF m1 more_heap(1)]) (use m1 in \<open>simp add: ready_def heap_simps\<close>)
      note served_heap [OF served_done [OF this assms(2,3)] more_heap(1)]
      with f
      show "served r m1 (let request = new_request\<lparr>rq_type := OPEN, rq_path := Some p\<rparr> in
         case OpenFlags_from_bitmask flags m1 of
         (None, m1) \<Rightarrow> Some (OP_FAIL id EIO request None m1)
       | (Some f, m1) \<Rightarrow> (let request = request\<lparr>rq_openflags := Some f\<rparr> in OP_COMMUNICATE E t id request (op_done request) m1))"
        by (simp add: Let_def)
    qed
    with Fuse_open show ?thesis by simp
  next
    case (Fuse_utimens p tv)
    have "served r m (Rhizofs_utimens E t p tv m)"
      unfolding Rhizofs_utimens_def
    proof (rule served_init [OF assms(1)])
      fix m1 :: "'a client" assume m1: "ready m1"
      obtain ts where f: "TimeSet_create m1 = (Some ts, alloc_next m1)"
        using m1 by (simp add: TimeSet_create_def ready_def heap_simps)
      have "ready (alloc_next m1)"
        by (rule ready_heap [OF m1 more_heap(1)]) (use m1 in \<open>simp add: ready_def heap_simps\<close>)
      note served_heap [OF served_uncached [OF this assms(2,3)] more_heap(1)]
      with f
      show "served r m1 (let request = new_request\<lparr>rq_type := UTIMENS, rq_path := Some p\<rparr> in
         case TimeSet_create m1 of
         (None, m1) \<Rightarrow> Some (OP_FAIL id EIO request None m1)
       | (Some ts, m1) \<Rightarrow> (let request = request\<lparr>rq_timestamps := Some (utimens_times E tv m1 ts)\<rparr> in
            OP_COMMUNICATE E t id request (op_done_uncached p request) m1))"
        by (simp add: Let_def)
    qed
    with Fuse_utimens show ?thesis by simp
  qed (use assms(1-3) in \<open>auto simp: Rhizofs_mkdir_def Rhizofs_rmdir_def Rhizofs_unlink_def Rhizofs_access_def
      Rhizofs_create_def Rhizofs_truncate_def Rhizofs_chmod_def Rhizofs_link_def Rhizofs_rename_def
      Rhizofs_symlink_def Rhizofs_mknod_def Let_def
      intro!: served_init served_permissions served_done served_uncached\<close>)
qed

lemma working_call:
  assumes "ready m" "forgets E" "answers E r" "simple_op op" "\<not> refused_locally op"
  shows "\<exists>m' s rq. fuse_call E t op m = Some (- Response_get_errno r, m')
    \<and> n_sent m' = n_sent m @ [(s, rq)] \<and> asks op rq \<and> cl_received m' = cl_received m @ [r]"
proof -
  have ok: "client_ok m" using assms(1) by (simp add: ready_def)
  from simple_served [OF assms, of t] obtain n m' where
    s: "fuse_call E t op m = Some (n, m')" "cl_received m' = cl_received m @ [r]"
      "length (n_sent m') = length (n_sent m) + 1" by (auto simp: served_def)
  with simple_call [OF ok assms(2,4), of t] show ?thesis
    by (auto simp: op_at_def leaves_def result_ok_def)
qed

section \<open>Properties\<close>

definition mountable :: "'w client \<Rightarrow> bool" where
  \<comment> \<open>nothing is open yet, the timeout is one the counter can reach, the keys are complete\<close>
  "mountable m \<longleftrightarrow> n_sockets m = Map.empty \<and> timeout_ok m
     \<and> (\<forall>k \<in> set_option (se_server_public_key (cl_settings m)) \<union> set_option (se_client_public_key (cl_settings m))
          \<union> set_option (se_client_secret_key (cl_settings m)). 39 \<le> length k)"

lemma init_mounts:
  assumes "mountable m" "Rhizofs_init E True m = (Some ctx, m0)"
  shows "client_ok m0 \<and> cache_map (cl_cache m0) = Map.empty \<and> n_sent m0 = n_sent m \<and> cl_received m0 = cl_received m
    \<and> live m0 = live m + 4 \<and> faults m0 = faults m"
  using Rhizofs_init_ok [OF assms(2)] assms(1) by (simp add: mountable_def)

text \<open>A system in which every call succeeds and every request is answered by \<open>r\<close>.\<close>

definition answering :: "response \<Rightarrow> unit zmq_env" where
  "answering r = quiet_zmq\<lparr>z_call := (\<lambda>c w. (Inr (case c of Z_filler _ \<Rightarrow> 0 | _ \<Rightarrow> 1), w)),
     z_recv := (\<lambda>_ w. (Inr (Some r), w))\<rparr>"

lemma answering_works [simp]: "answers (answering r) r" "forgets (answering r)" "time_works (answering r)"
  by (auto simp: answers_def forgets_def time_works_def answering_def quiet_zmq_def failed_def split: zcall.split)

definition demo_mount :: "unit client" where
  "demo_mount = (demo_net 30)\<lparr>n_sockets := Map.empty,
     cl_settings := Rhizofs_settings_init\<lparr>se_host_socket := Some ''tcp://h''\<rparr>\<rparr>"

lemma demo_mountable: "mountable demo_mount"
  by (simp add: mountable_def demo_mount_def demo_net_def Rhizofs_settings_init_def timeout_ok_def)

lemma demo_init:
  obtains m0 where "Rhizofs_init (answering r) True demo_mount = (Some 1, m0)" "ready m0"
    "cache_map (cl_cache m0) = Map.empty" "cl_received m0 = []" "n_sent m0 = []" "faults m0 = []"
proof -
  have ret: "z_ret (answering r) c m = Inr (case c of Z_filler _ \<Rightarrow> 0 | _ \<Rightarrow> 1)" "z_next (answering r) c m = m"
    for c and m :: "unit client"
    by (simp_all add: z_ret_def z_next_def answering_def split: zcall.split)
  obtain m0 where i: "Rhizofs_init (answering r) True demo_mount = (Some 1, m0)" "outcomes m0 = []"
    "pool_encrypted (cl_pool m0)"
    by (simp add: Rhizofs_init_def RhizoPriv_create_def SocketPool_init_def AttrCache_init_def hash_create_def
        demo_mount_def demo_net_def Rhizofs_settings_init_def Let_def heap_simps ret alloc_next_def
        zero_pool_def keyed_pool_def pool_encrypted_def)
  from init_mounts [OF demo_mountable i(1)] i that show thesis
    by (simp add: ready_def demo_mount_def demo_net_def)
qed



text \<open>
  C22: the calls that only return a status (\<open>mkdir\<close>, \<open>rmdir\<close>, \<open>unlink\<close>, \<open>access\<close>, \<open>open\<close>,
  \<open>create\<close>, \<open>truncate\<close>, \<open>chmod\<close>, \<open>utimens\<close>, \<open>link\<close>, \<open>rename\<close>, \<open>symlink\<close>, \<open>mknod\<close>,
  \<open>chown\<close>) send at most one request, which says exactly what was asked. If it is answered, the result
  is the negated error number of the response and on success the path the call changes (for
  \<open>rename\<close> only the old one) is dropped from the cache; if not, the cache is as before, and the
  result is only 0 when nothing was sent.
\<close>

theorem simple_operation_result:
  assumes "client_ok m" "forgets E" "simple_op op"
  shows "\<exists>n m'. fuse_call E t op m = Some (n, m')
    \<and> (n_sent m' = n_sent m \<or> (\<exists>s rq. n_sent m' = n_sent m @ [(s, rq)] \<and> asks op rq))
    \<and> (if cl_received m' = cl_received m
       then cache_map (cl_cache m') = cache_map (cl_cache m) \<and> (n = 0 \<longrightarrow> n_sent m' = n_sent m)
       else \<exists>r. cl_received m' = cl_received m @ [r] \<and> n = - Response_get_errno r
         \<and> cache_map (cl_cache m') = (if n = 0 then cache_map (cl_cache m) |` (- forgotten op) else cache_map (cl_cache m)))"
proof -
  from simple_call [OF assms, of t] obtain n m' where c: "fuse_call E t op m = Some (n, m')"
    "leaves True {Uninitialised_use} 0 (Collect (asks op)) m m'" "result_ok (forget op) m n m'"
    by (auto simp: op_at_def)
  then show ?thesis by (intro exI [of _ n] exI [of _ m']) (auto simp: leaves_def result_ok_def forget_def)
qed

theorem simple_operation_result_witness:
  "\<exists>m0 n m'. Rhizofs_init (answering empty_response) True demo_mount = (Some 1, m0)
     \<and> fuse_call (answering empty_response) 1 (Fuse_rename ''/a'' ''/b'') m0 = Some (n, m')
     \<and> (n_sent m' \<noteq> [] \<longrightarrow> (\<exists>s. n_sent m' = [(s, new_request\<lparr>rq_type := RENAME, rq_path := Some ''/a'',
          rq_path_to := Some ''/b''\<rparr>)]))"
proof -
  obtain m0 where i: "Rhizofs_init (answering empty_response) True demo_mount = (Some 1, m0)" "ready m0" "n_sent m0 = []"
    by (rule demo_init)
  then have "client_ok m0" by (simp add: ready_def)
  from simple_operation_result [OF this answering_works(2), of "Fuse_rename ''/a'' ''/b''" empty_response 1] i show ?thesis
    by (auto simp del: One_nat_def)
qed

text \<open>
  C23: with memory and a network that works, each of these calls is answered: its request goes out,
  exactly once, the response is received and the caller gets its error number (0 for success).
\<close>

theorem working_mount_answers:
  assumes "ready m" "forgets E" "answers E r" "simple_op op" "\<not> refused_locally op"
  shows "\<exists>m' s rq. fuse_call E t op m = Some (- Response_get_errno r, m')
    \<and> n_sent m' = n_sent m @ [(s, rq)] \<and> asks op rq \<and> cl_received m' = cl_received m @ [r]"
  using working_call [OF assms] .

theorem working_mount_answers_witness:
  "\<exists>m0 m' s rq. Rhizofs_init (answering (empty_response\<lparr>rs_errnotype := ERRNO_NOENT\<rparr>)) True demo_mount = (Some 1, m0)
     \<and> fuse_call (answering (empty_response\<lparr>rs_errnotype := ERRNO_NOENT\<rparr>)) 1 (Fuse_rmdir ''/d'') m0 = Some (- 2, m')
     \<and> n_sent m' = [(s, rq)] \<and> rq_path rq = Some ''/d''"
proof -
  let ?r = "empty_response\<lparr>rs_errnotype := ERRNO_NOENT\<rparr>"
  obtain m0 where i: "Rhizofs_init (answering ?r) True demo_mount = (Some 1, m0)" "ready m0" "n_sent m0 = []"
    by (rule demo_init)
  have "Response_get_errno ?r = 2" by (simp add: Response_get_errno_def Errno_to_local_def errno_map_def)
  with working_mount_answers [OF i(2) answering_works(2,1), of "Fuse_rmdir ''/d''" ?r 1] i show ?thesis
    by auto
qed



text \<open>
  Unmounting frees the socket name twice: \<open>Rhizofs_destroy\<close> deinitialises the pool and then
  \<open>RhizoPriv_destroy\<close> does it again, while the pointer is still there. Apart from that all blocks
  of the mount are freed, but the sockets of the threads stay open.
\<close>

lemma unmount_double_free:
  assumes "client_ok m"
  shows "faults (Rhizofs_destroy (Some ctx) m) = faults m @ [Double_free]
    \<and> live (Rhizofs_destroy (Some ctx) m) = owed m - 4
    \<and> n_sockets (Rhizofs_destroy (Some ctx) m) = n_sockets m"
proof -
  have C: "cache_ok (cl_cache m)" "sp_socket_name (cl_pool m) \<noteq> None" "\<not> sp_name_freed (cl_pool m)"
    using assms by (simp_all add: client_ok_def pool_ok_def)
  have H: "hash_ok (ac_table (cl_cache m))" "hash_node_blocks (ac_table (cl_cache m)) = 3"
    using C(1) by (simp_all add: cache_ok_def hash_bounded_def)
  obtain sp m1 where d: "SocketPool_deinit (cl_pool m) m = (sp, m1)" "m1 = release 1 m"
    "sp_socket_name sp = sp_socket_name (cl_pool m)" "sp_name_freed sp"
    using C by (simp add: SocketPool_deinit_def free_socket_name_def Let_def)
  obtain H' where f: "hash_free_nodes (ac_table (cl_cache m)) (m1\<lparr>cl_pool := sp\<rparr>)
      = Some (H', release (int (length (hash_nodes (ac_table (cl_cache m)))) * 3) (m1\<lparr>cl_pool := sp\<rparr>))"
    by (rule hash_free_nodes_ok [OF H(1), of "m1\<lparr>cl_pool := sp\<rparr>"]) (simp add: H(2))
  have n: "cache_size (cl_cache m) = length (hash_nodes (ac_table (cl_cache m)))"
    using H(1) by (simp add: cache_size_def hash_count_def hash_ok_def nodes_ok_def)
  let ?m2 = "m1\<lparr>cl_pool := sp\<rparr>"
  have p: "pool_deinit m = ?m2" "cl_cache ?m2 = cl_cache m"
    by (simp_all add: pool_deinit_def d(1)) (simp add: d(2) net_simps)
  let ?m3 = "release 2 (release (int (length (hash_nodes (ac_table (cl_cache m)))) * 3) ?m2)"
  have c: "AttrCache_deinit (cl_cache ?m2) ?m2 = ?m3"
    unfolding p(2) by (simp add: AttrCache_deinit_def f hash_destroy_def)
  obtain sp' where s: "SocketPool_deinit sp h = (sp', add_fault Double_free h)" for h :: "'a client"
    using d(3,4) C(2) by (simp add: SocketPool_deinit_def free_socket_name_def Let_def)
  have "Rhizofs_destroy (Some ctx) m = release 1 ((add_fault Double_free ?m3)\<lparr>cl_pool := sp'\<rparr>)"
    unfolding Rhizofs_destroy_def RhizoPriv_destroy_def p(1) Let_def c
    by (simp add: pool_deinit_def net_simps s)
  then show ?thesis by (simp add: d(2) net_simps heap_simps owed_def n)
qed

lemma unmount_double_free_witness:
  "\<exists>m0. Rhizofs_init (answering empty_response) True demo_mount = (Some 1, m0)
     \<and> faults (Rhizofs_destroy (Some 1) m0) = [Double_free]"
proof -
  obtain m0 where i: "Rhizofs_init (answering empty_response) True demo_mount = (Some 1, m0)" "ready m0" "faults m0 = []"
    by (rule demo_init)
  then have "client_ok m0" by (simp add: ready_def)
  from unmount_double_free [OF this, of 1] i show ?thesis by auto
qed

lemma getattr_hit:
  assumes "client_ok m" "cache_map (cl_cache m) q = Some e" "fresh_entry (z_time E (n_world m)) (cl_cache m) e"
  shows "\<exists>m'. Rhizofs_getattr E t q sb m = Some ((0, ce_stat e), m') \<and> n_sent m' = n_sent m"
proof -
  have C: "cache_ok (cl_cache m)" using assms(1) by (simp add: client_ok_def)
  have "AttrCache_get (z_time E (n_world m)) (cl_cache m) (Some q) m = (Some e, cl_cache m, m)"
    by (rule AttrCache_get_cases [OF C, of q "z_time E (n_world m)" m]) (use assms(2,3) in auto)
  then have "AttrCache_copy_stat (z_time E (n_world m)) (cl_cache m) (Some q) m = (Some (ce_stat e), cl_cache m, m)"
    by (simp add: AttrCache_copy_stat_get [OF C])
  then show ?thesis by (simp add: Rhizofs_getattr_def Let_def)
qed

lemma set_stored:
  assumes "outcomes h = []"
  shows "fst (AttrCache_set now c p (Some e) h)" "outcomes (snd (snd (AttrCache_set now c p (Some e) h))) = []"
proof -
  have s: "outcomes (snd (snd (AttrCache_shrink now c h))) = []"
    using assms by (simp add: AttrCache_shrink_def Let_def heap_simps case_prod_beta split: option.split)
  have d: "outcomes (snd (cache_delete n c h)) = []" if "outcomes h = []" for n c and h :: "'b heap_scheme"
    using that by (simp add: cache_delete_def hash_delete_free_def Let_def heap_simps split: option.split)
  have i: "fst (hash_alloc_insert p e H h)" "outcomes (snd (snd (hash_alloc_insert p e H h))) = []"
    if "outcomes h = []" for H and h :: "'b heap_scheme"
    using that by (simp_all add: hash_alloc_insert_def Let_def heap_simps)
  show "fst (AttrCache_set now c p (Some e) h)" "outcomes (snd (snd (AttrCache_set now c p (Some e) h))) = []"
    using assms s by (auto simp: AttrCache_set_def Let_def case_prod_beta d i split: option.split)
qed

text \<open>
  C37: renaming over a path whose attributes are cached leaves them there: after a successful
  \<open>rename(p, q)\<close> a \<open>getattr\<close> of \<open>q\<close> is answered from the cache, without asking the server, with the
  attributes of the file that \<open>q\<close> named before, for as long as the entry is fresh.
\<close>

theorem rename_keeps_stale_target:
  assumes "client_ok m" "forgets E" "cache_map (cl_cache m) q = Some e" "q \<noteq> p"
    and "fuse_call E t (Fuse_rename p q) m = Some (0, m1)" "fresh_entry (z_time E (n_world m1)) (cl_cache m1) e"
  shows "\<exists>m2. Rhizofs_getattr E t' q sb m1 = Some ((0, ce_stat e), m2) \<and> n_sent m2 = n_sent m1"
proof (rule getattr_hit [OF _ _ assms(6)])
  from simple_call [OF assms(1,2), of "Fuse_rename p q" t] assms(5)
  have "leaves True {Uninitialised_use} 0 (Collect (asks (Fuse_rename p q))) m m1"
    "result_ok (forget (Fuse_rename p q)) m 0 m1" by (simp_all add: op_at_def)
  then show "client_ok m1" "cache_map (cl_cache m1) q = Some e"
    using assms(3,4) by (auto simp: leaves_def result_ok_def forget_def)
qed

theorem rename_keeps_stale_target_witness:
  "\<exists>m m1 m2. cache_map (cl_cache m) ''/b'' = Some sample_entry
     \<and> fuse_call (answering empty_response) 1 (Fuse_rename ''/a'' ''/b'') m = Some (0, m1)
     \<and> Rhizofs_getattr (answering empty_response) 1 ''/b'' zero_stat m1 = Some ((0, ce_stat sample_entry), m2)"
proof -
  let ?E = "answering empty_response"
  obtain m0 where i: "Rhizofs_init ?E True demo_mount = (Some 1, m0)" and m0: "ready m0"
    by (rule demo_init)
  obtain r m where s: "cache_set ?E ''/b'' sample_entry m0 = (r, m)" by fastforce
  have o: "r" "outcomes m = []"
    using set_stored [of m0 "z_time ?E (n_world m0)" "cl_cache m0" "''/b''" sample_entry] m0 s
    by (auto simp: cache_set_def ready_def split: prod.splits)
  have ok: "client_ok m0" using m0 by (simp add: ready_def)
  note S = cache_set_ok [OF ok answering_works(3) s]
  have c: "client_ok m" using S(1) by (simp add: leaves_def)
  have "heap.more (snd (snd (AttrCache_set (z_time ?E (n_world m0)) (cl_cache m0) ''/b'' (Some sample_entry) m0))) = heap.more m0"
    by (rule more_set)
  from cl_heap(6) [OF this] s have "cl_pool m = cl_pool m0" by (auto simp: cache_set_def split: prod.splits)
  then have "ready m" using m0 c o by (simp add: ready_def)
  from working_call [OF this answering_works(2,1), of "Fuse_rename ''/a'' ''/b''" empty_response 1]
  obtain m1 where r: "fuse_call ?E 1 (Fuse_rename ''/a'' ''/b'') m = Some (0, m1)"
    by (auto simp: Response_get_errno_def empty_response_def)
  have e: "cache_map (cl_cache m) ''/b'' = Some sample_entry" using S(6) o(1) .
  have "fresh_entry (z_time ?E (n_world m1)) (cl_cache m1) sample_entry"
    by (simp add: fresh_entry_def AttrCache_entry_is_deprecated_def answering_def quiet_zmq_def sample_entry_def)
  from rename_keeps_stale_target [OF c answering_works(2) e _ r this, of 1 zero_stat] e r show ?thesis by auto
qed

text \<open>
  A request that is lost for want of memory is reported as done: when the buffer for the packed
  request cannot be allocated, \<open>Rhizofs_unlink\<close> sends nothing and returns 0, because the failed check
  has reset \<^verbatim>\<open>errno\<close> before \<open>Rhizofs_communicate\<close> takes it for the error.
\<close>

theorem unpacked_request_reported_done:
  assumes "client_ok m" "forgets E" "sp_specific (cl_pool m) t = Some s" "outcomes m = [True, False]"
    and "\<forall>w. \<not> failed (fst (z_call E Z_msg_close w))"
  shows "\<exists>m'. fuse_call E t (Fuse_unlink p) m = Some (0, m') \<and> n_sent m' = n_sent m
    \<and> cl_received m' = cl_received m"
proof -
  let ?rq = "new_request\<lparr>rq_path := Some p, rq_type := UNLINK\<rparr>"
  have pool: "cl_pool (alloc_next m) = cl_pool m" using cl_heap(6) [OF more_heap(1)] .
  have a: "alloc_ok m" "\<not> alloc_ok (alloc_next m)" using assms(4) by (simp_all add: alloc_ok_def alloc_next_def)
  let ?m1 = "(alloc_next m)\<lparr>cl_pool := cl_pool m\<rparr>"
  let ?m3 = "z_next E Z_msg_close (reset_errno (realloc_next ?m1))"
  have g: "SocketPool_get_socket E t (cl_pool (alloc_next m)) (alloc_next m) = (Some s, cl_pool m, alloc_next m)"
    using assms(3) by (simp add: SocketPool_get_socket_def pool)
  have P: "Request_pack ?rq ?m1 = (None, realloc_next ?m1)"
    using assms(4) by (simp add: Request_pack_def alloc_ok_def alloc_next_def)
  have e: "n_errno ?m3 = 0"
    using assms(5) by (auto simp: z_next_def reset_errno_def failed_def split: sum.splits)
  define m1 where "m1 = communicate_error E t None False False (reset_errno ?m3)"
  have c: "Rhizofs_communicate E t ?rq None True (alloc_next m) = Some (None, 0, m1)"
    by (simp only: Rhizofs_communicate_def g P Let_def prod.case option.case e m1_def)
  have C: "fuse_call E t (Fuse_unlink p) m = Some (OP_FAIL id 0 ?rq None m1)"
    using a by (simp add: Rhizofs_unlink_def OP_INIT_def Request_init_def Let_def OP_COMMUNICATE_def new_request_def [symmetric] c)
  note H = cl_heap [OF more_heap(1) [of m]]
  have ok: "client_ok (alloc_next m)" by (rule client_ok_same [OF assms(1)]) (simp_all add: H)
  have "n_sent m1 = n_sent m \<and> cl_received m1 = cl_received m"
    by (rule communicate_cases [OF ok assms(2), of t ?rq True]) (use c H in auto)
  with C show ?thesis by (simp add: OP_FAIL_def net_simps)
qed

theorem unpacked_request_reported_done_witness:
  "\<exists>m m'. fuse_call (answering empty_response) 1 (Fuse_unlink ''/a'') m = Some (0, m') \<and> n_sent m' = []"
proof -
  let ?E = "answering empty_response"
  obtain m0 where i: "Rhizofs_init ?E True demo_mount = (Some 1, m0)" and m0: "ready m0" "n_sent m0 = []"
    by (rule demo_init)
  have ok: "client_ok m0" "pool_ok (cl_pool m0) m0" using m0(1) by (simp_all add: ready_def client_ok_def)
  from get_socket_works [OF answering_works(1) ok(2), where t = 1 and r = empty_response] m0(1) obtain s sp m1 where
    g: "SocketPool_get_socket ?E 1 (cl_pool m0) m0 = (Some s, sp, m1)"
    by (metis prod.collapse option.exhaust ready_def)
  then have p: "pool_changed m0 (m1\<lparr>cl_pool := sp\<rparr>)"
    by (rule_tac get_socket_in_client [OF ok(1), of ?E 1]) auto
  have sp: "sp_specific sp 1 = Some s"
    by (rule get_socket_cases [OF ok(2), of ?E 1]) (use g in auto)
  define m where "m = m1\<lparr>cl_pool := sp, outcomes := [True, False]\<rparr>"
  have "client_ok m"
    by (rule client_ok_same [of "m1\<lparr>cl_pool := sp\<rparr>"]) (use p in \<open>simp_all add: m_def pool_changed_def\<close>)
  moreover have "sp_specific (cl_pool m) 1 = Some s" "outcomes m = [True, False]" "n_sent m = []"
    using sp p m0(2) by (simp_all add: m_def pool_changed_def)
  moreover have "\<forall>w. \<not> failed (fst (z_call ?E Z_msg_close w))" by (simp add: answering_def failed_def)
  ultimately show ?thesis
    using unpacked_request_reported_done [of m ?E 1 s "''/a''"] by (auto simp del: fuse_call.simps)
qed

end
