(* ===== verification/Rhizo_FuseMain.thy ===== *)
theory Rhizo_FuseMain
  imports Rhizo_Mount
begin

text \<open>
  The client program of \<^verbatim>\<open>src/fs/rhizofs.c\<close> around the mounted file system: the command line, reading
  the keys, the check that the server answers, and the call of libfuse.

  libfuse is the parameter \<open>st_session\<close>: what \<^verbatim>\<open>fuse_main\<close> returns for its arguments, and, if it mounts,
  the calls it makes between \<open>Rhizofs_init\<close> and \<open>Rhizofs_destroy\<close>; and the list \<open>fuse_arg\<close> of the arguments as
  \<^verbatim>\<open>fuse_opt_parse\<close> tells them apart. Files and \<^verbatim>\<open>zmq_curve_keypair\<close> are parameters, too. Memory that
  libfuse allocates is not counted.

  What is proved: the program ends when the calls it makes return; it mounts only after the server has
  answered a ping; a configured server key means encrypted sockets; the connection check leaves nothing
  open or allocated; and the socket name is freed three times.
\<close>

record 'w start_env =
  st_zmq :: "'w zmq_env"
  st_file :: "string \<Rightarrow> 'w \<Rightarrow> string option"
  st_keypair :: "'w \<Rightarrow> (string \<times> string) option \<times> 'w"
  st_session :: "string list \<Rightarrow> 'w \<Rightarrow> int \<times> (nat \<times> fuse_op) list option"
  st_fuse_version :: int

section \<open>The connection check\<close>

definition ping :: "'w zmq_env \<Rightarrow> nat \<Rightarrow> nat \<Rightarrow> request \<Rightarrow> 'w client \<Rightarrow> (bool \<times> 'w client) option" where
  \<comment> \<open>the version of the response is printed\<close>
  "ping E t s request m =
     (case Rhizofs_communicate E t request (Some s) False m of
        None \<Rightarrow> None
      | Some (resp, returned_err, m1) \<Rightarrow>
          Some (case resp of
            Some response \<Rightarrow>
              (if returned_err \<noteq> 0 then (False, zmq_close s (OP_DEINIT request resp (reset_errno m1)))
               else (True, zmq_close s (OP_DEINIT request resp
                             (if rs_version response = None then add_fault Null_deref m1 else m1))))
          | None \<Rightarrow> (False, zmq_close s (OP_DEINIT request None (reset_errno m1)))))"

definition Rhizofs_check_connection :: "'w zmq_env \<Rightarrow> nat \<Rightarrow> nat option \<Rightarrow> 'w client \<Rightarrow> (bool \<times> 'w client) option" where
  "Rhizofs_check_connection E t priv m =
     (case Request_init m of
        (None, m1) \<Rightarrow> Some (False, OP_DEINIT empty_request None (reset_errno m1))
      | (Some request, m1) \<Rightarrow>
          (let se = cl_settings m1; fail = (\<lambda>m. Some (False, OP_DEINIT request None (reset_errno m))) in
           case (priv, se_host_socket se) of
             (Some ctx, Some host_socket) \<Rightarrow>
               (case create_socket E ctx ZMQ_REQ (se_server_public_key se) (se_client_public_key se)
                       (se_client_secret_key se) m1 of
                  (None, m2) \<Rightarrow> fail m2
                | (Some s, m2) \<Rightarrow>
                    (let (connected, m3) = zmq_connect E s host_socket m2 in
                     if \<not> connected then Some (False, zmq_close s (OP_DEINIT request None (reset_errno m3)))
                     else ping E t s (request\<lparr>rq_type := PING\<rparr>) m3))
           | _ \<Rightarrow> fail m1))"

section \<open>The keys\<close>

definition load_key :: "'w start_env \<Rightarrow> string \<Rightarrow> (string option \<Rightarrow> rhizo_settings \<Rightarrow> rhizo_settings)
    \<Rightarrow> 'w client \<Rightarrow> bool \<times> 'w client" where
  \<comment> \<open>\<^verbatim>\<open>fopen\<close>, \<^verbatim>\<open>calloc(1, 41)\<close>, \<^verbatim>\<open>fread\<close> of 40 bytes into it; the setting points to the buffer from then on\<close>
  "load_key E path keep m =
     (case st_file E path (n_world m) of
        None \<Rightarrow> (False, reset_errno m)
      | Some content \<Rightarrow>
          (if \<not> alloc_ok m then (False, add_fault Null_deref (alloc_next m))
           else let key = take 40 content;
                    m1 = (alloc_next m)\<lparr>cl_settings := keep (Some key) (cl_settings m)\<rparr>
             in if length key = 40 then (True, m1) else (False, reset_errno m1)))"

definition make_keypair :: "'w start_env \<Rightarrow> 'w client \<Rightarrow> bool \<times> 'w client" where
  \<comment> \<open>two buffers that are not checked, and \<^verbatim>\<open>zmq_curve_keypair\<close>\<close>
  "make_keypair E m =
     (let m1 = alloc_next m; m2 = alloc_next m1; (keys, w) = st_keypair E (n_world m);
          m3 = m2\<lparr>n_world := w\<rparr> in
      if \<not> (alloc_ok m \<and> alloc_ok m1) then (False, add_fault Null_deref m2)
      else case keys of
        None \<Rightarrow> (False, (reset_errno m3)\<lparr>cl_settings := (cl_settings m)\<lparr>se_client_public_key := Some [],
                   se_client_secret_key := Some []\<rparr>\<rparr>)
      | Some (public_key, secret_key) \<Rightarrow>
          (True, m3\<lparr>cl_settings := (cl_settings m)\<lparr>se_client_public_key := Some public_key,
             se_client_secret_key := Some secret_key\<rparr>\<rparr>))"

definition load_server_key :: "'w start_env \<Rightarrow> 'w client \<Rightarrow> bool \<times> 'w client" where
  "load_server_key E m =
     (case se_server_public_key_file (cl_settings m) of
        None \<Rightarrow> (True, m)
      | Some path \<Rightarrow> load_key E path (\<lambda>k se. se\<lparr>se_server_public_key := k\<rparr>) m)"

definition load_client_keys :: "'w start_env \<Rightarrow> 'w client \<Rightarrow> bool \<times> 'w client" where
  "load_client_keys E m =
     (if se_server_public_key (cl_settings m) = None then (True, m)
      else case se_client_public_key_file (cl_settings m) of
        None \<Rightarrow> make_keypair E m
      | Some path \<Rightarrow>
          (let (ok, m1) = load_key E path (\<lambda>k se. se\<lparr>se_client_public_key := k\<rparr>) m in
           if \<not> ok then (False, m1)
           else load_key E (take (PATH_MAX - 1) (path @ ''.secret'')) (\<lambda>k se. se\<lparr>se_client_secret_key := k\<rparr>) m1))"

definition load_keys :: "'w start_env \<Rightarrow> 'w client \<Rightarrow> bool \<times> 'w client" where
  "load_keys E m =
     (let (ok, m1) = load_server_key E m in if \<not> ok then (False, m1) else load_client_keys E m1)"

section \<open>Running libfuse\<close>

definition fuse_main :: "'w start_env \<Rightarrow> string list \<Rightarrow> 'w client \<Rightarrow> (int \<times> 'w client) option" where
  \<comment> \<open>libfuse's loop with the table of operations; after a failed \<open>Rhizofs_init\<close>, which called
     \<^verbatim>\<open>fuse_exit\<close>, it destroys without private data. The mutex of the cache can be created.\<close>
  "fuse_main E args m =
     (case st_session E args (n_world m) of
        (rc, None) \<Rightarrow> Some (rc, m)
      | (rc, Some ops) \<Rightarrow>
          (case Rhizofs_init (st_zmq E) True m of
             (None, m1) \<Rightarrow> Some (rc, init_error None False m1)
           | (Some ctx, m1) \<Rightarrow>
               map_option (\<lambda>(_, m2). (rc, Rhizofs_destroy (Some ctx) m2)) (fuse_run (st_zmq E) ops m1)))"

definition Rhizofs_fuse_main :: "'w start_env \<Rightarrow> nat \<Rightarrow> string list \<Rightarrow> 'w client \<Rightarrow> (int \<times> 'w client) option" where
  "Rhizofs_fuse_main E t args m =
     (case RhizoPriv_create (st_zmq E) m of
        (None, m1) \<Rightarrow> Some (1, RhizoPriv_destroy None (reset_errno m1))
      | (Some ctx, m1) \<Rightarrow>
          (let (ok, m2) = load_keys E m1 in
           if \<not> ok then Some (1, RhizoPriv_destroy (Some ctx) m2)
           else case (if se_check_socket_connection (cl_settings m2)
                      then Rhizofs_check_connection (st_zmq E) t (Some ctx) m2 else Some (True, m2)) of
             None \<Rightarrow> None
           | Some (False, m3) \<Rightarrow> Some (1, RhizoPriv_destroy (Some ctx) (reset_errno m3))
           | Some (True, m3) \<Rightarrow>
               map_option (\<lambda>(rc, m4). (rc, RhizoPriv_destroy (Some ctx) m4)) (fuse_main E args m3)))"

section \<open>The command line\<close>

datatype fuse_arg =
    Opt_pubkeyfile string | Opt_pubkey string | Opt_clientpubkeyfile string
  | Key_help | Key_version | Key_nonopt string | Key_other string

datatype opt_result = Handled | Keep | Exited int

definition Rhizofs_opt_proc :: "'w start_env \<Rightarrow> nat \<Rightarrow> fuse_arg \<Rightarrow> string list \<Rightarrow> 'w client
    \<Rightarrow> (opt_result \<times> 'w client) option" where
  "Rhizofs_opt_proc E t arg outargs m =
     (let unchecked = m\<lparr>cl_settings := (cl_settings m)\<lparr>se_check_socket_connection := False\<rparr>\<rparr>;
          run = (\<lambda>extra. map_option (\<lambda>(_, m1). (Exited 0, m1)) (Rhizofs_fuse_main E t (outargs @ [extra]) unchecked)) in
      case arg of
        Key_help \<Rightarrow> run ''-ho''
      | Key_version \<Rightarrow> run ''--version''
      | Key_nonopt text \<Rightarrow>
          Some (if se_host_socket (cl_settings m) = None
            then (Handled, (alloc_next m)\<lparr>cl_settings := (cl_settings m)\<lparr>se_host_socket :=
                     (if alloc_ok m then Some text else None)\<rparr>\<rparr>)
            else (Keep, m))
      | _ \<Rightarrow> Some (Keep, m))"

fun arg_text :: "fuse_arg \<Rightarrow> string" where
  "arg_text (Key_nonopt text) = text"
| "arg_text (Key_other text) = text"
| "arg_text _ = []"

fun parse_args :: "'w start_env \<Rightarrow> nat \<Rightarrow> fuse_arg list \<Rightarrow> string list \<Rightarrow> 'w client
    \<Rightarrow> (int option \<times> string list \<times> 'w client) option" where
  \<comment> \<open>\<^verbatim>\<open>fuse_opt_parse\<close> with the table \<^verbatim>\<open>rhizo_opts\<close>; the first component: the process has exited\<close>
  "parse_args E t [] outargs m = Some (None, outargs, m)"
| "parse_args E t (Opt_pubkeyfile v # args) outargs m =
     parse_args E t args outargs (m\<lparr>cl_settings := (cl_settings m)\<lparr>se_server_public_key_file := Some v\<rparr>\<rparr>)"
| "parse_args E t (Opt_pubkey v # args) outargs m =
     parse_args E t args outargs (m\<lparr>cl_settings := (cl_settings m)\<lparr>se_server_public_key := Some v\<rparr>\<rparr>)"
| "parse_args E t (Opt_clientpubkeyfile v # args) outargs m =
     parse_args E t args outargs (m\<lparr>cl_settings := (cl_settings m)\<lparr>se_client_public_key_file := Some v\<rparr>\<rparr>)"
| "parse_args E t (arg # args) outargs m =
     (case Rhizofs_opt_proc E t arg outargs m of
        None \<Rightarrow> None
      | Some (Exited n, m1) \<Rightarrow> Some (Some n, outargs, m1)
      | Some (Handled, m1) \<Rightarrow> parse_args E t args outargs m1
      | Some (Keep, m1) \<Rightarrow> parse_args E t args (outargs @ [arg_text arg]) m1)"

section \<open>The program\<close>

definition Rhizofs_settings_deinit :: "'w client \<Rightarrow> 'w client" where
  "Rhizofs_settings_deinit m = (if se_host_socket (cl_settings m) = None then m else release 1 m)"

definition mtab_arg :: "int \<Rightarrow> string \<Rightarrow> string" where
  \<comment> \<open>what is shown in \<^verbatim>\<open>/etc/mtab\<close>, in a buffer of 1024 bytes\<close>
  "mtab_arg version host_socket = take 1023
     (if version \<ge> 27 then ''-osubtype='' @ take 20 ''rhizofs'' @ '',fsname='' @ take 990 host_socket
      else ''-ofsname='' @ take 20 ''rhizofs'' @ ''#'' @ take 990 host_socket)"

definition Rhizofs_run :: "'w start_env \<Rightarrow> nat \<Rightarrow> string \<Rightarrow> fuse_arg list \<Rightarrow> 'w client \<Rightarrow> (int \<times> 'w client) option" where
  "Rhizofs_run E t progname args m =
     (case parse_args E t args [progname] (m\<lparr>cl_settings := Rhizofs_settings_init\<rparr>) of
        None \<Rightarrow> None
      | Some (Some n, _, m1) \<Rightarrow> Some (n, m1)
      | Some (None, outargs, m1) \<Rightarrow>
          (if Rhizofs_settings_check (cl_settings m1) \<noteq> 0 then Some (-1, Rhizofs_settings_deinit m1)
           else
             let args = (case se_host_socket (cl_settings m1) of
                 None \<Rightarrow> outargs
               | Some host_socket \<Rightarrow> take 1 outargs @ [mtab_arg (st_fuse_version E) host_socket] @ drop 1 outargs)
             in map_option (\<lambda>(rc, m2). (rc, Rhizofs_settings_deinit m2)) (Rhizofs_fuse_main E t args m1)))"

section \<open>An exchange over a socket of its own\<close>

definition over :: "int \<Rightarrow> 'w client \<Rightarrow> 'w client \<Rightarrow> bool" where
  \<comment> \<open>\<open>k\<close> more blocks, and nothing else but the world, what was sent and received, and messages closed
     that have not been initialised\<close>
  "over k m m' \<longleftrightarrow> live m' = live m + k \<and> n_sockets m' = n_sockets m \<and> n_next m' = n_next m
     \<and> cl_pool m' = cl_pool m \<and> cl_cache m' = cl_cache m \<and> cl_settings m' = cl_settings m
     \<and> (\<exists>fs. faults m' = faults m @ fs \<and> set fs \<subseteq> {Uninitialised_use})"

lemma over_trans: "over j m m1 \<Longrightarrow> over k m1 m2 \<Longrightarrow> over (j + k) m m2"
  by (auto simp: over_def)

lemma over_same: "same_state m m' \<Longrightarrow> over 0 m m'"
  by (simp add: over_def same_state_def)

lemma over_fault: "over k m m' \<Longrightarrow> over k m (add_fault Uninitialised_use m')"
  by (auto simp: over_def net_simps heap_simps)

definition lost_over :: "'w client \<Rightarrow> (response option \<times> int \<times> 'w client) \<Rightarrow> bool" where
  "lost_over m res \<longleftrightarrow> (\<exists>e m'. res = (None, e, m') \<and> over 0 m m' \<and> cl_received m' = cl_received m)"

definition answered_over :: "'w client \<Rightarrow> (response option \<times> int \<times> 'w client) \<Rightarrow> bool" where
  "answered_over m res \<longleftrightarrow> (\<exists>r m'. res = (Some (Response_from_message r), Response_get_errno r, m')
     \<and> over (response_blocks (Response_from_message r)) m m' \<and> cl_received m' = cl_received m @ [r])"

lemma error_over:
  assumes "same_state m m'"
  shows "lost_over m (None, e, communicate_error E t (Some s) renew init m')"
    "n_sent (communicate_error E t (Some s) renew init m') = n_sent m"
  using over_same [OF assms] over_fault [OF over_same [OF assms]] assms
  by (auto simp: communicate_error_def lost_over_def same_state_def net_simps)

lemma receive_over:
  assumes "n_sockets m s \<noteq> None" "receive_response E t s (Some s) chk m = res"
  shows "lost_over m res \<or> answered_over m res" "n_sent (snd (snd res)) = n_sent m"
proof -
  define m1 where "m1 = z_next E Z_msg_init m"
  have t1: "touch_socket s m1 = m1" using assms(1) by (auto simp: touch_socket_def m1_def net_simps)
  let ?c = "Z_poll s POLL_TIMEOUT_MSEC"
  define m3 where "m3 = z_next E ?c m1"
  have s3: "same_state m m3" by (simp add: m3_def m1_def same_state_def net_simps)
  note R = receive_response_def [of E t s "Some s" chk m, folded m1_def, unfolded Let_def t1, folded m3_def]
  define m4 where "m4 = m3\<lparr>n_world := snd (z_recv E s (n_world m3)),
    n_errno := (case fst (z_recv E s (n_world m3)) of Inl e \<Rightarrow> e | Inr _ \<Rightarrow> n_errno m3)\<rparr>"
  have s4: "same_state m (reset_errno m4)" using s3 by (simp add: m4_def same_state_def net_simps)
  have s1: "same_state m (reset_errno m1)" by (simp add: m1_def same_state_def net_simps)
  have si: "same_state m (snd (interrupted E chk m3))" using same_state_trans [OF s3 same_state_interrupted] .
  have w: "answered_over m (Some (Response_from_message r), Response_get_errno (Response_from_message r),
      (adopt (response_blocks (Response_from_message r)) m4)\<lparr>cl_received := cl_received m4 @ [r]\<rparr>)" for r
    using s3 by (auto simp: answered_over_def over_def m4_def same_state_def net_simps heap_simps
        Response_get_errno_def Response_from_message_def)
  show "lost_over m res \<or> answered_over m res"
    using assms(2) error_over(1) [OF s1] error_over(1) [OF si] error_over(1) [OF s4] w
    unfolding R m4_def [symmetric]
    by (auto simp: case_prod_beta split: if_splits sum.splits option.splits)
  show "n_sent (snd (snd res)) = n_sent m"
    using assms(2) error_over(2) [OF s1] error_over(2) [OF si] error_over(2) [OF s4] s3
    unfolding R m4_def [symmetric]
    by (auto simp: case_prod_beta m4_def same_state_def net_simps split: if_splits sum.splits option.splits)
qed

lemma over_first:
  assumes "over 0 m m1" "cl_received m1 = cl_received m"
  shows "lost_over m1 res \<Longrightarrow> lost_over m res" "answered_over m1 res \<Longrightarrow> answered_over m res"
  using assms over_trans [OF assms(1)] by (fastforce simp: lost_over_def answered_over_def)+

lemma communicate_over:
  assumes "n_sockets m s \<noteq> None" "timeout_ok m"
  obtains (lost) res where "Rhizofs_communicate E t rq (Some s) False m = Some res" "lost_over m res"
      "n_sent (snd (snd res)) = n_sent m \<or> n_sent (snd (snd res)) = n_sent m @ [(s, rq)]"
  | (answered) res where "Rhizofs_communicate E t rq (Some s) False m = Some res" "answered_over m res"
      "n_sent (snd (snd res)) = n_sent m @ [(s, rq)]"
proof -
  define m2 where "m2 = realloc_next m"
  have o2: "over 0 m m2" "cl_received m2 = cl_received m" "n_sent m2 = n_sent m" "n_sockets m2 s \<noteq> None" "timeout_ok m2"
    using assms by (simp_all add: over_def m2_def timeout_ok_def net_simps heap_simps)
  note first = over_first [OF o2(1,2)]
  have C: "Rhizofs_communicate E t rq (Some s) False m =
      (if alloc_ok m then
         (case send_loop E s rq False 0 m2 of
            None \<Rightarrow> None
          | Some (Gave_up err renew, m3) \<Rightarrow> Some (None, err, communicate_error E t (Some s) renew False m3)
          | Some (Sent, m3) \<Rightarrow> Some (receive_response E t s (Some s) False m3))
       else (let m3 = z_next E Z_msg_close (reset_errno m2) in
          Some (None, n_errno m3, communicate_error E t (Some s) False False (reset_errno m3))))"
    by (simp add: Rhizofs_communicate_def Request_pack_def flip: m2_def)
  show thesis
  proof (cases "alloc_ok m")
    case False
    let ?m3 = "z_next E Z_msg_close (reset_errno m2)"
    have "same_state m2 (reset_errno ?m3)" by (simp add: same_state_def net_simps)
    note L = error_over(1) [OF this, of "n_errno ?m3" E t s False False] error_over(2) [OF this, of E t s False False]
    show thesis
      by (rule lost [of "(None, n_errno ?m3, communicate_error E t (Some s) False False (reset_errno ?m3))"])
         (use C False first(1) [OF L(1)] L(2) o2(3) in \<open>simp_all add: Let_def\<close>)
  next
    case True
    obtain T where T: "unat (se_timeout (cl_settings m2)) = T" "T \<le> 4294"
      using o2(5) by (simp add: timeout_ok_def)
    from send_loop_returns [OF T _ o2(4), of 0 E rq False] obtain m3 where s3: "same_state m2 m3"
      and S: "send_loop E s rq False 0 m2 = Some (Sent, m3\<lparr>n_sent := n_sent m3 @ [(s, rq)]\<rparr>)
        \<or> (\<exists>e renew. e \<in> {EINTR, EAGAIN, EIO} \<and> send_loop E s rq False 0 m2 = Some (Gave_up e renew, m3))"
      by auto
    from S show thesis
    proof (elim disjE exE conjE)
      fix e renew assume g: "send_loop E s rq False 0 m2 = Some (Gave_up e renew, m3)"
      note L = error_over(1) [OF s3, of e E t s renew False] error_over(2) [OF s3, of E t s renew False]
      show thesis
        by (rule lost [of "(None, e, communicate_error E t (Some s) renew False m3)"])
           (use C True g first(1) [OF L(1)] L(2) o2(3) in simp_all)
    next
      let ?m4 = "m3\<lparr>n_sent := n_sent m3 @ [(s, rq)]\<rparr>"
      assume sent: "send_loop E s rq False 0 m2 = Some (Sent, ?m4)"
      have o4: "over 0 m2 ?m4" "cl_received ?m4 = cl_received m2" "n_sockets ?m4 s \<noteq> None"
        "n_sent ?m4 = n_sent m @ [(s, rq)]"
        using s3 o2(3,4) by (simp_all add: same_state_def over_def)
      note R = receive_over [OF o4(3) refl, of E t False]
      note second = over_first [OF o4(1,2)]
      have r: "Rhizofs_communicate E t rq (Some s) False m = Some (receive_response E t s (Some s) False ?m4)"
        using C True sent by simp
      from R(1) show thesis
      proof
        assume "lost_over ?m4 (receive_response E t s (Some s) False ?m4)"
        from lost [OF r first(1) [OF second(1) [OF this]]] R(2) o4(4) show thesis by simp
      next
        assume "answered_over ?m4 (receive_response E t s (Some s) False ?m4)"
        from answered [OF r first(2) [OF second(2) [OF this]]] R(2) o4(4) show thesis by simp
      qed
    qed
  qed
qed

section \<open>What the connection check leaves\<close>

definition heard :: "bool \<Rightarrow> 'w client \<Rightarrow> 'w client \<Rightarrow> bool" where
  \<comment> \<open>the ping was answered without an error, or it was not\<close>
  "heard ok m m' \<longleftrightarrow> (if ok then \<exists>r. cl_received m' = cl_received m @ [r] \<and> Response_get_errno r = 0
     else cl_received m' = cl_received m \<or> (\<exists>r. cl_received m' = cl_received m @ [r] \<and> Response_get_errno r \<noteq> 0))"

definition checked :: "int \<Rightarrow> bool \<Rightarrow> 'w client \<Rightarrow> 'w client \<Rightarrow> bool" where
  \<comment> \<open>the state after a connection check, with \<open>k\<close> more blocks\<close>
  "checked k ok m m' \<longleftrightarrow> live m' = live m + k \<and> n_next m \<le> n_next m' \<and> cl_pool m' = cl_pool m
     \<and> cl_cache m' = cl_cache m \<and> cl_settings m' = cl_settings m
     \<and> (\<exists>fs. faults m' = faults m @ fs \<and> set fs \<subseteq> {Uninitialised_use, Null_deref}) \<and> heard ok m m'"

lemma closed:
  assumes "n_sockets m s \<noteq> None"
  obtains m' where "zmq_close s (OP_DEINIT rq resp m) = m'" "live m' = live m - (request_parts rq + of_opt response_blocks resp)"
    "n_next m' = n_next m" "cl_pool m' = cl_pool m" "cl_cache m' = cl_cache m" "cl_settings m' = cl_settings m"
    "faults m' = faults m" "cl_received m' = cl_received m" "n_sockets m' = (n_sockets m)(s := None)" "n_sent m' = n_sent m"
proof -
  let ?m2 = "OP_DEINIT rq resp m"
  have o: "n_sockets ?m2 s \<noteq> None" using assms by (simp add: OP_DEINIT_release net_simps)
  have more: "net.more (zmq_close s ?m2) = net.more ?m2" by (simp add: net_simps)
  note C = zmq_close_frame [OF o] cl_more [OF more]
  show thesis by (rule that [OF refl]) (simp_all only: C, simp_all add: OP_DEINIT_release net_simps heap_simps)
qed

lemma ping_checked:
  assumes "n_sockets m s \<noteq> None" "timeout_ok m" "request_parts rq = 1"
  obtains ok m' where "ping E t s rq m = Some (ok, m')" "checked (- 1) ok m m'" "n_sockets m' = (n_sockets m)(s := None)"
    "n_sent m' = n_sent m \<and> \<not> ok \<or> n_sent m' = n_sent m @ [(s, rq)]"
proof (rule communicate_over [OF assms(1,2), where E = E and t = t and rq = rq], goal_cases)
  case (1 res)
  then obtain e m1 where r: "res = (None, e, m1)" "over 0 m m1" "cl_received m1 = cl_received m"
    by (auto simp: lost_over_def)
  have o: "over 0 m (reset_errno m1)" "cl_received (reset_errno m1) = cl_received m"
    using over_trans [OF r(2) over_same [OF same_state_next(2)]] r(3) by (simp_all add: net_simps)
  have x: "n_sockets (reset_errno m1) s \<noteq> None" using assms(1) o by (simp add: over_def)
  obtain m' where m': "zmq_close s (OP_DEINIT rq None (reset_errno m1)) = m'" "checked (- 1) False m m'"
    "n_sockets m' = (n_sockets m)(s := None)" "n_sent m' = n_sent m1"
    by (rule closed [OF x, of rq None])
       (use assms(3) o in \<open>auto simp: checked_def heard_def over_def net_simps\<close>)
  show thesis by (rule that [of False m']) (use 1(2,4) r m' in \<open>simp_all add: ping_def\<close>)
next
  case (2 res)
  then obtain r m1 where r: "res = (Some (Response_from_message r), Response_get_errno r, m1)"
    "over (response_blocks (Response_from_message r)) m m1" "cl_received m1 = cl_received m @ [r]"
    by (auto simp: answered_over_def)
  let ?ok = "Response_get_errno r = 0" and ?r = "Response_from_message r"
  define m2 where "m2 = (if ?ok then if rs_version r = None then add_fault Null_deref m1 else m1 else reset_errno m1)"
  have m2: "live m2 = live m + response_blocks ?r" "n_sockets m2 = n_sockets m" "n_next m2 = n_next m"
    "cl_pool m2 = cl_pool m" "cl_cache m2 = cl_cache m" "cl_settings m2 = cl_settings m"
    "cl_received m2 = cl_received m @ [r]" "n_sent m2 = n_sent m1"
    "\<exists>fs. faults m2 = faults m @ fs \<and> set fs \<subseteq> {Uninitialised_use, Null_deref}"
    using r by (auto simp: m2_def over_def net_simps heap_simps)
  have v: "rs_version ?r = rs_version r" by (simp add: Response_from_message_def)
  have x: "n_sockets m2 s \<noteq> None" using assms(1) m2(2) by simp
  obtain m' where m': "zmq_close s (OP_DEINIT rq (Some ?r) m2) = m'" "checked (- 1) ?ok m m'"
    "n_sockets m' = (n_sockets m)(s := None)" "n_sent m' = n_sent m1"
    by (rule closed [OF x, of rq "Some ?r"]) (use assms(3) m2 in \<open>auto simp: checked_def heard_def\<close>)
  show thesis by (rule that [of ?ok m']) (use 2(2,4) r m' v in \<open>auto simp: ping_def m2_def split: if_splits\<close>)
qed

definition settings_keys_long :: "rhizo_settings \<Rightarrow> bool" where
  "settings_keys_long se \<longleftrightarrow> keys_long (se_server_public_key se) (se_client_public_key se) (se_client_secret_key se)"

lemma connect_over:
  assumes "n_sockets m s \<noteq> None" "zmq_connect E s host m = (b, m')"
  shows "live m' = live m" "n_next m' = n_next m" "faults m' = faults m" "n_sent m' = n_sent m" "n_sockets m' s \<noteq> None"
    "(n_sockets m')(s := None) = (n_sockets m)(s := None)" "net.more m' = net.more m"
  using assms more_calls(4) [of E s host m]
  by (auto simp: zmq_connect_def Let_def net_simps fun_eq_iff split: if_splits)

lemma check_connection_outcome:
  assumes "timeout_ok m" "n_sockets m (n_next m) = None" "settings_keys_long (cl_settings m)"
  obtains (outcome) ok m' where "Rhizofs_check_connection E t priv m = Some (ok, m')" "checked 0 ok m m'" "n_sockets m' = n_sockets m"
    "n_sent m' = n_sent m \<and> \<not> ok \<or> (\<exists>s. n_sent m' = n_sent m @ [(s, new_request\<lparr>rq_type := PING\<rparr>)])"
proof -
  let ?lost = "\<lambda>rq m. OP_DEINIT rq None (reset_errno m)"
  have gone: thesis if "Rhizofs_check_connection E t priv m = Some (False, m')" "checked 0 False m m'"
    "n_sockets m' = n_sockets m" "n_sent m' = n_sent m" for m' using that(2-) by (intro outcome [OF that(1)]) auto
  show thesis
  proof (cases "alloc_ok m \<and> priv \<noteq> None \<and> se_host_socket (cl_settings m) \<noteq> None")
    case False
    let ?rq = "if alloc_ok m then new_request else empty_request"
    have "Rhizofs_check_connection E t priv m = Some (False, ?lost ?rq (alloc_next m))"
      using False by (auto simp: Rhizofs_check_connection_def Request_init_def new_request_def Let_def net_simps
          split: option.splits)
    then show thesis
      by (rule gone) (auto simp: checked_def heard_def OP_DEINIT_release net_simps heap_simps)
  next
    case True
    then obtain ctx host where c: "priv = Some ctx" "se_host_socket (cl_settings m) = Some host" "alloc_ok m" by auto
    define m1 where "m1 = alloc_next m"
    have m1: "live m1 = live m + 1" "faults m1 = faults m" "n_next m1 = n_next m" "n_sockets m1 = n_sockets m"
      "n_sent m1 = n_sent m" "cl_pool m1 = cl_pool m" "cl_cache m1 = cl_cache m" "cl_settings m1 = cl_settings m"
      "cl_received m1 = cl_received m"
      using c(3) by (simp_all add: m1_def net_simps heap_simps)
    define made where "made = create_socket E ctx ZMQ_REQ (se_server_public_key (cl_settings m))
        (se_client_public_key (cl_settings m)) (se_client_secret_key (cl_settings m)) m1"
    have C: "Rhizofs_check_connection E t priv m = (case made of
        (None, m2) \<Rightarrow> Some (False, ?lost new_request m2)
      | (Some s, m2) \<Rightarrow> (let (connected, m3) = zmq_connect E s host m2 in
           if \<not> connected then Some (False, zmq_close s (?lost new_request m3))
           else ping E t s (new_request\<lparr>rq_type := PING\<rparr>) m3))"
      using c by (simp add: Rhizofs_check_connection_def Request_init_def new_request_def Let_def made_def m1_def net_simps
          split: option.split prod.split)
    have more: "net.more (snd made) = net.more m1" unfolding made_def by (rule more_create_socket)
    have k: "keys_long (se_server_public_key (cl_settings m)) (se_client_public_key (cl_settings m))
        (se_client_secret_key (cl_settings m))" using assms(3) by (simp add: settings_keys_long_def)
    show thesis
    proof (rule create_socket_cases [of E ctx ZMQ_REQ "se_server_public_key (cl_settings m)"
          "se_client_public_key (cl_settings m)" "se_client_secret_key (cl_settings m)" m1], goal_cases)
      case (1 m2)
      note M = cl_more [of m2 m1]
      have cr: "Rhizofs_check_connection E t priv m = Some (False, ?lost new_request m2)"
        using C 1(1) by (simp add: made_def)
      show thesis
        by (rule gone [OF cr])
           (use 1 m1 M more k assms(2) in \<open>auto simp: made_def checked_def heard_def OP_DEINIT_release net_simps heap_simps\<close>)
    next
      case (2 m2)
      let ?s = "n_next m1"
      note M = cl_more [of m2 m1]
      have m2: "made = (Some ?s, m2)" "net.more m2 = net.more m1" "n_sockets m2 ?s \<noteq> None" "live m2 = live m + 1"
        "faults m2 = faults m" "n_next m2 = Suc (n_next m)" "n_sent m2 = n_sent m" "(n_sockets m2)(?s := None) = n_sockets m"
        using 2 m1 more k assms(2) socket_is_open [OF 2(7)] by (auto simp: made_def fun_eq_iff)
      obtain b m3 where cn: "zmq_connect E ?s host m2 = (b, m3)" by fastforce
      note O = connect_over [OF m2(3) cn]
      have e: "net.more m3 = net.more m1" using O(7) m2(2) by simp
      have m3: "live m3 = live m + 1" "n_next m3 = Suc (n_next m)" "faults m3 = faults m" "n_sent m3 = n_sent m"
        "(n_sockets m3)(?s := None) = n_sockets m" "cl_pool m3 = cl_pool m" "cl_cache m3 = cl_cache m"
        "cl_settings m3 = cl_settings m" "cl_received m3 = cl_received m"
        using O m2 m1 cl_more [OF e] by simp_all
      show thesis
      proof (cases b)
        case False
        have x: "n_sockets (reset_errno m3) ?s \<noteq> None" using O(5) by (simp add: net_simps)
        obtain m' where m': "zmq_close ?s (?lost new_request m3) = m'" "checked 0 False m m'" "n_sockets m' = n_sockets m"
          "n_sent m' = n_sent m"
          by (rule closed [OF x, of new_request None]) (use m3 in \<open>auto simp: checked_def heard_def net_simps\<close>)
        show thesis by (rule gone [of m']) (use C m2(1) cn False m' in simp_all)
      next
        case True
        have T: "timeout_ok m3" using assms(1) m3(8) by (simp add: timeout_ok_def)
        show thesis
        proof (rule ping_checked [OF O(5) T, of "new_request\<lparr>rq_type := PING\<rparr>" E t], goal_cases)
          case (2 ok m')
          have "checked 0 ok m m'" using 2(2) m3 by (auto simp: checked_def heard_def)
          with 2 C m2(1) cn True m3(4,5) show thesis by (intro outcome [of ok m']) auto
        qed simp
      qed
    qed
  qed
qed

section \<open>Loading the keys\<close>

definition keypair_ok :: "'w start_env \<Rightarrow> bool" where
  \<comment> \<open>\<^verbatim>\<open>zmq_curve_keypair\<close> makes keys of 40 characters\<close>
  "keypair_ok E \<longleftrightarrow> (\<forall>w a b. fst (st_keypair E w) = Some (a, b) \<longrightarrow> length a = 40 \<and> length b = 40)"

definition only_keys :: "int \<Rightarrow> 'w client \<Rightarrow> 'w client \<Rightarrow> bool" where
  \<comment> \<open>keys were set, at most \<open>n\<close> blocks allocated for them\<close>
  "only_keys n m m' \<longleftrightarrow> live m \<le> live m' \<and> live m' \<le> live m + n \<and> n_sockets m' = n_sockets m \<and> n_next m' = n_next m
     \<and> n_sent m' = n_sent m \<and> cl_pool m' = cl_pool m \<and> cl_cache m' = cl_cache m \<and> cl_received m' = cl_received m
     \<and> (\<exists>fs. faults m' = faults m @ fs \<and> set fs \<subseteq> {Null_deref})
     \<and> se_host_socket (cl_settings m') = se_host_socket (cl_settings m) \<and> se_timeout (cl_settings m') = se_timeout (cl_settings m)
     \<and> se_check_socket_connection (cl_settings m') = se_check_socket_connection (cl_settings m)
     \<and> se_client_public_key_file (cl_settings m') = se_client_public_key_file (cl_settings m)"

lemma only_keys_trans: "only_keys a m m1 \<Longrightarrow> only_keys b m1 m2 \<Longrightarrow> only_keys (a + b) m m2"
  by (auto simp: only_keys_def)

lemma only_keys_refl: "0 \<le> n \<Longrightarrow> only_keys n m m"
  by (simp add: only_keys_def)

definition key_setter :: "(string option \<Rightarrow> rhizo_settings \<Rightarrow> rhizo_settings) \<Rightarrow> bool" where
  "key_setter f \<longleftrightarrow> (\<forall>k se. se_host_socket (f k se) = se_host_socket se \<and> se_timeout (f k se) = se_timeout se
     \<and> se_check_socket_connection (f k se) = se_check_socket_connection se
     \<and> se_client_public_key_file (f k se) = se_client_public_key_file se)"

lemma key_setters [simp]:
  "key_setter (\<lambda>k se. se\<lparr>se_server_public_key := k\<rparr>)" "key_setter (\<lambda>k se. se\<lparr>se_client_public_key := k\<rparr>)"
  "key_setter (\<lambda>k se. se\<lparr>se_client_secret_key := k\<rparr>)"
  by (simp_all add: key_setter_def)

lemma load_key_cases:
  assumes "key_setter f"
  obtains (fail) m' where "load_key E path f m = (False, m')" "only_keys 1 m m'"
  | (ok) k m' where "load_key E path f m = (True, m')" "only_keys 1 m m'" "length k = 40"
      "cl_settings m' = f (Some k) (cl_settings m)"
proof (cases "st_file E path (n_world m)")
  case None
  then show thesis by (intro fail [of "reset_errno m"]) (simp_all add: load_key_def only_keys_def net_simps)
next
  case (Some content)
  let ?m1 = "(alloc_next m)\<lparr>cl_settings := f (Some (take 40 content)) (cl_settings m)\<rparr>"
  have o: "alloc_ok m \<Longrightarrow> only_keys 1 m ?m1" "alloc_ok m \<Longrightarrow> only_keys 1 m (reset_errno ?m1)"
    "only_keys 1 m (add_fault Null_deref (alloc_next m))"
    using assms by (auto simp: only_keys_def key_setter_def net_simps heap_simps)
  show thesis
  proof (cases "alloc_ok m \<and> length (take 40 content) = 40")
    case True
    with Some o show thesis by (intro ok [of ?m1 "take 40 content"]) (simp_all add: load_key_def Let_def)
  next
    case False
    with Some o show thesis
      by (intro fail [of "snd (load_key E path f m)"]) (auto simp: load_key_def Let_def)
  qed
qed

lemma make_keypair_cases:
  obtains (fail) m' where "make_keypair E m = (False, m')" "only_keys 2 m m'"
  | (ok) a b m' where "make_keypair E m = (True, m')" "only_keys 2 m m'" "fst (st_keypair E (n_world m)) = Some (a, b)"
      "cl_settings m' = (cl_settings m)\<lparr>se_client_public_key := Some a, se_client_secret_key := Some b\<rparr>"
proof -
  obtain ks w where kw: "st_keypair E (n_world m) = (ks, w)" by fastforce
  show thesis
  proof (cases "alloc_ok m \<and> alloc_ok (alloc_next m) \<and> ks \<noteq> None")
    case True
    then obtain a b where "ks = Some (a, b)" by auto
    with True kw show thesis
      by (intro ok [of "snd (make_keypair E m)" a b]) (simp_all add: make_keypair_def Let_def only_keys_def net_simps heap_simps)
  next
    case False
    with kw show thesis
      by (intro fail [of "snd (make_keypair E m)"])
         (auto simp: make_keypair_def Let_def only_keys_def net_simps heap_simps split: option.splits)
  qed
qed

definition client_keyed :: "rhizo_settings \<Rightarrow> bool" where
  \<comment> \<open>a server key comes with a key pair of 40 characters each\<close>
  "client_keyed se \<longleftrightarrow> (se_server_public_key se \<noteq> None \<longrightarrow> (\<exists>a b. se_client_public_key se = Some a
     \<and> se_client_secret_key se = Some b \<and> length a = 40 \<and> length b = 40))"

lemma load_client_keys_outcome:
  obtains ok m' where "load_client_keys E m = (ok, m')" "only_keys 2 m m'"
    "ok \<longrightarrow> se_server_public_key (cl_settings m') = se_server_public_key (cl_settings m)"
    "ok \<and> keypair_ok E \<longrightarrow> client_keyed (cl_settings m')"
    "ok \<and> se_server_public_key (cl_settings m') = None \<longrightarrow> cl_settings m' = cl_settings m"
proof (cases "se_server_public_key (cl_settings m)")
  case None
  then show thesis
    by (intro that [of True m]) (simp_all add: load_client_keys_def only_keys_refl client_keyed_def)
next
  case (Some spk)
  show thesis
  proof (cases "se_client_public_key_file (cl_settings m)")
    case None
    show thesis
      by (rule make_keypair_cases [of E m])
         (use Some None in \<open>auto intro!: that simp: load_client_keys_def client_keyed_def keypair_ok_def\<close>)
  next
    case named: (Some path)
    let ?sec = "take (PATH_MAX - 1) (path @ ''.secret'')"
    show thesis
    proof (rule load_key_cases [OF key_setters(2), of E path m], goal_cases)
      case (1 m1)
      with Some named only_keys_trans [OF 1(2) only_keys_refl [of 1 m1]] show thesis
        by (intro that [of False m1]) (simp_all add: load_client_keys_def)
    next
      case (2 a m1)
      note L = 2
      show thesis
      proof (rule load_key_cases [OF key_setters(3), of E ?sec m1], goal_cases)
        case (1 m2)
        with Some named L only_keys_trans [OF L(2) 1(2)] show thesis
          by (intro that [of False m2]) (simp_all add: load_client_keys_def)
      next
        case (2 b m2)
        with Some named L only_keys_trans [OF L(2) 2(2)] show thesis
          by (intro that [of True m2]) (simp_all add: load_client_keys_def client_keyed_def)
      qed
    qed
  qed
qed

lemma load_keys_outcome:
  obtains ok m' where "load_keys E m = (ok, m')" "only_keys 3 m m'"
    "ok \<and> keypair_ok E \<longrightarrow> client_keyed (cl_settings m')"
    "ok \<longrightarrow> se_server_public_key (cl_settings m') = se_server_public_key (cl_settings m)
       \<or> (\<exists>k. se_server_public_key (cl_settings m') = Some k \<and> length k = 40)"
    "ok \<and> se_server_public_key (cl_settings m') = None \<longrightarrow> cl_settings m' = cl_settings m"
proof -
  obtain ok1 m1 where s: "load_server_key E m = (ok1, m1)" "only_keys 1 m m1"
    "ok1 \<longrightarrow> cl_settings m1 = cl_settings m \<or> (\<exists>k. cl_settings m1 = (cl_settings m)\<lparr>se_server_public_key := Some k\<rparr> \<and> length k = 40)"
  proof (cases "se_server_public_key_file (cl_settings m)")
    case None
    then show thesis by (intro that [of True m]) (simp_all add: load_server_key_def only_keys_refl)
  next
    case (Some path)
    show thesis
      by (rule load_key_cases [OF key_setters(1), of E path m]) (use Some in \<open>auto intro!: that simp: load_server_key_def\<close>)
  qed
  obtain ok m' where c: "load_client_keys E m1 = (ok, m')" "only_keys 2 m1 m'"
    "ok \<longrightarrow> se_server_public_key (cl_settings m') = se_server_public_key (cl_settings m1)"
    "ok \<and> keypair_ok E \<longrightarrow> client_keyed (cl_settings m')"
    "ok \<and> se_server_public_key (cl_settings m') = None \<longrightarrow> cl_settings m' = cl_settings m1"
    by (rule load_client_keys_outcome [of E m1])
  show thesis
  proof (cases ok1)
    case True
    with s c only_keys_trans [OF s(2) c(2)] show thesis
      by (intro that [of ok m']) (auto simp: load_keys_def)
  next
    case False
    with s(1) only_keys_trans [OF s(2) only_keys_refl [of 2 m1]] show thesis
      by (intro that [of False m1]) (simp_all add: load_keys_def)
  qed
qed

section \<open>From the start to libfuse\<close>

definition blank :: "'w client \<Rightarrow> bool" where
  \<comment> \<open>what the globals are before anything is mounted\<close>
  "blank m \<longleftrightarrow> cl_pool m = zero_pool \<and> n_sockets m = Map.empty \<and> timeout_ok m \<and> settings_keys_long (cl_settings m)"

definition more_faults :: "fault set \<Rightarrow> 'w client \<Rightarrow> 'w client \<Rightarrow> bool" where
  "more_faults F m m' \<longleftrightarrow> (\<exists>fs. faults m' = faults m @ fs \<and> set fs \<subseteq> F)"

lemma more_faults_refl: "faults m' = faults m \<Longrightarrow> more_faults F m m'"
  by (simp add: more_faults_def)

lemma more_faults_trans: "more_faults F m m1 \<Longrightarrow> more_faults F m1 m2 \<Longrightarrow> more_faults F m m2"
  by (auto simp: more_faults_def)

lemma pool_deinit_zero: "cl_pool m = zero_pool \<Longrightarrow> pool_deinit m = m"
  by (simp add: pool_deinit_def SocketPool_deinit_def free_socket_name_def zero_pool_def)

lemma pool_deinit_faults: "Double_free \<in> F \<Longrightarrow> more_faults F m (pool_deinit m)"
  by (auto simp: pool_deinit_def SocketPool_deinit_def free_socket_name_def more_faults_def Let_def net_simps heap_simps)

lemma priv_destroy_faults: "Double_free \<in> F \<Longrightarrow> more_faults F m (RhizoPriv_destroy priv m)"
  using pool_deinit_faults [of F m] by (auto simp: RhizoPriv_destroy_def Let_def more_faults_def heap_simps)

lemma init_error_faults: "Double_free \<in> F \<Longrightarrow> more_faults F m (init_error priv False m)"
  using more_faults_trans [OF pool_deinit_faults priv_destroy_faults]
  by (simp add: init_error_def Let_def)

lemma priv_create_cases:
  obtains (fail) m1 where "RhizoPriv_create E m = (None, m1)" "live m1 = live m" "faults m1 = faults m"
      "n_sockets m1 = n_sockets m" "n_next m1 = n_next m" "n_sent m1 = n_sent m" "cl_pool m1 = cl_pool m"
      "cl_cache m1 = cl_cache m" "cl_settings m1 = cl_settings m" "cl_received m1 = cl_received m"
  | (ok) ctx m1 where "RhizoPriv_create E m = (Some ctx, m1)" "live m1 = live m + 1" "faults m1 = faults m"
      "n_sockets m1 = n_sockets m" "n_next m1 = n_next m" "n_sent m1 = n_sent m" "cl_pool m1 = cl_pool m"
      "cl_cache m1 = cl_cache m" "cl_settings m1 = cl_settings m" "cl_received m1 = cl_received m"
proof (cases "RhizoPriv_create E m")
  case (Pair r m1)
  show thesis
  proof (cases r)
    case None
    with Pair show thesis
      by (intro fail [of m1])
         (auto simp: RhizoPriv_create_def Let_def net_simps heap_simps split: if_splits sum.splits)
  next
    case (Some ctx)
    with Pair show thesis
      by (intro ok [of ctx m1])
         (auto simp: RhizoPriv_create_def Let_def net_simps heap_simps split: if_splits sum.splits)
  qed
qed

lemma init_None_faults:
  assumes "Rhizofs_init E True m = (None, m1)" "{Double_free, Null_deref} \<subseteq> F"
  shows "more_faults F m m1"
proof (rule priv_create_cases [of E m], goal_cases)
  case (1 m2)
  then have "m1 = init_error None False (reset_errno m2)" using assms(1) by (simp add: Rhizofs_init_def)
  then show ?case using init_error_faults [of F "reset_errno m2" None] assms(2) 1(3) by (simp add: more_faults_def net_simps)
next
  case (2 ctx m2)
  show ?case
  proof (cases "se_host_socket (cl_settings m2)")
    case None
    then have "m1 = add_fault Null_deref m2" using assms(1) 2(1) by (simp add: Rhizofs_init_def)
    then show ?thesis using assms(2) 2(3) by (simp add: more_faults_def heap_simps)
  next
    case (Some host)
    obtain made sp m3 where i: "SocketPool_init E ctx host ZMQ_REQ m2 = (made, sp, m3)" by (metis prod_cases3)
    have f3: "faults m3 = faults m2"
      using i by (auto simp: SocketPool_init_def Let_def zero_pool_def free_socket_name_def net_simps heap_simps
          split: if_splits sum.splits prod.splits)
    let ?m3 = "m3\<lparr>cl_pool := sp\<rparr>"
    obtain x where x: "m1 = init_error (Some ctx) False x" "faults x = faults m3"
    proof (cases made)
      case False
      with assms(1) 2(1) Some i show thesis by (intro that [of "reset_errno ?m3"]) (auto simp: Rhizofs_init_def net_simps)
    next
      case True
      define se where "se = cl_settings ?m3"
      define keys where "keys = (case (se_client_public_key se, se_client_secret_key se) of
        (Some a, Some b) \<Rightarrow> Some (a, b) | _ \<Rightarrow> None)"
      define m4 where "m4 = ?m3\<lparr>cl_pool := keyed_pool (se_server_public_key se) keys sp\<rparr>"
      let ?made = "hash_create ATTRCACHE_MAXSIZE (Some strcmp) (Some Hashfunc_djb2) m4 :: cache_entry hash_t option \<times> 'a client"
      obtain r m5 where a: "AttrCache_init ATTRCACHE_MAXSIZE ATTRCACHE_DEFAULT_MAXAGE_SEC True m4 = (r, m5)" by fastforce
      have R: "Rhizofs_init E True m = (case AttrCache_init ATTRCACHE_MAXSIZE ATTRCACHE_DEFAULT_MAXAGE_SEC True m4 of
          (None, m5) \<Rightarrow> (None, init_error (Some ctx) (fst ?made \<noteq> None) (reset_errno m5))
        | (Some cache, m5) \<Rightarrow> (Some ctx, m5\<lparr>cl_cache := cache\<rparr>))"
        using 2(1) Some i True unfolding Rhizofs_init_def m4_def keys_def se_def
        by (simp add: Let_def cong: option.case_cong prod.case_cong)
      have r: "r = None" using R a assms(1) by (auto split: option.splits)
      with a have h: "?made = (None, m5)" by (auto simp: AttrCache_init_def split: option.splits prod.splits)
      then have "faults m5 = faults m4" by (rule hash_create_fail)
      then show thesis using R a r h assms(1) by (intro that [of "reset_errno m5"]) (simp_all add: m4_def net_simps)
    qed
    then show ?thesis
      using init_error_faults [of F x "Some ctx"] assms(2) f3 2(3) by (simp add: more_faults_def)
  qed
qed

definition sessions_ok :: "'w start_env \<Rightarrow> bool" where
  \<comment> \<open>libfuse writes less than 2 GiB at a time; a thread's value can be cleared, the clock read\<close>
  "sessions_ok E \<longleftrightarrow> forgets (st_zmq E) \<and> time_works (st_zmq E)
     \<and> (\<forall>args w ops. snd (st_session E args w) = Some ops \<longrightarrow> (\<forall>(t, op) \<in> set ops. args_ok op))"

lemma blank_mountable: "blank m \<Longrightarrow> mountable m"
  by (simp add: blank_def mountable_def settings_keys_long_def keys_long_def)

lemma fuse_main_ends:
  assumes "blank m" "sessions_ok E"
  obtains rc m' where "fuse_main E args m = Some (rc, m')" "more_faults client_faults m m'"
proof (cases "st_session E args (n_world m)")
  case (Pair rc session)
  show thesis
  proof (cases session)
    case None
    with Pair show thesis by (intro that [of rc m]) (simp_all add: fuse_main_def more_faults_refl)
  next
    case (Some ops)
    obtain r m1 where i: "Rhizofs_init (st_zmq E) True m = (r, m1)" by fastforce
    show thesis
    proof (cases r)
      case None
      have "more_faults client_faults m m1" using init_None_faults [OF i [unfolded None]] by simp
      with Pair Some i None init_error_faults [of client_faults m1 None] show thesis
        by (intro that [of rc "init_error None False m1"]) (auto simp: fuse_main_def intro: more_faults_trans)
    next
      case mounted: (Some ctx)
      from init_mounts [OF blank_mountable [OF assms(1)]] i mounted
      have I: "client_ok m1" "faults m1 = faults m" by auto
      have "snd (st_session E args (n_world m)) = Some ops" using Pair Some by simp
      then have a: "\<forall>(t, op) \<in> set ops. args_ok op" "forgets (st_zmq E)" "time_works (st_zmq E)"
        using assms(2) unfolding sessions_ok_def by blast+
      obtain ns m2 where r: "fuse_run (st_zmq E) ops m1 = Some (ns, m2)" "client_ok m2" "more_faults client_faults m1 m2"
        using fuse_run_keeps [OF I(1) a(2,3,1)] by (auto simp: more_faults_def)
      have "more_faults client_faults m2 (Rhizofs_destroy (Some ctx) m2)"
        using unmount_double_free [OF r(2), of ctx] by (simp add: more_faults_def)
      with r(3) I(2) have "more_faults client_faults m (Rhizofs_destroy (Some ctx) m2)"
        by (meson more_faults_refl more_faults_trans)
      with Pair Some i mounted r(1) show thesis
        by (intro that [of rc "Rhizofs_destroy (Some ctx) m2"]) (simp_all add: fuse_main_def)
    qed
  qed
qed

text \<open>
  The phases of \<open>Rhizofs_fuse_main\<close>: it gives up with nothing mounted, or it gets to libfuse, and then,
  when the check was on, a ping has been answered without an error.
\<close>

definition gave_up :: "'w client \<Rightarrow> int \<times> 'w client \<Rightarrow> bool" where
  "gave_up m = (\<lambda>(rc, m'). rc = 1 \<and> n_sockets m' = n_sockets m \<and> cl_pool m' = cl_pool m \<and> live m \<le> live m'
     \<and> live m' \<le> live m + 3 \<and> more_faults {Uninitialised_use, Null_deref} m m')"

definition got_to_fuse :: "'w client \<Rightarrow> 'w client \<Rightarrow> bool" where
  "got_to_fuse m m3 \<longleftrightarrow> blank m3 \<and> more_faults {Uninitialised_use, Null_deref} m m3
     \<and> (if se_check_socket_connection (cl_settings m)
        then \<exists>s r. n_sent m3 = n_sent m @ [(s, new_request\<lparr>rq_type := PING\<rparr>)]
          \<and> cl_received m3 = cl_received m @ [r] \<and> Response_get_errno r = 0
        else n_sent m3 = n_sent m \<and> cl_received m3 = cl_received m)"

lemma keyed_long:
  assumes "settings_keys_long (cl_settings m)" "only_keys n m m'" "client_keyed (cl_settings m')"
    and "se_server_public_key (cl_settings m') = se_server_public_key (cl_settings m)
       \<or> (\<exists>k. se_server_public_key (cl_settings m') = Some k \<and> length k = 40)"
    and "se_server_public_key (cl_settings m') = None \<longrightarrow> cl_settings m' = cl_settings m"
  shows "settings_keys_long (cl_settings m')"
  using assms unfolding settings_keys_long_def keys_long_def client_keyed_def by fastforce

lemma priv_destroy_blank:
  "cl_pool m = zero_pool \<Longrightarrow> RhizoPriv_destroy priv m = (if priv = None then m else release 1 m)"
  by (simp add: RhizoPriv_destroy_def pool_deinit_zero)

lemma client_phases:
  assumes "blank m" "keypair_ok E"
  obtains (gave) rc m' where "Rhizofs_fuse_main E t args m = Some (rc, m')" "gave_up m (rc, m')"
  | (fuse) ctx m3 where "got_to_fuse m m3" "Rhizofs_fuse_main E t args m
      = map_option (\<lambda>(rc, m4). (rc, RhizoPriv_destroy (Some ctx) m4)) (fuse_main E args m3)"
proof (rule priv_create_cases [of "st_zmq E" m], goal_cases)
  case (1 m1)
  have z: "cl_pool (reset_errno m1) = zero_pool" using 1(9) assms(1) by (simp add: blank_def net_simps)
  show thesis
    by (rule gave [of 1 "reset_errno m1"])
       (use 1 in \<open>simp_all add: Rhizofs_fuse_main_def priv_destroy_blank [OF z] gave_up_def more_faults_def net_simps\<close>)
next
  case (2 ctx m1)
  then have b1: "cl_pool m1 = zero_pool" "n_sockets m1 = Map.empty" "timeout_ok m1" "settings_keys_long (cl_settings m1)"
    using assms(1) by (simp_all add: blank_def timeout_ok_def)
  obtain ok m2 where k: "load_keys E m1 = (ok, m2)" "only_keys 3 m1 m2" "ok \<and> keypair_ok E \<longrightarrow> client_keyed (cl_settings m2)"
    "ok \<longrightarrow> se_server_public_key (cl_settings m2) = se_server_public_key (cl_settings m1)
       \<or> (\<exists>k. se_server_public_key (cl_settings m2) = Some k \<and> length k = 40)"
    "ok \<and> se_server_public_key (cl_settings m2) = None \<longrightarrow> cl_settings m2 = cl_settings m1"
    by (rule load_keys_outcome [of E m1])
  note K = k(2) [unfolded only_keys_def]
  have z2: "cl_pool m2 = zero_pool" using K b1(1) by simp
  have drop: "gave_up m (1, release 1 m3)" if "live m3 = live m2" "n_sockets m3 = n_sockets m2" "cl_pool m3 = cl_pool m2"
    "more_faults {Uninitialised_use, Null_deref} m2 m3" for m3
    using that 2 K by (auto simp: gave_up_def more_faults_def net_simps heap_simps)
  show thesis
  proof (cases ok)
    case False
    then show thesis
      by (intro gave [of 1 "release 1 m2"] drop)
         (simp_all add: Rhizofs_fuse_main_def 2(3) k(1) priv_destroy_blank [OF z2] more_faults_refl)
  next
    case True
    have b2: "timeout_ok m2" "n_sockets m2 = Map.empty" "settings_keys_long (cl_settings m2)"
      using K b1 True assms(2) k(3-5) keyed_long [OF b1(4) k(2)] by (simp_all add: timeout_ok_def)
    let ?chk = "se_check_socket_connection (cl_settings m)"
    have chk: "se_check_socket_connection (cl_settings m2) = ?chk" using K 2(11) by simp
    have R: "Rhizofs_fuse_main E t args m = (case (if ?chk
          then Rhizofs_check_connection (st_zmq E) t (Some ctx) m2 else Some (True, m2)) of
        None \<Rightarrow> None
      | Some (False, m3) \<Rightarrow> Some (1, RhizoPriv_destroy (Some ctx) (reset_errno m3))
      | Some (True, m3) \<Rightarrow> map_option (\<lambda>(rc, m4). (rc, RhizoPriv_destroy (Some ctx) m4)) (fuse_main E args m3))"
      using True by (simp add: Rhizofs_fuse_main_def 2(3) k(1) chk)
    have f2: "more_faults {Uninitialised_use, Null_deref} m m2" using K 2(5) by (auto simp: more_faults_def)
    show thesis
    proof (cases ?chk)
      case False
      have "got_to_fuse m m2" using False b2 z2 f2 K 2 by (simp add: got_to_fuse_def blank_def)
      then show thesis by (rule fuse) (use R False in simp)
    next
      case chk: True
      have e: "n_sockets m2 (n_next m2) = None" using b2(2) by simp
      obtain ok3 m3 where c: "Rhizofs_check_connection (st_zmq E) t (Some ctx) m2 = Some (ok3, m3)" "checked 0 ok3 m2 m3"
        "n_sockets m3 = n_sockets m2"
        "n_sent m3 = n_sent m2 \<and> \<not> ok3 \<or> (\<exists>s. n_sent m3 = n_sent m2 @ [(s, new_request\<lparr>rq_type := PING\<rparr>)])"
        by (rule check_connection_outcome [OF b2(1) e b2(3)])
      show thesis
      proof (cases ok3)
        case False
        have z3: "cl_pool (reset_errno m3) = zero_pool" using c(2) z2 by (simp add: checked_def net_simps)
        show thesis
          by (rule gave [of 1 "release 1 (reset_errno m3)"])
             (use R chk c False in \<open>auto simp: priv_destroy_blank [OF z3] checked_def net_simps more_faults_def intro!: drop\<close>)
      next
        case True
        have "blank m3" using c(2,3) b2 z2 by (simp add: checked_def blank_def timeout_ok_def)
        moreover have "more_faults {Uninitialised_use, Null_deref} m m3"
          using c(2) by (intro more_faults_trans [OF f2]) (auto simp: checked_def more_faults_def)
        ultimately have "got_to_fuse m m3"
          using c True chk K 2 by (auto simp: got_to_fuse_def checked_def heard_def)
        then show thesis by (rule fuse) (use R c True chk in simp)
      qed
    qed
  qed
qed

lemma client_ends:
  assumes "blank m" "keypair_ok E" "sessions_ok E"
  obtains rc m' where "Rhizofs_fuse_main E t args m = Some (rc, m')" "more_faults client_faults m m'"
proof (rule client_phases [OF assms(1,2), of t args], goal_cases)
  case (1 rc m')
  then show thesis by (intro that [of rc m']) (auto simp: gave_up_def more_faults_def)
next
  case (2 ctx m3)
  then have b: "blank m3" "more_faults client_faults m m3" by (auto simp: got_to_fuse_def more_faults_def)
  obtain rc m4 where f: "fuse_main E args m3 = Some (rc, m4)" "more_faults client_faults m3 m4"
    by (rule fuse_main_ends [OF b(1) assms(3)])
  have "more_faults client_faults m4 (RhizoPriv_destroy (Some ctx) m4)" by (rule priv_destroy_faults) simp
  with b(2) f(2) have "more_faults client_faults m (RhizoPriv_destroy (Some ctx) m4)" by (meson more_faults_trans)
  with 2(3) f(1) show thesis by (intro that [of rc]) auto
qed

section \<open>The command line\<close>

lemma blank_settings:
  "blank m \<Longrightarrow> se_timeout se = se_timeout (cl_settings m) \<Longrightarrow> settings_keys_long se \<Longrightarrow> blank (m\<lparr>cl_settings := se\<rparr>)"
  "blank m \<Longrightarrow> se_timeout se = se_timeout (cl_settings m) \<Longrightarrow> settings_keys_long se \<Longrightarrow> blank ((alloc_next m)\<lparr>cl_settings := se\<rparr>)"
  by (simp_all add: blank_def timeout_ok_def net_simps)

lemma blank_long: "blank m \<Longrightarrow> settings_keys_long (cl_settings m)"
  by (simp add: blank_def)

lemma opt_proc_ends:
  assumes "blank m" "keypair_ok E" "sessions_ok E"
  obtains r m' where "Rhizofs_opt_proc E t arg outargs m = Some (r, m')" "more_faults client_faults m m'"
    "(\<forall>n. r \<noteq> Exited n) \<longrightarrow> blank m'"
proof -
  let ?m = "m\<lparr>cl_settings := (cl_settings m)\<lparr>se_check_socket_connection := False\<rparr>\<rparr>"
  have b: "blank ?m" using assms(1) by (intro blank_settings) (simp_all add: settings_keys_long_def blank_def)
  have shown: "\<exists>m'. map_option (\<lambda>(_, m1). (Exited 0, m1)) (Rhizofs_fuse_main E t args ?m) = Some (Exited 0, m')
      \<and> more_faults client_faults m m'" for args
    by (rule client_ends [OF b assms(2,3), of t args]) (auto simp: more_faults_def)
  have keep: "blank m" "more_faults client_faults m m" using assms(1) by (simp_all add: more_faults_refl)
  show thesis
  proof (cases arg)
    case Key_help
    then show thesis using shown [of "outargs @ [''-ho'']"] by (auto intro: that simp: Rhizofs_opt_proc_def)
  next
    case Key_version
    then show thesis using shown [of "outargs @ [''--version'']"] by (auto intro: that simp: Rhizofs_opt_proc_def)
  next
    case (Key_nonopt name)
    let ?h = "(alloc_next m)\<lparr>cl_settings := (cl_settings m)\<lparr>se_host_socket := (if alloc_ok m then Some name else None)\<rparr>\<rparr>"
    have "blank ?h" using assms(1) by (intro blank_settings) (simp_all add: settings_keys_long_def blank_def)
    moreover have "more_faults client_faults m ?h" by (rule more_faults_refl) (simp add: heap_simps)
    ultimately show thesis using Key_nonopt keep
      by (cases "se_host_socket (cl_settings m) = None")
         (auto intro: that [of Handled ?h] that [of Keep m] simp: Rhizofs_opt_proc_def)
  qed (use keep in \<open>auto intro!: that simp: Rhizofs_opt_proc_def\<close>)
qed

definition parses :: "'w client \<Rightarrow> (int option \<times> string list \<times> 'w client) option \<Rightarrow> bool" where
  "parses m res \<longleftrightarrow> (\<exists>r out m'. res = Some (r, out, m') \<and> more_faults client_faults m m' \<and> (r = None \<longrightarrow> blank m'))"

lemma parses_first: "more_faults client_faults m m1 \<Longrightarrow> parses m1 res \<Longrightarrow> parses m res"
  by (auto simp: parses_def intro: more_faults_trans)

lemma parse_args_step:
  assumes "blank m" "keypair_ok E" "sessions_ok E"
    and "\<And>m1 out1. blank m1 \<Longrightarrow> parses m1 (parse_args E t args out1 m1)"
    and "parse_args E t (arg # args) outargs m = (case Rhizofs_opt_proc E t arg outargs m of
        None \<Rightarrow> None
      | Some (Exited n, m1) \<Rightarrow> Some (Some n, outargs, m1)
      | Some (Handled, m1) \<Rightarrow> parse_args E t args outargs m1
      | Some (Keep, m1) \<Rightarrow> parse_args E t args (outargs @ [arg_text arg]) m1)"
  shows "parses m (parse_args E t (arg # args) outargs m)"
proof (rule opt_proc_ends [OF assms(1-3), of t arg outargs], goal_cases)
  case (1 r m1)
  then show ?case using assms(4,5) parses_first [OF 1(2)] by (cases r) (simp_all add: parses_def)
qed

lemma parse_args_ends:
  assumes "keypair_ok E" "sessions_ok E" "\<forall>k. Opt_pubkey k \<in> set args \<longrightarrow> 39 \<le> length k" "blank m"
  shows "parses m (parse_args E t args outargs m)"
  using assms(3,4)
proof (induction args arbitrary: outargs m)
  case Nil
  then show ?case by (simp add: parses_def more_faults_refl)
next
  case (Cons arg args)
  have set: "parses m (parse_args E t args outargs (m\<lparr>cl_settings := se\<rparr>))"
    if "se_timeout se = se_timeout (cl_settings m)" "settings_keys_long se" for se
    using that Cons.prems by (intro parses_first [OF more_faults_refl Cons.IH] blank_settings) simp_all
  have step: "parses m1 (parse_args E t args out1 m1)" if "blank m1" for m1 out1
    using Cons.prems that by (intro Cons.IH) simp_all
  note long = blank_long [OF Cons.prems(2)]
  show ?case
  proof (cases arg)
    case (Opt_pubkey k)
    then have "39 \<le> length k" using Cons.prems(1) by simp
    with Opt_pubkey long show ?thesis by (auto intro!: set simp: settings_keys_long_def keys_long_def)
  next
    case Key_help
    then show ?thesis by (simp only: parse_args_step [OF Cons.prems(2) assms(1,2) step parse_args.simps(5)])
  next
    case Key_version
    then show ?thesis by (simp only: parse_args_step [OF Cons.prems(2) assms(1,2) step parse_args.simps(6)])
  next
    case (Key_nonopt a)
    then show ?thesis by (simp only: parse_args_step [OF Cons.prems(2) assms(1,2) step parse_args.simps(7)])
  next
    case (Key_other a)
    then show ?thesis by (simp only: parse_args_step [OF Cons.prems(2) assms(1,2) step parse_args.simps(8)])
  qed (use long in \<open>auto intro!: set simp: settings_keys_long_def\<close>)
qed

section \<open>A pool that was freed\<close>

lemma freed_again:
  assumes "sp_socket_name (cl_pool m) \<noteq> None" "sp_name_freed (cl_pool m)"
  shows "faults (pool_deinit m) = faults m @ [Double_free]" "sp_socket_name (cl_pool (pool_deinit m)) \<noteq> None"
    "sp_name_freed (cl_pool (pool_deinit m))"
  using assms by (simp_all add: pool_deinit_def SocketPool_deinit_def free_socket_name_def Let_def net_simps heap_simps)

lemma freed_once:
  assumes "client_ok m"
  shows "sp_socket_name (cl_pool (pool_deinit m)) \<noteq> None" "sp_name_freed (cl_pool (pool_deinit m))"
  using assms by (simp_all add: client_ok_def pool_ok_def pool_deinit_def SocketPool_deinit_def free_socket_name_def
      Let_def net_simps heap_simps)

lemma more_deinit: "heap.more (AttrCache_deinit c h) = heap.more h"
  by (simp add: AttrCache_deinit_def hash_free_nodes_def hash_destroy_def only_heap split: option.split prod.split)

lemma destroyed_freed:
  assumes "client_ok m"
  shows "sp_socket_name (cl_pool (Rhizofs_destroy priv m)) \<noteq> None" "sp_name_freed (cl_pool (Rhizofs_destroy priv m))"
proof -
  let ?m1 = "pool_deinit m"
  let ?m2 = "AttrCache_deinit (cl_cache ?m1) ?m1"
  have "cl_pool ?m2 = cl_pool ?m1" by (rule cl_heap(6)) (rule more_deinit)
  then have f: "sp_socket_name (cl_pool ?m2) \<noteq> None" "sp_name_freed (cl_pool ?m2)" using freed_once [OF assms] by simp_all
  from freed_again(2,3) [OF f]
  show "sp_socket_name (cl_pool (Rhizofs_destroy priv m)) \<noteq> None" "sp_name_freed (cl_pool (Rhizofs_destroy priv m))"
    by (simp_all add: Rhizofs_destroy_def RhizoPriv_destroy_def Let_def net_simps)
qed

section \<open>Properties\<close>

text \<open>A start in which every call succeeds, the server answers by \<open>r\<close> and libfuse makes one call.\<close>

definition demo_env :: "response \<Rightarrow> unit start_env" where
  "demo_env r = \<lparr>st_zmq = answering r, st_file = (\<lambda>_ _. None), st_keypair = (\<lambda>w. (Some (demo_key, demo_key), w)),
     st_session = (\<lambda>_ _. (0, Some [(1, Fuse_rmdir ''/d'')])), st_fuse_version = 29\<rparr>"

lemma demo_env_ok: "sessions_ok (demo_env r)" "keypair_ok (demo_env r)" "st_zmq (demo_env r) = answering r"
  by (simp_all add: sessions_ok_def keypair_ok_def demo_env_def demo_key_def)

lemma demo_blank: "blank demo_mount"
  by (simp add: blank_def demo_mount_def demo_net_def timeout_ok_def settings_keys_long_def keys_long_def
      Rhizofs_settings_init_def)

text \<open>
  C8: the file system is mounted only when the server answers. If the connection is to be checked, then
  whatever the files, the network and the memory do, the client either gives up with status 1, nothing
  open and at most the three key buffers left allocated, or it enters libfuse in a state where it has
  sent exactly one request, a ping, and has received one answer to it, without an error, and the socket of the
  check is closed again.
\<close>

theorem mounts_after_ping:
  assumes "blank m" "keypair_ok E" "se_check_socket_connection (cl_settings m)"
    and "Rhizofs_fuse_main E t args m = Some (rc, m')"
  shows "(rc = 1 \<and> n_sockets m' = n_sockets m \<and> live m \<le> live m' \<and> live m' \<le> live m + 3)
    \<or> (\<exists>s r ctx m3 m4. n_sent m3 = n_sent m @ [(s, new_request\<lparr>rq_type := PING\<rparr>)] \<and> cl_received m3 = cl_received m @ [r]
         \<and> Response_get_errno r = 0 \<and> n_sockets m3 = n_sockets m
         \<and> fuse_main E args m3 = Some (rc, m4) \<and> m' = RhizoPriv_destroy (Some ctx) m4)"
proof (rule client_phases [OF assms(1,2), of t args], goal_cases)
  case (1 rc' m1)
  with assms(4) show ?case by (simp add: gave_up_def)
next
  case (2 ctx m3)
  with assms(3) obtain s r where p: "n_sent m3 = n_sent m @ [(s, new_request\<lparr>rq_type := PING\<rparr>)]"
    "cl_received m3 = cl_received m @ [r]" "Response_get_errno r = 0" "n_sockets m3 = n_sockets m"
    using assms(1) by (auto simp: got_to_fuse_def blank_def)
  from 2(2) assms(4) obtain m4 where "fuse_main E args m3 = Some (rc, m4)" "m' = RhizoPriv_destroy (Some ctx) m4"
    by (cases "fuse_main E args m3") (auto split: prod.splits)
  with p show ?case by blast
qed

lemma demo_ping:
  "Response_get_errno r = 0
     \<Longrightarrow> \<exists>m'. Rhizofs_check_connection (answering r) 1 (Some 1) (demo_mount\<lparr>live := n\<rparr>) = Some (True, m')"
proof -
  have ret: "z_ret (answering r) c m = Inr (case c of Z_filler _ \<Rightarrow> 0 | _ \<Rightarrow> 1)" "z_next (answering r) c m = m"
    "z_recv (answering r) s w = (Inr (Some r), w)" for c s w and m :: "unit client"
    by (simp_all add: z_ret_def z_next_def answering_def split: zcall.split)
  assume "Response_get_errno r = 0"
  then show ?thesis
    by (simp add: Rhizofs_check_connection_def Request_init_def create_socket_def zmq_socket_def zmq_setsockopt_def
        zmq_connect_def demo_mount_def demo_net_def Rhizofs_settings_init_def alloc_ok_def failed_def Let_def ret ping_def
        Rhizofs_communicate_def Request_pack_def send_loop.simps receive_response_def touch_socket_def
        Response_get_errno_def Response_from_message_def net_simps heap_simps)
qed

lemma demo_start:
  obtains m' where "Rhizofs_fuse_main (demo_env empty_response) 1 args demo_mount = Some (0, m')"
proof -
  let ?E = "demo_env empty_response" and ?m1 = "demo_mount\<lparr>live := 1\<rparr>"
  have c: "RhizoPriv_create (st_zmq ?E) demo_mount = (Some 1, ?m1)"
    by (simp add: RhizoPriv_create_def demo_env_ok(3) z_ret_def z_next_def answering_def alloc_next_def alloc_ok_def
        demo_mount_def demo_net_def Let_def)
  have k: "load_keys ?E ?m1 = (True, ?m1)"
    by (simp add: load_keys_def load_server_key_def load_client_keys_def demo_mount_def Rhizofs_settings_init_def)
  obtain m3 where p: "Rhizofs_check_connection (st_zmq ?E) 1 (Some 1) ?m1 = Some (True, m3)"
    using demo_ping [of empty_response 1] by (auto simp: demo_env_ok(3) Response_get_errno_def empty_response_def)
  have "Rhizofs_fuse_main ?E 1 args demo_mount
    = map_option (\<lambda>(rc, m4). (rc, RhizoPriv_destroy (Some 1) m4)) (fuse_main ?E args m3)"
    using p by (simp add: Rhizofs_fuse_main_def c k)
       (simp add: demo_mount_def Rhizofs_settings_init_def)
  moreover have "fst (the (fuse_main ?E args m3)) = 0 \<or> fuse_main ?E args m3 = None"
    by (auto simp: fuse_main_def demo_env_def split: option.split prod.split)
  moreover obtain rc m' where "Rhizofs_fuse_main ?E 1 args demo_mount = Some (rc, m')"
    by (rule client_ends [OF demo_blank demo_env_ok(2,1)])
  ultimately show thesis by (cases "fuse_main ?E args m3") (auto intro: that split: prod.splits)
qed

theorem mounts_after_ping_witness:
  "\<exists>m' s m4 (m3 :: unit client). Rhizofs_fuse_main (demo_env empty_response) 1 [] demo_mount = Some (0, m')
    \<and> n_sent m3 = [(s, new_request\<lparr>rq_type := PING\<rparr>)] \<and> fuse_main (demo_env empty_response) [] m3 = Some (0, m4)"
proof -
  obtain m' where f: "Rhizofs_fuse_main (demo_env empty_response) 1 [] demo_mount = Some (0, m')" by (rule demo_start)
  have "se_check_socket_connection (cl_settings demo_mount)" "n_sent demo_mount = []"
    by (simp_all add: demo_mount_def demo_net_def Rhizofs_settings_init_def)
  with mounts_after_ping [OF demo_blank demo_env_ok(2) _ f] f show ?thesis by auto
qed



lemma init_pool:
  assumes "Rhizofs_init E True m = (Some ctx, m')"
    and "se_client_public_key (cl_settings m) = Some a" "se_client_secret_key (cl_settings m) = Some b"
  shows "sp_server_public_key (cl_pool m') = se_server_public_key (cl_settings m)"
    "sp_client_public_key (cl_pool m') = Some a" "sp_client_secret_key (cl_pool m') = Some b"
    "sp_socket_name (cl_pool m') = se_host_socket (cl_settings m)" "sp_socket_type (cl_pool m') = ZMQ_REQ"
    "sp_specific (cl_pool m') = (\<lambda>_. None)"
proof -
  obtain m1 where p: "RhizoPriv_create E m = (Some ctx, m1)" "cl_settings m1 = cl_settings m"
    using assms(1) by (cases rule: priv_create_cases [of E m]) (auto simp: Rhizofs_init_def Let_def split: option.splits prod.splits if_splits)
  obtain host where host: "se_host_socket (cl_settings m) = Some host"
    using assms(1) p by (auto simp: Rhizofs_init_def split: option.splits)
  obtain made sp m2 where i: "SocketPool_init E ctx host ZMQ_REQ m1 = (made, sp, m2)" by (metis prod_cases3)
  have i2: "cl_settings m2 = cl_settings m1"
    using i by (auto simp: SocketPool_init_def Let_def net_simps zero_pool_def free_socket_name_def
        split: if_splits sum.splits prod.splits)
  define sp1 where "sp1 = keyed_pool (se_server_public_key (cl_settings m)) (Some (a, b)) sp"
  have made "\<exists>cache h. AttrCache_init ATTRCACHE_MAXSIZE ATTRCACHE_DEFAULT_MAXAGE_SEC True (m2\<lparr>cl_pool := sp1\<rparr>) = (Some cache, h)
      \<and> m' = h\<lparr>cl_cache := cache\<rparr>"
    using assms p host i i2 by (auto simp: Rhizofs_init_def Let_def sp1_def split: option.splits prod.splits if_splits)
  then obtain cache h where c: "AttrCache_init ATTRCACHE_MAXSIZE ATTRCACHE_DEFAULT_MAXAGE_SEC True (m2\<lparr>cl_pool := sp1\<rparr>) = (Some cache, h)"
    "m' = h\<lparr>cl_cache := cache\<rparr>" by blast
  have "heap.more h = heap.more (m2\<lparr>cl_pool := sp1\<rparr>)"
    using c(1) by (auto simp: AttrCache_init_def hash_create_def only_heap split: if_splits option.splits prod.splits)
  from cl_heap(6) [OF this] have pool: "cl_pool m' = sp1" by (simp add: c(2))
  obtain key where sp: "sp = zero_pool\<lparr>sp_socket_name := Some host, sp_socket_type := ZMQ_REQ, sp_context := ctx, sp_key := key\<rparr>"
    using i \<open>made\<close> by (auto simp: SocketPool_init_def Let_def split: if_splits sum.splits)
  show "sp_server_public_key (cl_pool m') = se_server_public_key (cl_settings m)"
    "sp_client_public_key (cl_pool m') = Some a" "sp_client_secret_key (cl_pool m') = Some b"
    "sp_socket_name (cl_pool m') = se_host_socket (cl_settings m)" "sp_socket_type (cl_pool m') = ZMQ_REQ"
    "sp_specific (cl_pool m') = (\<lambda>_. None)"
    unfolding pool sp1_def sp
    by (auto simp: keyed_pool_def zero_pool_def host SocketPool_set_server_public_key_def SocketPool_set_client_keypair_def
        split: option.split)
qed



text \<open>
  C38: the name of the socket is freed three times: after a session of a mount, \<^verbatim>\<open>Rhizofs_destroy\<close> frees it
  twice, and when libfuse has returned the client destroys its private data, which frees it again.
\<close>

theorem socket_name_freed_three_times:
  assumes "blank m" "sessions_ok E" "st_session E args (n_world m) = (rc, Some ops)"
    and "Rhizofs_init (st_zmq E) True m = (Some ctx, m1)"
  shows "\<exists>ns m2 m3. fuse_run (st_zmq E) ops m1 = Some (ns, m2) \<and> fuse_main E args m = Some (rc, m3)
    \<and> faults (RhizoPriv_destroy (Some ctx') m3) = faults m2 @ [Double_free, Double_free]"
proof -
  have "snd (st_session E args (n_world m)) = Some ops" using assms(3) by simp
  then have a: "\<forall>(t, op) \<in> set ops. args_ok op" "forgets (st_zmq E)" "time_works (st_zmq E)"
    using assms(2) unfolding sessions_ok_def by blast+
  have "client_ok m1" using init_mounts [OF blank_mountable [OF assms(1)] assms(4)] by blast
  from fuse_run_keeps [OF this a(2,3,1)] obtain ns m2 where r: "fuse_run (st_zmq E) ops m1 = Some (ns, m2)" "client_ok m2"
    by blast
  let ?m3 = "Rhizofs_destroy (Some ctx) m2"
  have "faults ?m3 = faults m2 @ [Double_free]" using unmount_double_free [OF r(2)] by simp
  moreover have "faults (RhizoPriv_destroy (Some ctx') ?m3) = faults ?m3 @ [Double_free]"
    using freed_again(1) [OF destroyed_freed [OF r(2)]] by (simp add: RhizoPriv_destroy_def Let_def heap_simps)
  ultimately show ?thesis using r(1) assms(3,4) by (simp add: fuse_main_def)
qed

theorem socket_name_freed_three_times_witness:
  "\<exists>m1 m2 m3. Rhizofs_init (answering empty_response) True demo_mount = (Some 1, m1)
    \<and> fuse_main (demo_env empty_response) [] demo_mount = Some (0, m3)
    \<and> faults (RhizoPriv_destroy (Some 1) m3) = faults (m2 :: unit client) @ [Double_free, Double_free]"
proof -
  obtain m1 where i: "Rhizofs_init (answering empty_response) True demo_mount = (Some 1, m1)" by (rule demo_init)
  have s: "st_session (demo_env empty_response) [] (n_world demo_mount) = (0, Some [(1, Fuse_rmdir ''/d'')])"
    by (simp add: demo_env_def)
  from socket_name_freed_three_times [OF demo_blank demo_env_ok(1) s, of 1 m1 1] i
  show ?thesis by (auto simp: demo_env_ok(3))
qed

end
