(* ===== verification/Rhizo_Server.thy ===== *)
theory Rhizo_Server
  imports Rhizo_Messages Rhizo_Path "HOL-Library.Sublist"
begin

text \<open>
  Model of \<^verbatim>\<open>src/server/servedir.c\<close>: the operations the server performs for a request, the
  dispatch on the request type and the loop that receives, serves and answers. An operation
  takes the request, the response it fills in and the machine, and returns its C return value,
  the response and the machine. \<open>check\<close> and \<open>check_debug\<close> reset \<^verbatim>\<open>errno\<close> before they jump to
  \<^verbatim>\<open>error\<close>: that is \<open>clear_errno\<close>.

  What is proved: the contract every operation keeps (the memory balance of its response, its
  type, its return value), which system calls it makes on which path, what the answer says, and
  the loop's answer and memory per message.
\<close>

record serve_dir =
  sd_directory :: string
  sd_socket_name :: string

type_synonym 'w op_result = "int \<times> response \<times> 'w mach"

abbreviation (input) default_file_creation_permissions :: mode_t where
  "default_file_creation_permissions \<equiv> 0x1B6"

definition ServeDir_create :: "'w env \<Rightarrow> (string \<Rightarrow> 'w \<Rightarrow> string option) \<Rightarrow> bool \<Rightarrow> bool \<Rightarrow> string \<Rightarrow> string
    \<Rightarrow> 'w mach \<Rightarrow> serve_dir option \<times> 'w mach" where
  \<comment> \<open>\<open>realpath\<close> and whether \<^verbatim>\<open>zmq_socket\<close> and \<^verbatim>\<open>zmq_connect\<close> succeed are parameters; \<^verbatim>\<open>os_lstat\<close> stands for \<^verbatim>\<open>stat\<close>, of which only the format is read\<close>
  "ServeDir_create E realpath socket_ok connect_ok socket_name directory m =
     (if \<not> alloc_ok m then (None, alloc_next m)
      else let m1 = alloc_next m in
        if \<not> alloc_ok m1 then (None, release 1 (alloc_next m1))
        else let m2 = alloc_next m1 in
          case realpath directory (world m2) of
            None \<Rightarrow> (None, release 2 m2)
          | Some dir \<Rightarrow>
             (let m3 = sys_made (Sys_lstat directory) (os_lstat E directory (world m2)) m2 in
              case fst (os_lstat E directory (world m2)) of
                Inl _ \<Rightarrow> (None, release 2 m3)
              | Inr sr \<Rightarrow>
                  (if \<not> (st_mode sr AND S_IFMT = S_IFDIR \<and> socket_ok \<and> connect_ok)
                   then (None, release 2 m3)
                   else (Some \<lparr>sd_directory = dir, sd_socket_name = socket_name\<rparr>, m3))))"

definition ServeDir_destroy :: "serve_dir option \<Rightarrow> 'a heap_scheme \<Rightarrow> 'a heap_scheme" where
  "ServeDir_destroy sd h = (case sd of None \<Rightarrow> h | Some _ \<Rightarrow> release 2 h)"

definition ServeDir_fullpath :: "serve_dir \<Rightarrow> request \<Rightarrow> 'w mach \<Rightarrow> string option \<times> 'w mach" where
  "ServeDir_fullpath sd rq m =
     (if rq_path rq = None then (None, clear_errno m)
      else case path_join (Some (sd_directory sd)) (rq_path rq) m of
        (None, m1) \<Rightarrow> (None, clear_errno m1)
      | (Some p, m1) \<Rightarrow> (Some p, m1))"

text \<open>The block every operation opens with: assemble the path or leave through \<^verbatim>\<open>error\<close>.\<close>

definition with_fullpath :: "serve_dir \<Rightarrow> request \<Rightarrow> response \<Rightarrow> 'w mach
    \<Rightarrow> (string \<Rightarrow> 'w mach \<Rightarrow> 'w op_result) \<Rightarrow> 'w op_result" where
  "with_fullpath sd rq rs m k =
     (case ServeDir_fullpath sd rq m of
        (None, m1) \<Rightarrow> (-1, rs, clear_errno m1)
      | (Some path, m1) \<Rightarrow> k path m1)"

text \<open>A call whose failure is reported in the response.\<close>

definition reported_call :: "'w env \<Rightarrow> (int \<Rightarrow> bool) \<Rightarrow> syscall \<Rightarrow> response \<Rightarrow> 'w mach \<Rightarrow> response \<times> 'w mach" where
  "reported_call E failed c rs m =
     (let m1 = sys_next E c m
      in (if failed (sys_ret E c m) then Response_set_errno (errno m1) rs else rs, m1))"

definition invalid_request :: "response \<Rightarrow> 'w mach \<Rightarrow> 'w op_result" where
  \<comment> \<open>\<^verbatim>\<open>REQ_HAS_OPTIONAL\<close> and \<^verbatim>\<open>REQ_HAS_OPTIONAL_PTR\<close>\<close>
  "invalid_request rs m = (-1, rs\<lparr>rs_errnotype := ERRNO_INVALID_REQUEST\<rparr>, m)"

definition call_and_free :: "'w env \<Rightarrow> (int \<Rightarrow> bool) \<Rightarrow> int \<Rightarrow> syscall \<Rightarrow> response \<Rightarrow> 'w mach \<Rightarrow> 'w op_result" where
  \<comment> \<open>the last argument but three: how many paths are freed before the return of 0\<close>
  "call_and_free E failed n c rs m =
     (let (rs1, m1) = reported_call E failed c rs m in (0, rs1, release n m1))"

section \<open>Operations\<close>

definition ServeDir_op_ping :: "response \<Rightarrow> 'w mach \<Rightarrow> 'w op_result" where
  "ServeDir_op_ping rs m = (0, rs\<lparr>rs_type := PING\<rparr>, m)"

definition ServeDir_op_invalid :: "response \<Rightarrow> 'w mach \<Rightarrow> 'w op_result" where
  "ServeDir_op_invalid rs m =
     (0, rs\<lparr>rs_type := INVALID, rs_errnotype := ERRNO_INVALID_REQUEST\<rparr>, m)"

text \<open>
  READDIR. The loop of the second pass over the directory: the names it is handed are the list;
  \<^verbatim>\<open>directory_entries\<close> has \<open>cap\<close> cells. \<open>False\<close> is the jump to \<^verbatim>\<open>error\<close>, where \<^verbatim>\<open>entry_fullpath\<close> is
  freed too.
\<close>

fun readdir_loop :: "'w env \<Rightarrow> string \<Rightarrow> nat \<Rightarrow> string list \<Rightarrow> response \<Rightarrow> 'w mach
    \<Rightarrow> bool \<times> response \<times> 'w mach" where
  "readdir_loop E dirpath cap [] rs m = (True, rs, m)"
| "readdir_loop E dirpath cap (d_name # names) rs m =
     (case path_join (Some dirpath) (Some d_name) m of
        (None, m1) \<Rightarrow> (False, rs, clear_errno m1)
      | (Some entry_fullpath, m1) \<Rightarrow>
         (let r = os_lstat E entry_fullpath (world m1);
              m2 = sys_made (Sys_lstat entry_fullpath) r m1
          in case fst r of
               Inl _ \<Rightarrow> readdir_loop E dirpath cap names (Response_set_errno (errno m2) rs) (release 1 m2)
             | Inr sb \<Rightarrow>
                (case Attrs_create E sb (Some d_name) m2 of
                   (None, m3) \<Rightarrow>
                     (False, rs, release 1 (clear_errno (store_upto cap (length (rs_entries rs) + 1) m3)))
                 | (Some a, m3) \<Rightarrow>
                     readdir_loop E dirpath cap names (rs\<lparr>rs_entries := rs_entries rs @ [a]\<rparr>)
                       (release 1 (store_upto cap (length (rs_entries rs) + 1) m3)))))"

definition scan_made :: "'w env \<Rightarrow> 'w mach \<Rightarrow> string list \<times> 'w mach" where
  \<comment> \<open>\<^verbatim>\<open>readdir\<close> until NULL\<close>
  "scan_made E m =
     (let (names, w) = os_scan E (world m) in (names, m\<lparr>world := w, calls := calls m @ [Sys_readdir]\<rparr>))"

definition ServeDir_op_readdir :: "'w env \<Rightarrow> serve_dir \<Rightarrow> request \<Rightarrow> response \<Rightarrow> 'w mach \<Rightarrow> 'w op_result" where
  "ServeDir_op_readdir E sd rq rs m =
     (let rs = rs\<lparr>rs_type := READDIR, rs_entries := []\<rparr> in
      with_fullpath sd rq rs m (\<lambda>dirpath m1.
        let m2 = sys_next E (Sys_opendir dirpath) m1 in
        if sys_ret E (Sys_opendir dirpath) m1 = -1
        then (0, Response_set_errno (errno m2) rs, release 1 m2)
        else let (names, m3) = scan_made E m2; entry_count = length names in
          if \<not> alloc_ok m3 then
            (-1, rs\<lparr>rs_errnotype := ERRNO_NOMEM\<rparr>,
             release 1 (sys_next E Sys_closedir (clear_errno (alloc_next m3))))
          else let
            rs = rs\<lparr>rs_entries_block := True\<rparr>;
            m4 = sys_next E Sys_rewinddir (alloc_next m3);
            (names2, m5) = scan_made E m4;
            (ok, rs1, m6) = readdir_loop E dirpath entry_count names2 rs m5
          in if ok then (0, rs1, release 1 (sys_next E Sys_closedir m6))
             else (-1, rs1\<lparr>rs_entries_freed := True\<rparr>,
                   release 1 (sys_next E Sys_closedir
                     (release 1 (fold (\<lambda>a. Attrs_destroy (Some a)) (rs_entries rs1) m6))))))"

definition ServeDir_op_rmdir :: "'w env \<Rightarrow> serve_dir \<Rightarrow> request \<Rightarrow> response \<Rightarrow> 'w mach \<Rightarrow> 'w op_result" where
  "ServeDir_op_rmdir E sd rq rs m =
     (let rs = rs\<lparr>rs_type := RMDIR\<rparr> in
      with_fullpath sd rq rs m (\<lambda>path. call_and_free E (\<lambda>r. r = -1) 1 (Sys_rmdir path) rs))"

definition ServeDir_op_unlink :: "'w env \<Rightarrow> serve_dir \<Rightarrow> request \<Rightarrow> response \<Rightarrow> 'w mach \<Rightarrow> 'w op_result" where
  "ServeDir_op_unlink E sd rq rs m =
     (let rs = rs\<lparr>rs_type := UNLINK\<rparr> in
      with_fullpath sd rq rs m (\<lambda>path. call_and_free E (\<lambda>r. r = -1) 1 (Sys_unlink path) rs))"

definition ServeDir_op_access :: "'w env \<Rightarrow> serve_dir \<Rightarrow> request \<Rightarrow> response \<Rightarrow> 'w mach \<Rightarrow> 'w op_result" where
  "ServeDir_op_access E sd rq rs m =
     (let rs = rs\<lparr>rs_type := ACCESS\<rparr> in
      if rq_permissions rq = None then invalid_request rs m
      else case Permissions_to_bitmask (rq_permissions rq) of
        None \<Rightarrow> (-1, rs, clear_errno m)
      | Some localmode \<Rightarrow>
          with_fullpath sd rq rs m (\<lambda>path. call_and_free E (\<lambda>r. r = -1) 1 (Sys_access path localmode) rs))"

text \<open>RENAME and LINK join \<^verbatim>\<open>path_to\<close> first; on the way out both paths are freed, NULL or not.\<close>

definition with_two_paths :: "serve_dir \<Rightarrow> request \<Rightarrow> response \<Rightarrow> 'w mach
    \<Rightarrow> (string \<Rightarrow> string \<Rightarrow> 'w mach \<Rightarrow> 'w op_result) \<Rightarrow> 'w op_result" where
  "with_two_paths sd rq rs m k =
     (case path_join (Some (sd_directory sd)) (rq_path_to rq) m of
        (None, m1) \<Rightarrow> (-1, rs, clear_errno m1)
      | (Some path_to, m1) \<Rightarrow>
          (case ServeDir_fullpath sd rq m1 of
             (None, m2) \<Rightarrow> (-1, rs, release 1 (clear_errno m2))
           | (Some path_from, m2) \<Rightarrow> k path_from path_to m2))"

definition ServeDir_op_rename :: "'w env \<Rightarrow> serve_dir \<Rightarrow> request \<Rightarrow> response \<Rightarrow> 'w mach \<Rightarrow> 'w op_result" where
  "ServeDir_op_rename E sd rq rs m =
     (let rs = rs\<lparr>rs_type := RENAME\<rparr> in
      if rq_path_to rq = None then invalid_request rs m
      else with_two_paths sd rq rs m (\<lambda>path_from path_to.
        call_and_free E (\<lambda>r. r = -1) 2 (Sys_rename path_from path_to) rs))"

definition ServeDir_op_link :: "'w env \<Rightarrow> serve_dir \<Rightarrow> request \<Rightarrow> response \<Rightarrow> 'w mach \<Rightarrow> 'w op_result" where
  "ServeDir_op_link E sd rq rs m =
     (let rs = rs\<lparr>rs_type := LINK\<rparr> in
      if rq_path_to rq = None then invalid_request rs m
      else with_two_paths sd rq rs m (\<lambda>path_from path_to.
        call_and_free E (\<lambda>r. r = -1) 2 (Sys_link path_from path_to) rs))"

definition ServeDir_op_symlink :: "'w env \<Rightarrow> serve_dir \<Rightarrow> request \<Rightarrow> response \<Rightarrow> 'w mach \<Rightarrow> 'w op_result" where
  "ServeDir_op_symlink E sd rq rs m =
     (let rs = rs\<lparr>rs_type := LINK\<rparr> in
      case rq_path_to rq of
        None \<Rightarrow> invalid_request rs m
      | Some path_to \<Rightarrow>
          with_fullpath sd rq rs m (\<lambda>path_from.
            call_and_free E (\<lambda>r. r = -1) 1 (Sys_symlink path_to path_from) rs))"

definition ServeDir_op_readlink :: "'w env \<Rightarrow> serve_dir \<Rightarrow> request \<Rightarrow> response \<Rightarrow> 'w mach \<Rightarrow> 'w op_result" where
  "ServeDir_op_readlink E sd rq rs m =
     (let rs = rs\<lparr>rs_type := READLINK\<rparr> in
      with_fullpath sd rq rs m (\<lambda>path m1.
        let r = os_readlink E path (PATH_MAX - 1) (world m1);
            m2 = sys_made (Sys_readlink path (PATH_MAX - 1)) r m1
        in case fst r of
             Inl _ \<Rightarrow> (0, Response_set_errno (errno m2) rs, release 1 m2)
           | Inr target \<Rightarrow>
               (let m3 = store_upto PATH_MAX (length target + 1) m2 in
                if \<not> alloc_ok m3 then (-1, rs, release 1 (clear_errno (alloc_next m3)))
                else (0, rs\<lparr>rs_link_target := Some target\<rparr>, release 1 (alloc_next m3)))))"

definition ServeDir_op_mkdir :: "'w env \<Rightarrow> serve_dir \<Rightarrow> request \<Rightarrow> response \<Rightarrow> 'w mach \<Rightarrow> 'w op_result" where
  "ServeDir_op_mkdir E sd rq rs m =
     (let rs = rs\<lparr>rs_type := MKDIR\<rparr> in
      if rq_permissions rq = None then invalid_request rs m
      else case Permissions_to_bitmask (rq_permissions rq) of
        None \<Rightarrow> (-1, rs, clear_errno m)
      | Some localmode \<Rightarrow>
          with_fullpath sd rq rs m (\<lambda>path. call_and_free E (\<lambda>r. r = -1) 1 (Sys_mkdir path localmode) rs))"

definition ServeDir_op_getattr :: "'w env \<Rightarrow> serve_dir \<Rightarrow> request \<Rightarrow> response \<Rightarrow> 'w mach \<Rightarrow> 'w op_result" where
  "ServeDir_op_getattr E sd rq rs m =
     (let rs = rs\<lparr>rs_type := GETATTR\<rparr> in
      with_fullpath sd rq rs m (\<lambda>path m1.
        let r = os_lstat E path (world m1); m2 = sys_made (Sys_lstat path) r m1 in
        case fst r of
          Inl _ \<Rightarrow> (0, Response_set_errno (errno m2) rs, release 1 m2)
        | Inr sb \<Rightarrow>
            (case Attrs_create E sb None m2 of
               (None, m3) \<Rightarrow> (-1, rs\<lparr>rs_attrs := None\<rparr>, release 1 (clear_errno m3))
             | (Some a, m3) \<Rightarrow> (0, rs\<lparr>rs_attrs := Some a\<rparr>, release 1 m3))))"

definition ServeDir_op_open :: "'w env \<Rightarrow> serve_dir \<Rightarrow> request \<Rightarrow> response \<Rightarrow> 'w mach \<Rightarrow> 'w op_result" where
  "ServeDir_op_open E sd rq rs m =
     (let rs = rs\<lparr>rs_type := OPEN\<rparr> in
      case OpenFlags_to_bitmask (rq_openflags rq) of
        None \<Rightarrow> invalid_request rs m
      | Some openflags \<Rightarrow>
          with_fullpath sd rq rs m (\<lambda>path m1.
            let c = Sys_open path openflags default_file_creation_permissions;
                fd = sys_ret E c m1; m2 = sys_next E c m1
            in if fd < 0 then (-1, Response_set_errno (errno m2) rs, release 1 (clear_errno m2))
               else (0, rs, release 1 (sys_next E (Sys_close fd) m2))))"

definition ServeDir_op_read :: "'w env \<Rightarrow> serve_dir \<Rightarrow> request \<Rightarrow> response \<Rightarrow> 'w mach \<Rightarrow> 'w op_result" where
  "ServeDir_op_read E sd rq rs m =
     (let rs = rs\<lparr>rs_type := READ\<rparr> in
      case rq_size rq of None \<Rightarrow> invalid_request rs m | Some sz \<Rightarrow>
      (case rq_offset rq of None \<Rightarrow> invalid_request rs m | Some offset \<Rightarrow>
       with_fullpath sd rq rs m (\<lambda>path m1.
        let c = Sys_open path O_RDONLY 0; fd = sys_ret E c m1; m2 = sys_next E c m1 in
        if fd = -1 then (0, Response_set_errno (errno m2) rs, release 1 m2)
        else let
          cap = size_t (int32 sz);
          m3 = calloc_next cap m2
        in if \<not> calloc_ok cap m2 then
             (-1, rs, release 1 (if fd \<ge> 0 then sys_next E (Sys_close fd) (clear_errno m3) else clear_errno m3))
           else let
             rc = (if offset = 0 then Sys_read fd (size_t sz) else Sys_pread fd (size_t sz) offset);
             r = os_read E rc (world m3);
             m4 = sys_made rc r m3
           in case fst r of
                Inl _ \<Rightarrow>
                  (0, Response_set_errno (errno m4) rs,
                   release 1 (sys_next E (Sys_close fd) (release 1 m4)))
              | Inr bytes \<Rightarrow>
                  (let (ok, rs1, m5) = Response_set_data rs bytes (store_upto cap (length bytes) m4) in
                   if ok then (0, rs1, release 2 (sys_next E (Sys_close fd) m5))
                   else (-1, rs1, release 1 (if fd \<ge> 0 then sys_next E (Sys_close fd) (release 1 (clear_errno m5))
                                             else release 1 (clear_errno m5)))))))"

definition ServeDir_op_write :: "'w env \<Rightarrow> serve_dir \<Rightarrow> request \<Rightarrow> response \<Rightarrow> 'w mach \<Rightarrow> 'w op_result" where
  "ServeDir_op_write E sd rq rs m =
     (let rs = rs\<lparr>rs_type := WRITE\<rparr> in
      case rq_size rq of None \<Rightarrow> invalid_request rs m | Some sz \<Rightarrow>
      (case rq_offset rq of None \<Rightarrow> invalid_request rs m | Some offset \<Rightarrow>
       if Request_has_data rq = -1 then invalid_request rs m
       else with_fullpath sd rq rs m (\<lambda>path m1.
        let c = Sys_open path (O_CREAT OR O_WRONLY) default_file_creation_permissions;
            fd = sys_ret E c m1; m2 = sys_next E c m1;
            close_fd = (\<lambda>m. if fd \<ge> 0 then sys_next E (Sys_close fd) m else m)
        in if fd = -1 then (0, Response_set_errno (errno m2) rs, release 1 (clear_errno m2))
        else case DataBlock_get_data (the (rq_datablock rq)) m2 of
          (None, m3) \<Rightarrow> (-1, rs, release 1 (close_fd (clear_errno m3)))
        | (Some (bytes_in_block, data), m3) \<Rightarrow>
            (if bytes_in_block \<noteq> sz then (-1, rs, release 2 (close_fd (clear_errno m3)))
             else let
               wc = Sys_pwrite fd (take (size_t sz) data) offset;
               bytes_written = sys_ret E wc m3;
               m4 = sys_next E wc m3;
               rs1 = (if bytes_written = -1 then Response_set_errno (errno m4) rs else rs);
               m5 = (if bytes_written = -1 then clear_errno m4 else m4);
               rs2 = rs1\<lparr>rs_size := Some (int32 bytes_written)\<rparr>;
               m6 = sys_next E (Sys_close fd) m5
             in if sys_ret E (Sys_close fd) m5 = -1
                then (-1, rs2, release 2 (close_fd (clear_errno m6)))
                else let now = os_now E (world m6)
                  in (0, rs2, release 2 (sys_next E (Sys_utimes path (now, now)) m6))))))"

definition ServeDir_op_create :: "'w env \<Rightarrow> serve_dir \<Rightarrow> request \<Rightarrow> response \<Rightarrow> 'w mach \<Rightarrow> 'w op_result" where
  "ServeDir_op_create E sd rq rs m =
     (let rs = rs\<lparr>rs_type := CREATE\<rparr> in
      if rq_permissions rq = None then invalid_request rs m
      else case Permissions_to_bitmask (rq_permissions rq) of
        None \<Rightarrow> (-1, rs, clear_errno m)
      | Some create_mode \<Rightarrow>
          with_fullpath sd rq rs m (\<lambda>path m1.
            let c = Sys_creat path (create_mode OR S_IWUSR);
                fd = sys_ret E c m1; m2 = sys_next E c m1
            in if fd = -1 then (-1, Response_set_errno (errno m2) rs, release 1 (clear_errno m2))
               else (0, rs, release 1 (sys_next E (Sys_close fd) m2))))"

definition ServeDir_op_truncate :: "'w env \<Rightarrow> serve_dir \<Rightarrow> request \<Rightarrow> response \<Rightarrow> 'w mach \<Rightarrow> 'w op_result" where
  "ServeDir_op_truncate E sd rq rs m =
     (let rs = rs\<lparr>rs_type := TRUNCATE\<rparr> in
      case rq_offset rq of
        None \<Rightarrow> invalid_request rs m
      | Some offset \<Rightarrow>
          with_fullpath sd rq rs m (\<lambda>path. call_and_free E (\<lambda>r. r \<noteq> 0) 1 (Sys_truncate path offset) rs))"

definition ServeDir_op_chmod :: "'w env \<Rightarrow> serve_dir \<Rightarrow> request \<Rightarrow> response \<Rightarrow> 'w mach \<Rightarrow> 'w op_result" where
  "ServeDir_op_chmod E sd rq rs m =
     (let rs = rs\<lparr>rs_type := CHMOD\<rparr> in
      if rq_permissions rq = None then invalid_request rs m
      else case Permissions_to_bitmask (rq_permissions rq) of
        None \<Rightarrow> (-1, rs, clear_errno m)
      | Some localmode \<Rightarrow>
          with_fullpath sd rq rs m (\<lambda>path. call_and_free E (\<lambda>r. r \<noteq> 0) 1 (Sys_chmod path localmode) rs))"

definition ServeDir_op_utimens :: "'w env \<Rightarrow> serve_dir \<Rightarrow> request \<Rightarrow> response \<Rightarrow> 'w mach \<Rightarrow> 'w op_result" where
  "ServeDir_op_utimens E sd rq rs m =
     (let rs = rs\<lparr>rs_type := UTIMENS\<rparr> in
      case rq_timestamps rq of
        None \<Rightarrow> invalid_request rs m
      | Some ts \<Rightarrow>
          with_fullpath sd rq rs m (\<lambda>path. call_and_free E (\<lambda>r. r \<noteq> 0) 1
            (Sys_utimes path ((ts_access_sec ts, ts_access_usec ts), (ts_modify_sec ts, ts_modify_usec ts))) rs))"

definition ServeDir_op_mknod :: "'w env \<Rightarrow> serve_dir \<Rightarrow> request \<Rightarrow> response \<Rightarrow> 'w mach \<Rightarrow> 'w op_result" where
  "ServeDir_op_mknod E sd rq rs m =
     (let rs = rs\<lparr>rs_type := MKNOD\<rparr> in
      if rq_permissions rq = None then invalid_request rs m
      else case rq_filetype rq of None \<Rightarrow> invalid_request rs m | Some filetype \<Rightarrow>
      (case Permissions_to_bitmask (rq_permissions rq) of
         None \<Rightarrow> (-1, rs, clear_errno m)
       | Some permissions \<Rightarrow>
          (let mode = permissions OR FileType_to_local filetype in
           if S_ISREG mode then
             with_fullpath sd rq rs m (\<lambda>path. call_and_free E (\<lambda>r. r \<noteq> 0) 1 (Sys_mknod path mode) rs)
           else (0, Response_set_errno EPERM rs, m))))"

definition ServeDir_op_statfs :: "'w env \<Rightarrow> serve_dir \<Rightarrow> request \<Rightarrow> response \<Rightarrow> 'w mach \<Rightarrow> 'w op_result" where
  "ServeDir_op_statfs E sd rq rs m =
     (let rs = rs\<lparr>rs_type := STATFS\<rparr> in
      with_fullpath sd rq rs m (\<lambda>path m1.
        let r = os_statvfs E path (world m1); m2 = sys_made (Sys_statvfs path) r m1 in
        case fst r of
          Inl _ \<Rightarrow> (0, Response_set_errno (errno m2) rs, release 1 m2)
        | Inr stfs \<Rightarrow>
            (case StatFs_create stfs m2 of
               (None, m3) \<Rightarrow> (-1, rs\<lparr>rs_statfs := None\<rparr>, release 1 (clear_errno m3))
             | (Some s, m3) \<Rightarrow> (0, rs\<lparr>rs_statfs := Some s\<rparr>, release 1 m3))))"

section \<open>Dispatch and loop\<close>

definition dispatch :: "'w env \<Rightarrow> serve_dir \<Rightarrow> request \<Rightarrow> response \<Rightarrow> 'w mach \<Rightarrow> 'w op_result" where
  "dispatch E sd rq rs m =
     (case rq_type rq of
        PING \<Rightarrow> ServeDir_op_ping rs m
      | READDIR \<Rightarrow> ServeDir_op_readdir E sd rq rs m
      | RMDIR \<Rightarrow> ServeDir_op_rmdir E sd rq rs m
      | UNLINK \<Rightarrow> ServeDir_op_unlink E sd rq rs m
      | ACCESS \<Rightarrow> ServeDir_op_access E sd rq rs m
      | RENAME \<Rightarrow> ServeDir_op_rename E sd rq rs m
      | MKDIR \<Rightarrow> ServeDir_op_mkdir E sd rq rs m
      | GETATTR \<Rightarrow> ServeDir_op_getattr E sd rq rs m
      | OPEN \<Rightarrow> ServeDir_op_open E sd rq rs m
      | READ \<Rightarrow> ServeDir_op_read E sd rq rs m
      | WRITE \<Rightarrow> ServeDir_op_write E sd rq rs m
      | CREATE \<Rightarrow> ServeDir_op_create E sd rq rs m
      | TRUNCATE \<Rightarrow> ServeDir_op_truncate E sd rq rs m
      | CHMOD \<Rightarrow> ServeDir_op_chmod E sd rq rs m
      | UTIMENS \<Rightarrow> ServeDir_op_utimens E sd rq rs m
      | LINK \<Rightarrow> ServeDir_op_link E sd rq rs m
      | SYMLINK \<Rightarrow> ServeDir_op_symlink E sd rq rs m
      | READLINK \<Rightarrow> ServeDir_op_readlink E sd rq rs m
      | MKNOD \<Rightarrow> ServeDir_op_mknod E sd rq rs m
      | STATFS \<Rightarrow> ServeDir_op_statfs E sd rq rs m
      | _ \<Rightarrow> ServeDir_op_invalid rs m)"

text \<open>
  What \<^verbatim>\<open>zmq_msg_recv\<close> hands the loop: a message, unpacked or not, with the outcome of sending
  the answer, or an error number. The list of events is what happens while the loop runs; after
  it the loop is still waiting, unless it returned.
\<close>

datatype zmq_event = Received "request option" bool | Recv_failed int

datatype serve_state = Serving | Returned bool

definition answer :: "'w env \<Rightarrow> serve_dir \<Rightarrow> request option \<Rightarrow> response \<Rightarrow> 'w mach \<Rightarrow> response \<times> 'w mach" where
  "answer E sd rq rs m =
     (case rq of
        None \<Rightarrow> (rs\<lparr>rs_type := UNKNOWN, rs_errnotype := ERRNO_UNSERIALIZABLE\<rparr>, m)
      | Some request \<Rightarrow> snd (dispatch E sd request rs (clear_errno m)))"

fun ServeDir_serve :: "'w env \<Rightarrow> serve_dir \<Rightarrow> zmq_event list \<Rightarrow> 'w mach
    \<Rightarrow> response list \<times> serve_state \<times> 'w mach" where
  "ServeDir_serve E sd [] m = ([], Serving, m)"
| "ServeDir_serve E sd (Recv_failed e # evs) m =
     (if e = ETERM then ([], Returned True, m) else ServeDir_serve E sd evs m)"
| "ServeDir_serve E sd (Received rq sent # evs) m =
     (case Response_create m of
        (None, m1) \<Rightarrow> ([], Returned False, m1)
      | (Some rs0, m1) \<Rightarrow>
         (let (rs, m2) = answer E sd rq rs0 m1 in
          case Response_pack rs m2 of
            (None, m3) \<Rightarrow> ([], Returned False, Response_destroy (Some rs) m3)
          | (Some packed, m3) \<Rightarrow>
             (if \<not> sent then ([], Returned False, Response_destroy (Some rs) m3)
              else let (rest, st, m4) = ServeDir_serve E sd evs (Response_destroy (Some rs) m3)
                in (packed # rest, st, m4))))"

section \<open>The contract of an operation\<close>

text \<open>Which paths a system call is given, and that they lie below the shared directory.\<close>

fun call_paths :: "syscall \<Rightarrow> string list" where
  "call_paths (Sys_access p _) = [p]"
| "call_paths (Sys_chmod p _) = [p]"
| "call_paths (Sys_creat p _) = [p]"
| "call_paths (Sys_link p q) = [p, q]"
| "call_paths (Sys_lstat p) = [p]"
| "call_paths (Sys_mkdir p _) = [p]"
| "call_paths (Sys_mknod p _) = [p]"
| "call_paths (Sys_open p _ _) = [p]"
| "call_paths (Sys_opendir p) = [p]"
| "call_paths (Sys_readlink p _) = [p]"
| "call_paths (Sys_rename p q) = [p, q]"
| "call_paths (Sys_rmdir p) = [p]"
| "call_paths (Sys_statvfs p) = [p]"
| "call_paths (Sys_symlink _ q) = [q]"
| "call_paths (Sys_truncate p _) = [p]"
| "call_paths (Sys_unlink p) = [p]"
| "call_paths (Sys_utimes p _) = [p]"
| "call_paths _ = []"

definition below :: "serve_dir \<Rightarrow> string \<Rightarrow> bool" where
  "below sd p \<longleftrightarrow> (\<exists>cs. components p = components (sd_directory sd) @ cs)"

definition calls_below :: "serve_dir \<Rightarrow> 'w mach \<Rightarrow> 'w mach \<Rightarrow> bool" where
  "calls_below sd m m' \<longleftrightarrow>
     (\<exists>new. calls m' = calls m @ new \<and> (\<forall>c \<in> set new. \<forall>p \<in> set (call_paths c). below sd p))"

lemma below_joined [simp]: "below sd (joined (sd_directory sd) q)"
  by (simp add: below_def components_joined)

lemma below_entry [simp]: "below sd p \<Longrightarrow> below sd (joined p q)"
  by (auto simp: below_def components_joined)

lemma calls_below_refl [simp]: "calls m' = calls m \<Longrightarrow> calls_below sd m m'"
  by (simp add: calls_below_def)

lemma calls_below_trans: "calls_below sd m m1 \<Longrightarrow> calls_below sd m1 m2 \<Longrightarrow> calls_below sd m m2"
  by (fastforce simp: calls_below_def)

lemma calls_below_frame [sys_simps]:
  "calls_below sd m (release n m') = calls_below sd m m'" "calls_below sd (release n m) m' = calls_below sd m m'"
  "calls_below sd m (alloc_next m') = calls_below sd m m'" "calls_below sd (alloc_next m) m' = calls_below sd m m'"
  "calls_below sd m (clear_errno m') = calls_below sd m m'" "calls_below sd (clear_errno m) m' = calls_below sd m m'"
  "calls_below sd m (store_upto a b m') = calls_below sd m m'" "calls_below sd (store_upto a b m) m' = calls_below sd m m'"
  "calls_below sd m (add_fault f m') = calls_below sd m m'"
  by (simp_all add: calls_below_def sys_simps)

lemma calls_below_step:
  "calls m' = calls mid @ new \<Longrightarrow> calls_below sd m mid \<Longrightarrow>
     (\<forall>c \<in> set new. \<forall>p \<in> set (call_paths c). below sd p) \<Longrightarrow> calls_below sd m m'"
  unfolding calls_below_def by (metis Un_iff append.assoc set_append)

text \<open>
  \<open>op_ok sd n rs m res\<close>: from the machine \<open>m\<close>, in which the operation owns \<open>n\<close> blocks besides
  those of the response \<open>rs\<close>, it ends with a response that accounts for every block, of the same
  type and version, with usable directory entries if it returned 0, and having given the system
  only paths below the shared directory.
\<close>

definition op_ok :: "serve_dir \<Rightarrow> int \<Rightarrow> response \<Rightarrow> 'w mach \<Rightarrow> 'w op_result \<Rightarrow> bool" where
  "op_ok sd n rs m res \<longleftrightarrow>
     (case res of (rc, rs', m') \<Rightarrow>
        live m' - response_blocks rs' = live m - n - response_blocks rs
        \<and> rs_type rs' = rs_type rs \<and> rs_version rs' = rs_version rs
        \<and> (rc = 0 \<and> entries_usable rs \<longrightarrow> entries_usable rs') \<and> (rc = 0 \<or> rc = -1)
        \<and> (entries_owned rs \<longrightarrow> entries_owned rs') \<and> (outcomes m = [] \<longrightarrow> outcomes m' = [])
        \<and> calls_below sd m m')"

lemma ServeDir_fullpath_cases:
  obtains (fail) m' where "ServeDir_fullpath sd rq m = (None, m')" "rq_path rq = None \<or> \<not> alloc_ok m"
      "live m' = live m" "faults m' = faults m" "calls m' = calls m" "world m' = world m"
      "outcomes m = [] \<longrightarrow> outcomes m' = []"
  | (ok) q m' where "rq_path rq = Some q" "alloc_ok m"
      "ServeDir_fullpath sd rq m = (Some (joined (sd_directory sd) q), m')"
      "live m' = live m + 1" "calls m' = calls m" "world m' = world m" "errno m' = errno m"
      "outcomes m' = tl (outcomes m)"
      "faults m' = faults m @ (if join_overflows (sd_directory sd) q then [Buffer_overflow] else [])"
proof (cases "rq_path rq = None \<or> \<not> alloc_ok m")
  case True
  then show thesis
    by (intro fail [of "snd (ServeDir_fullpath sd rq m)"])
       (auto simp: ServeDir_fullpath_def path_join_nomem heap_simps sys_simps)
next
  case False
  then show thesis
    by (intro ok [of "the (rq_path rq)" "snd (ServeDir_fullpath sd rq m)"])
       (auto simp: ServeDir_fullpath_def path_join_ok heap_simps sys_simps)
qed

lemma with_fullpath_cases:
  obtains (fail) m' where "with_fullpath sd rq rs m k = (-1, rs, m')" "rq_path rq = None \<or> \<not> alloc_ok m"
      "live m' = live m" "faults m' = faults m" "calls m' = calls m" "world m' = world m"
      "outcomes m = [] \<longrightarrow> outcomes m' = []"
  | (ok) q m' where "rq_path rq = Some q" "alloc_ok m"
      "with_fullpath sd rq rs m k = k (joined (sd_directory sd) q) m'"
      "live m' = live m + 1" "calls m' = calls m" "world m' = world m" "errno m' = errno m"
      "outcomes m' = tl (outcomes m)"
      "faults m' = faults m @ (if join_overflows (sd_directory sd) q then [Buffer_overflow] else [])"
  by (rule ServeDir_fullpath_cases [of sd rq m])
     (auto intro: that simp: with_fullpath_def heap_simps sys_simps)

lemma op_ok_fullpath:
  assumes "\<And>q m1. live m1 = live m + 1 \<Longrightarrow> calls m1 = calls m \<Longrightarrow> outcomes m1 = tl (outcomes m) \<Longrightarrow> op_ok sd 1 rs m1 (k (joined (sd_directory sd) q) m1)"
  shows "op_ok sd 0 rs m (with_fullpath sd rq rs m k)"
proof (rule with_fullpath_cases [of sd rq rs m k], goal_cases)
  case (1 m')
  then show ?thesis by (simp add: op_ok_def)
next
  case (2 q m')
  with assms [of m' q] show ?thesis by (auto simp: op_ok_def calls_below_def)
qed

lemma op_ok_two_paths:
  assumes "\<And>q1 q2 m1. live m1 = live m + 2 \<Longrightarrow> calls m1 = calls m \<Longrightarrow> outcomes m1 = tl (tl (outcomes m)) \<Longrightarrow>
      op_ok sd 2 rs m1 (k (joined (sd_directory sd) q1) (joined (sd_directory sd) q2) m1)"
  shows "op_ok sd 0 rs m (with_two_paths sd rq rs m k)"
proof (cases "rq_path_to rq = None \<or> \<not> alloc_ok m")
  case True
  then show ?thesis
    by (cases "rq_path_to rq")
       (auto simp: with_two_paths_def op_ok_def path_join_nomem heap_simps sys_simps)
next
  case False
  then obtain q2 m1 where j: "path_join (Some (sd_directory sd)) (rq_path_to rq) m
      = (Some (joined (sd_directory sd) q2), m1)" "live m1 = live m + 1" "calls m1 = calls m"
      "outcomes m1 = tl (outcomes m)"
    by (auto simp: path_join_ok heap_simps sys_simps)
  show ?thesis
  proof (rule ServeDir_fullpath_cases [of sd rq m1], goal_cases)
    case (1 m')
    with j show ?thesis by (simp add: with_two_paths_def op_ok_def heap_simps sys_simps)
  next
    case (2 q1 m')
    with j assms [of m' q1 q2] show ?thesis
      by (auto simp: with_two_paths_def op_ok_def calls_below_def)
  qed
qed

lemma op_ok_invalid: "op_ok sd 0 rs m (invalid_request rs m)"
  by (simp add: op_ok_def invalid_request_def response_blocks_def entries_defs)

lemma op_ok_return: "op_ok sd 0 rs m (-1, rs, clear_errno m)"
  by (simp add: op_ok_def sys_simps)

lemma op_ok_call:
  assumes "\<forall>p \<in> set (call_paths c). below sd p"
  shows "op_ok sd n rs m (call_and_free E f n c rs m)"
  using assms
  by (auto simp: op_ok_def call_and_free_def reported_call_def Let_def heap_simps sys_simps calls_below_def)

lemmas op_ok_rules = op_ok_fullpath op_ok_two_paths op_ok_invalid op_ok_return op_ok_call

section \<open>Every operation keeps the contract\<close>

lemma posix_group_calls:
  "calls_below sd m (snd (posix_current_user_in_group E gid m))
   \<and> (outcomes m = [] \<longrightarrow> outcomes (snd (posix_current_user_in_group E gid m)) = [])"
  by (auto simp: posix_current_user_in_group_def Let_def heap_simps sys_simps calls_below_def split: sum.splits)

lemma Permissions_create_calls:
  fixes m :: "'w mach"
  shows "calls (snd (Permissions_create mode m)) = calls m
    \<and> (outcomes m = [] \<longrightarrow> outcomes (snd (Permissions_create mode m)) = [])"
  by (cases "alloc_ok m"; cases "alloc_ok (alloc_next m)"; cases "alloc_ok (alloc_next (alloc_next m))";
      cases "alloc_ok (alloc_next (alloc_next (alloc_next m)))")
     (simp_all add: Permissions_create_def Let_def sys_simps heap_simps)

lemma Attrs_create_calls: "calls_below sd m (snd (Attrs_create E sb name m))
  \<and> (outcomes m = [] \<longrightarrow> outcomes (snd (Attrs_create E sb name m)) = [])"
proof -
  let ?m2 = "if name = None then alloc_next m else alloc_next (alloc_next m)"
  obtain p m3 where p: "Permissions_create (st_mode sb) ?m2 = (p, m3)" by fastforce
  then have m3: "calls m3 = calls m" "outcomes m = [] \<longrightarrow> outcomes m3 = []"
    using Permissions_create_calls [of "st_mode sb" ?m2] by (simp_all add: sys_simps heap_simps split: if_splits)
  obtain g m5 where g: "posix_current_user_in_group E (st_gid sb) (alloc_next m3) = (g, m5)" by fastforce
  then have "calls_below sd m m5" "outcomes m = [] \<longrightarrow> outcomes m5 = []"
    using posix_group_calls [of sd "alloc_next m3" E "st_gid sb"] m3
    by (simp_all add: calls_below_def sys_simps heap_simps)
  then show ?thesis
    using p m3 g by (auto simp: Attrs_create_def Let_def TimeSet_create_def calls_below_def sys_simps heap_simps)
qed

lemma ping_ok: "op_ok sd 0 (rs\<lparr>rs_type := PING\<rparr>) m (ServeDir_op_ping rs m)"
  by (simp add: op_ok_def ServeDir_op_ping_def)

lemma invalid_ok: "op_ok sd 0 (rs\<lparr>rs_type := INVALID\<rparr>) m (ServeDir_op_invalid rs m)"
  by (simp add: op_ok_def ServeDir_op_invalid_def response_blocks_def entries_defs)

lemma rmdir_ok: "op_ok sd 0 (rs\<lparr>rs_type := RMDIR\<rparr>) m (ServeDir_op_rmdir E sd rq rs m)"
  unfolding ServeDir_op_rmdir_def Let_def by (intro op_ok_rules) simp

lemma unlink_ok: "op_ok sd 0 (rs\<lparr>rs_type := UNLINK\<rparr>) m (ServeDir_op_unlink E sd rq rs m)"
  unfolding ServeDir_op_unlink_def Let_def by (intro op_ok_rules) simp

lemma access_ok: "op_ok sd 0 (rs\<lparr>rs_type := ACCESS\<rparr>) m (ServeDir_op_access E sd rq rs m)"
  unfolding ServeDir_op_access_def Let_def
  by (auto intro!: op_ok_rules split: option.split)

lemma rename_ok: "op_ok sd 0 (rs\<lparr>rs_type := RENAME\<rparr>) m (ServeDir_op_rename E sd rq rs m)"
  unfolding ServeDir_op_rename_def Let_def by (auto intro!: op_ok_rules)

lemma link_ok: "op_ok sd 0 (rs\<lparr>rs_type := LINK\<rparr>) m (ServeDir_op_link E sd rq rs m)"
  unfolding ServeDir_op_link_def Let_def by (auto intro!: op_ok_rules)

lemma symlink_ok: "op_ok sd 0 (rs\<lparr>rs_type := LINK\<rparr>) m (ServeDir_op_symlink E sd rq rs m)"
  unfolding ServeDir_op_symlink_def Let_def by (auto intro!: op_ok_rules split: option.split)

lemma mkdir_ok: "op_ok sd 0 (rs\<lparr>rs_type := MKDIR\<rparr>) m (ServeDir_op_mkdir E sd rq rs m)"
  unfolding ServeDir_op_mkdir_def Let_def by (auto intro!: op_ok_rules split: option.split)

lemma chmod_ok: "op_ok sd 0 (rs\<lparr>rs_type := CHMOD\<rparr>) m (ServeDir_op_chmod E sd rq rs m)"
  unfolding ServeDir_op_chmod_def Let_def by (auto intro!: op_ok_rules split: option.split)

lemma truncate_ok: "op_ok sd 0 (rs\<lparr>rs_type := TRUNCATE\<rparr>) m (ServeDir_op_truncate E sd rq rs m)"
  unfolding ServeDir_op_truncate_def Let_def by (auto intro!: op_ok_rules split: option.split)

lemma utimens_ok: "op_ok sd 0 (rs\<lparr>rs_type := UTIMENS\<rparr>) m (ServeDir_op_utimens E sd rq rs m)"
  unfolding ServeDir_op_utimens_def Let_def by (auto intro!: op_ok_rules split: option.split)

lemma mknod_ok: "op_ok sd 0 (rs\<lparr>rs_type := MKNOD\<rparr>) m (ServeDir_op_mknod E sd rq rs m)"
  unfolding ServeDir_op_mknod_def Let_def
  by (auto intro!: op_ok_rules split: option.split) (simp add: op_ok_def)

lemma open_ok: "op_ok sd 0 (rs\<lparr>rs_type := OPEN\<rparr>) m (ServeDir_op_open E sd rq rs m)"
  unfolding ServeDir_op_open_def Let_def
  by (auto intro!: op_ok_rules split: option.split)
     (auto simp: op_ok_def heap_simps sys_simps calls_below_def)

lemma create_ok: "op_ok sd 0 (rs\<lparr>rs_type := CREATE\<rparr>) m (ServeDir_op_create E sd rq rs m)"
  unfolding ServeDir_op_create_def Let_def
  by (auto intro!: op_ok_rules split: option.split)
     (auto simp: op_ok_def heap_simps sys_simps calls_below_def)

lemma readlink_ok: "op_ok sd 0 (rs\<lparr>rs_type := READLINK\<rparr>) m (ServeDir_op_readlink E sd rq rs m)"
  if "rs_link_target rs = None"
  unfolding ServeDir_op_readlink_def Let_def
  by (intro op_ok_fullpath)
     (use that in \<open>auto simp: op_ok_def heap_simps sys_simps calls_below_def response_blocks_def entries_defs
        split: sum.splits\<close>)

lemma getattr_ok: "op_ok sd 0 (rs\<lparr>rs_type := GETATTR\<rparr>) m (ServeDir_op_getattr E sd rq rs m)"
  if "rs_attrs rs = None"
  unfolding ServeDir_op_getattr_def Let_def
proof (intro op_ok_fullpath, goal_cases)
  case (1 q m1)
  let ?p = "joined (sd_directory sd) q"
  let ?m2 = "sys_made (Sys_lstat ?p) (os_lstat E ?p (world m1)) m1"
  show ?case
  proof (cases "fst (os_lstat E ?p (world m1))")
    case (Inl e)
    then show ?thesis by (auto simp: op_ok_def heap_simps sys_simps calls_below_def)
  next
    case (Inr sb)
    show ?thesis
    proof (rule Attrs_create_cases [of E sb None ?m2], goal_cases)
      case (1 m')
      with Inr Attrs_create_calls [of sd ?m2 E sb None] that show ?thesis
        by (auto simp: op_ok_def heap_simps sys_simps calls_below_def response_blocks_def entries_defs)
    next
      case (2 a m')
      with Inr Attrs_create_calls [of sd ?m2 E sb None] that show ?thesis
        by (auto simp: op_ok_def heap_simps sys_simps calls_below_def response_blocks_def entries_defs)
    qed
  qed
qed

lemma statfs_ok: "op_ok sd 0 (rs\<lparr>rs_type := STATFS\<rparr>) m (ServeDir_op_statfs E sd rq rs m)"
  if "rs_statfs rs = None"
  unfolding ServeDir_op_statfs_def Let_def
  by (intro op_ok_fullpath)
     (use that in \<open>auto simp: op_ok_def StatFs_create_def heap_simps sys_simps calls_below_def
        response_blocks_def entries_defs split: sum.splits\<close>)

lemma readdir_loop_ok:
  assumes "readdir_loop E dirpath cap names rs m = (ok, rs', m')" "below sd dirpath"
  shows "live m' - sum_list (map attrs_blocks (rs_entries rs')) = live m - sum_list (map attrs_blocks (rs_entries rs))
    \<and> rs_type rs' = rs_type rs \<and> rs_version rs' = rs_version rs \<and> rs_attrs rs' = rs_attrs rs
    \<and> rs_datablock rs' = rs_datablock rs \<and> rs_size rs' = rs_size rs \<and> rs_link_target rs' = rs_link_target rs
    \<and> rs_statfs rs' = rs_statfs rs \<and> rs_entries_block rs' = rs_entries_block rs
    \<and> rs_entries_freed rs' = rs_entries_freed rs \<and> calls_below sd m m'
    \<and> (outcomes m = [] \<longrightarrow> outcomes m' = [])"
  using assms
proof (induction names arbitrary: rs m)
  case (Cons d names)
  show ?case
  proof (rule path_join_cases [of "Some dirpath" "Some d" m], goal_cases)
    case (1 h')
    with Cons.prems show ?case
      by (auto simp: heap_simps sys_simps path_join_nomem)
  next
    case (2 q1 q2 m1)
    then have j: "path_join (Some dirpath) (Some d) m = (Some (joined dirpath d), m1)"
      "live m1 = live m + 1" by simp_all
    have c1: "calls m1 = calls m"
      using j(1) 2(3) by (auto simp: path_join_ok sys_simps split: if_splits)
    have o1: "outcomes m = [] \<longrightarrow> outcomes m1 = []"
      using j(1) 2(3) by (auto simp: path_join_ok heap_simps split: if_splits)
    let ?p = "joined dirpath d"
    let ?m2 = "sys_made (Sys_lstat ?p) (os_lstat E ?p (world m1)) m1"
    have c2: "calls_below sd m ?m2"
      by (rule calls_below_step [where mid = m1 and new = "[Sys_lstat ?p]"])
         (use c1 Cons.prems(2) in \<open>simp_all add: sys_simps\<close>)
    show ?case
    proof (cases "fst (os_lstat E ?p (world m1))")
      case (Inl e)
      with Cons.prems j have
        "readdir_loop E dirpath cap names (Response_set_errno (errno ?m2) rs) (release 1 ?m2) = (ok, rs', m')"
        by (simp add: Let_def)
      from Cons.IH [OF this Cons.prems(2)] j(2) c2 o1 show ?thesis
        by (auto simp: heap_simps sys_simps intro: calls_below_trans)
    next
      case (Inr sb)
      show ?thesis
      proof (rule Attrs_create_cases [of E sb "Some d" ?m2], goal_cases)
        case (1 m3)
        with Cons.prems j Inr Attrs_create_calls [of sd ?m2 E sb "Some d"] c2 o1 show ?thesis
          by (auto simp: Let_def heap_simps sys_simps intro: calls_below_trans)
      next
        case (2 a m3)
        let ?m4 = "release 1 (store_upto cap (length (rs_entries rs) + 1) m3)"
        from Cons.prems j Inr 2 have
          "readdir_loop E dirpath cap names (rs\<lparr>rs_entries := rs_entries rs @ [a]\<rparr>) ?m4 = (ok, rs', m')"
          by (simp add: Let_def)
        note IH = Cons.IH [OF this Cons.prems(2)]
        have m3: "outcomes m = [] \<longrightarrow> outcomes m3 = []"
          using 2 j(1) Attrs_create_calls [of sd ?m2 E sb "Some d"]
          by (auto simp: sys_simps heap_simps path_join_ok split: if_splits)
        have "calls_below sd m m3"
          using calls_below_trans [OF c2] 2 Attrs_create_calls [of sd ?m2 E sb "Some d"] by simp
        then have m4: "calls_below sd m ?m4" by (simp add: sys_simps)
        show ?thesis
          using IH 2 j(2) m3 calls_below_trans [OF m4, of m'] by (simp add: heap_simps sys_simps)
      qed
    qed
  qed
qed simp

lemma scan_made_frame [sys_simps]:
  "live (snd (scan_made E m)) = live m" "faults (snd (scan_made E m)) = faults m"
  "calls (snd (scan_made E m)) = calls m @ [Sys_readdir]" "errno (snd (scan_made E m)) = errno m"
  "outcomes (snd (scan_made E m)) = outcomes m"
  "fst (scan_made E m) = fst (os_scan E (world m))" "world (snd (scan_made E m)) = snd (os_scan E (world m))"
  by (simp_all add: scan_made_def case_prod_beta Let_def)

lemma calls_below_sys [sys_simps]:
  "\<forall>p \<in> set (call_paths c). below sd p \<Longrightarrow> calls_below sd m m' \<Longrightarrow> calls_below sd m (sys_next E c m')"
  "\<forall>p \<in> set (call_paths c). below sd p \<Longrightarrow> calls_below sd m m' \<Longrightarrow> calls_below sd m (sys_made c r m')"
  "calls_below sd m m' \<Longrightarrow> calls_below sd m (snd (scan_made E m'))"
  using calls_below_step [of "sys_next E c m'" m' "[c]" sd m]
    calls_below_step [of "sys_made c r m'" m' "[c]" sd m]
    calls_below_step [of "snd (scan_made E m')" m' "[Sys_readdir]" sd m]
  by (simp_all add: sys_simps)

lemma readdir_ok: "op_ok sd 0 (rs\<lparr>rs_type := READDIR, rs_entries := []\<rparr>) m (ServeDir_op_readdir E sd rq rs m)"
  if "\<not> rs_entries_block rs" "\<not> rs_entries_freed rs"
  unfolding ServeDir_op_readdir_def Let_def
proof (intro op_ok_fullpath, goal_cases)
  case (1 q m1)
  let ?p = "joined (sd_directory sd) q" and ?rs = "rs\<lparr>rs_type := READDIR, rs_entries := []\<rparr>"
  let ?m2 = "sys_next E (Sys_opendir ?p) m1"
  let ?m3 = "snd (scan_made E ?m2)" and ?n = "length (fst (scan_made E ?m2))"
  let ?m4 = "sys_next E Sys_rewinddir (alloc_next ?m3)"
  let ?m5 = "snd (scan_made E ?m4)"
  let ?rs1 = "?rs\<lparr>rs_entries_block := True\<rparr>"
  have below: "below sd ?p" by simp
  have c3: "calls_below sd m1 ?m3" by (simp add: sys_simps)
  have c5: "calls_below sd m1 ?m5" using c3 by (simp add: sys_simps)
  obtain ok rs2 m6 where L: "readdir_loop E ?p ?n (fst (scan_made E ?m4)) ?rs1 ?m5 = (ok, rs2, m6)"
    by (cases "readdir_loop E ?p ?n (fst (scan_made E ?m4)) ?rs1 ?m5")
  note R = readdir_loop_ok [OF L below]
  have o6: "outcomes m1 = [] \<longrightarrow> outcomes m6 = []" using R by (simp add: heap_simps sys_simps)
  have c6: "calls_below sd m1 m6" using R calls_below_trans [OF c5] by simp
  show ?case
  proof (cases "sys_ret E (Sys_opendir ?p) m1 = -1")
    case True
    then show ?thesis by (simp add: op_ok_def heap_simps sys_simps)
  next
    case opened: False
    show ?thesis
    proof (cases "alloc_ok ?m3")
      case False
      with opened c3 show ?thesis
        by (simp add: op_ok_def case_prod_beta heap_simps sys_simps response_blocks_def entries_defs)
    next
      case True
      with opened that L R c6 o6 show ?thesis
        by (cases ok)
           (simp_all add: op_ok_def case_prod_beta heap_simps sys_simps response_blocks_def
              fold_Attrs_destroy entries_defs)
    qed
  qed
qed

fun read_count :: "syscall \<Rightarrow> nat" where
  "read_count (Sys_read _ n) = n"
| "read_count (Sys_pread _ n _) = n"
| "read_count _ = 0"

definition posix_reads :: "'w env \<Rightarrow> bool" where
  \<comment> \<open>a read delivers at most what was asked for, and on Linux less than 2 GiB\<close>
  "posix_reads E \<longleftrightarrow> (\<forall>c w bytes. fst (os_read E c w) = Inr bytes \<longrightarrow>
     length bytes \<le> read_count c \<and> length bytes < 2 ^ 31)"

lemma calloc_frame [sys_simps]:
  fixes m :: "'w mach"
  shows "calls (calloc_next n m) = calls m" "world (calloc_next n m) = world m"
    "errno (calloc_next n m) = errno m" "faults (calloc_next n m) = faults m"
    "live (calloc_next n m) = live m + (if calloc_ok n m then 1 else 0)"
    "outcomes m = [] \<Longrightarrow> outcomes (calloc_next n m) = []"
  by (simp_all add: calloc_next_def calloc_ok_def sys_simps heap_simps)

lemma DataBlock_destroy_calls [sys_simps]:
  fixes m :: "'w mach"
  shows "calls (DataBlock_destroy d m) = calls m"
  by (cases d) (simp_all add: sys_simps)

lemma set_lz4_frame:
  fixes m :: "'w mach"
  assumes "set_lz4_compressed_data d data m = (n, d1, m1)"
  shows "calls m1 = calls m \<and> world m1 = world m \<and> (outcomes m = [] \<longrightarrow> outcomes m1 = [])"
  using assms by (auto simp: set_lz4_compressed_data_def Let_def sys_simps heap_simps split: access.splits if_splits)

lemma set_data_frame [sys_simps]:
  fixes m :: "'w mach"
  shows "calls (snd (snd (DataBlock_set_data d data c m))) = calls m"
    "world (snd (snd (DataBlock_set_data d data c m))) = world m"
    "outcomes m = [] \<Longrightarrow> outcomes (snd (snd (DataBlock_set_data d data c m))) = []"
  by (auto simp: DataBlock_set_data_def set_plain_data_def free_block_data_def
      Let_def sys_simps heap_simps split: compression_type.splits prod.splits dest!: set_lz4_frame)

lemma Response_set_data_frame [sys_simps]:
  fixes m :: "'w mach"
  shows "calls (snd (snd (Response_set_data r data m))) = calls m"
    "outcomes m = [] \<Longrightarrow> outcomes (snd (snd (Response_set_data r data m))) = []"
proof -
  have "calls (snd (snd (Response_set_data r data m))) = calls m
    \<and> (outcomes m = [] \<longrightarrow> outcomes (snd (snd (Response_set_data r data m))) = [])"
proof (cases "rs_datablock r = None \<and> alloc_ok m")
  case False
  then show ?thesis by (auto simp: Response_set_data_def DataBlock_create_def sys_simps heap_simps)
next
  case True
  obtain ok d m' where D: "DataBlock_set_data new_block data COMPR_LZ4 (alloc_next m) = (ok, d, m')"
    by (cases "DataBlock_set_data new_block data COMPR_LZ4 (alloc_next m)")
  with True set_data_frame(1) [of new_block data COMPR_LZ4 "alloc_next m"]
    set_data_frame(3) [of "alloc_next m" new_block data COMPR_LZ4] show ?thesis
    by (simp add: Response_set_data_def DataBlock_create_simps sys_simps heap_simps)
qed
  then show "calls (snd (snd (Response_set_data r data m))) = calls m"
    "outcomes m = [] \<Longrightarrow> outcomes (snd (snd (Response_set_data r data m))) = []" by simp_all
qed

lemma get_data_frame [sys_simps]:
  fixes m :: "'w mach"
  shows "calls (snd (DataBlock_get_data d m)) = calls m"
    "outcomes m = [] \<Longrightarrow> outcomes (snd (DataBlock_get_data d m)) = []"
  by (cases "db_compression d";
      auto simp: DataBlock_get_data_def get_uncompressed_data_def get_lz4_compressed_data_def
        lz4_decode_def Let_def sys_simps heap_simps split: option.splits prod.splits access.splits)+

lemma Response_set_data_works:
  fixes m :: "'w mach"
  assumes "outcomes m = []" "rs_datablock r = None"
  shows "fst (Response_set_data r data m)"
  using assms
  by (auto simp: Response_set_data_def DataBlock_create_simps heap_simps DataBlock_set_data_def
      set_plain_data_def free_block_data_def Let_def split: prod.splits dest!: set_lz4_frame)

lemma read_ok:
  assumes "posix_reads E" "rs_datablock rs = None"
  shows "op_ok sd 0 (rs\<lparr>rs_type := READ\<rparr>) m (ServeDir_op_read E sd rq rs m)"
proof -
  let ?rs = "rs\<lparr>rs_type := READ\<rparr>"
  show ?thesis
  proof (cases "rq_size rq = None \<or> rq_offset rq = None")
    case True
    then show ?thesis by (auto simp: ServeDir_op_read_def Let_def intro: op_ok_invalid split: option.splits)
  next
    case False
    then obtain sz offset where args: "rq_size rq = Some sz" "rq_offset rq = Some offset" by auto
    show ?thesis
      unfolding ServeDir_op_read_def Let_def [of ?rs] args option.case
    proof (rule op_ok_fullpath, goal_cases)
      case (1 q m1)
      let ?p = "joined (sd_directory sd) q"
      let ?c = "Sys_open ?p O_RDONLY 0"
      let ?fd = "sys_ret E ?c m1" and ?m2 = "sys_next E ?c m1" and ?cap = "size_t (int32 sz)"
      let ?m3 = "calloc_next ?cap ?m2"
      let ?rc = "if offset = 0 then Sys_read ?fd (size_t sz) else Sys_pread ?fd (size_t sz) offset"
      let ?r = "os_read E ?rc (world ?m3)"
      let ?m4 = "sys_made ?rc ?r ?m3"
      have c2: "calls_below sd m1 ?m2" by (simp add: sys_simps)
      then have c3: "calls_below sd m1 ?m3" by (simp add: calls_below_def sys_simps)
      have nopath: "call_paths ?rc = []" by simp
      have c4: "calls_below sd m1 ?m4" using c3 nopath by (simp add: sys_simps del: call_paths.simps)
      show ?case
      proof (cases "?fd = -1 \<or> \<not> calloc_ok ?cap ?m2")
        case True
        then show ?thesis using c2 c3 by (auto simp: op_ok_def heap_simps sys_simps Let_def)
      next
        case go: False
        show ?thesis
        proof (cases "fst ?r")
          case (Inl e)
          with go c4 show ?thesis by (simp add: op_ok_def heap_simps sys_simps Let_def)
        next
          case (Inr bytes)
          have len: "length bytes < 2 ^ 31" using assms(1) Inr unfolding posix_reads_def by blast
          let ?s = "store_upto ?cap (length bytes) ?m4"
          obtain ok rs1 m5 where D: "Response_set_data ?rs bytes ?s = (ok, rs1, m5)" by (metis prod.exhaust)
          then have calls5: "calls m5 = calls ?s" using Response_set_data_frame(1) [of ?rs bytes ?s] by simp
          have o5: "outcomes m1 = [] \<longrightarrow> outcomes m5 = []"
          proof
            assume "outcomes m1 = []"
            then have "outcomes ?s = []" by (simp add: sys_simps heap_simps)
            from Response_set_data_frame(2) [OF this, of ?rs bytes] D show "outcomes m5 = []" by simp
          qed
          have c5: "calls_below sd m1 m5" using c4 calls5 by (simp add: calls_below_def sys_simps)
          have none: "rs_datablock ?rs = None" using assms(2) by simp
          have "live m5 - response_blocks rs1 = live ?m4 - response_blocks ?rs \<and> rs_type rs1 = READ
            \<and> rs_version rs1 = rs_version rs \<and> (entries_usable ?rs \<longrightarrow> entries_usable rs1)
            \<and> (entries_owned ?rs \<longrightarrow> entries_owned rs1)"
            by (rule Response_set_data_cases [OF len none, of ?s])
               (use D none in \<open>auto simp: heap_simps response_blocks_def entries_defs\<close>)
          with go Inr D c5 o5 show ?thesis by (simp add: op_ok_def heap_simps sys_simps Let_def)
        qed
      qed
    qed
  qed
qed

lemma write_ok: "op_ok sd 0 (rs\<lparr>rs_type := WRITE\<rparr>) m (ServeDir_op_write E sd rq rs m)"
proof -
  let ?rs = "rs\<lparr>rs_type := WRITE\<rparr>"
  show ?thesis
  proof (cases "rq_size rq = None \<or> rq_offset rq = None \<or> Request_has_data rq = -1")
    case True
    then show ?thesis by (auto simp: ServeDir_op_write_def Let_def intro: op_ok_invalid split: option.splits)
  next
    case False
    then obtain sz offset where args: "rq_size rq = Some sz" "rq_offset rq = Some offset"
      "(Request_has_data rq = -1) = False" by auto
    show ?thesis
      unfolding ServeDir_op_write_def Let_def [of ?rs] args option.case if_False
    proof (rule op_ok_fullpath, goal_cases)
      case (1 q m1)
      let ?p = "joined (sd_directory sd) q" and ?d = "the (rq_datablock rq)"
      let ?c = "Sys_open ?p (O_CREAT OR O_WRONLY) default_file_creation_permissions"
      let ?fd = "sys_ret E ?c m1" and ?m2 = "sys_next E ?c m1"
      have c2: "calls_below sd m1 ?m2" by (simp add: sys_simps)
      have c3: "calls_below sd m1 (snd (DataBlock_get_data ?d ?m2))"
        using c2 by (simp add: calls_below_def get_data_frame)
      have o3: "outcomes m1 = [] \<longrightarrow> outcomes (snd (DataBlock_get_data ?d ?m2)) = []"
        by (simp add: get_data_frame sys_simps)
      show ?case
      proof (rule DataBlock_get_data_cases [of ?d ?m2], goal_cases)
        case (1 h')
        then have "calls_below sd m1 h'" "outcomes m1 = [] \<longrightarrow> outcomes h' = []" using c3 o3 by simp_all
        with 1 c2 show ?case by (auto simp: op_ok_def heap_simps sys_simps Let_def)
      next
        case (2 len out h')
        then have "calls_below sd m1 h'" "outcomes m1 = [] \<longrightarrow> outcomes h' = []" using c3 o3 by simp_all
        with c2 2 show ?case
          by (auto simp: op_ok_def heap_simps sys_simps Let_def response_blocks_def entries_defs)
      qed
    qed
  qed
qed

section \<open>The contract as an interface\<close>

text \<open>
  The client of an operation is the loop: it runs it on a new response, packs and destroys the
  response. What it relies on is the contract, whichever operation the request selects; \<open>pre\<close>
  is what the operation asks of the libraries it calls.
\<close>

lemma new_response_typed [simp]:
  "response_blocks (new_response\<lparr>rs_type := t\<rparr>) = 2" "entries_usable (new_response\<lparr>rs_type := t\<rparr>)"
  "entries_owned (new_response\<lparr>rs_type := t\<rparr>)"
  by (simp_all add: new_response_def empty_response_def response_blocks_def entries_defs)

locale server_op =
  fixes pre :: bool and sd :: serve_dir
    and run :: "request \<Rightarrow> response \<Rightarrow> 'w mach \<Rightarrow> 'w op_result"
    and rtype :: "request \<Rightarrow> request_type"
  assumes contract: "pre \<Longrightarrow> op_ok sd 0 (new_response\<lparr>rs_type := rtype rq\<rparr>) m (run rq new_response m)"
begin

lemma outcome:
  assumes "pre" "run rq new_response m = (rc, rs, m')"
  shows "rs_type rs = rtype rq" "live m' = live m - 2 + response_blocks rs" "entries_owned rs"
    "rc = 0 \<Longrightarrow> entries_usable rs" "calls_below sd m m'" "rs_version rs = rs_version new_response"
    "rc = 0 \<or> rc = -1" "outcomes m = [] \<Longrightarrow> outcomes m' = []"
  using contract [OF assms(1), of rq m] assms(2) by (simp_all add: op_ok_def)

lemma cycle:
  assumes "pre" "run rq new_response m = (rc, rs, m')"
  shows "live (Response_destroy (Some rs) m') = live m - 2 + response_leak rs"
  using outcome [OF assms] Response_destroy_live [of rs m'] by simp

end

interpretation ping: server_op True sd "\<lambda>_. ServeDir_op_ping" "\<lambda>_. PING" for sd
  by unfold_locales (rule ping_ok)
interpretation invalid: server_op True sd "\<lambda>_. ServeDir_op_invalid" "\<lambda>_. INVALID" for sd
  by unfold_locales (rule invalid_ok)
interpretation rmdir: server_op True sd "ServeDir_op_rmdir E sd" "\<lambda>_. RMDIR" for E sd
  by unfold_locales (rule rmdir_ok)
interpretation unlink: server_op True sd "ServeDir_op_unlink E sd" "\<lambda>_. UNLINK" for E sd
  by unfold_locales (rule unlink_ok)
interpretation access: server_op True sd "ServeDir_op_access E sd" "\<lambda>_. ACCESS" for E sd
  by unfold_locales (rule access_ok)
interpretation rename: server_op True sd "ServeDir_op_rename E sd" "\<lambda>_. RENAME" for E sd
  by unfold_locales (rule rename_ok)
interpretation link: server_op True sd "ServeDir_op_link E sd" "\<lambda>_. LINK" for E sd
  by unfold_locales (rule link_ok)
interpretation symlink: server_op True sd "ServeDir_op_symlink E sd" "\<lambda>_. LINK" for E sd
  by unfold_locales (rule symlink_ok)
interpretation readlink: server_op True sd "ServeDir_op_readlink E sd" "\<lambda>_. READLINK" for E sd
  by unfold_locales (rule readlink_ok, simp add: new_response_def empty_response_def)
interpretation mkdir: server_op True sd "ServeDir_op_mkdir E sd" "\<lambda>_. MKDIR" for E sd
  by unfold_locales (rule mkdir_ok)
interpretation getattr: server_op True sd "ServeDir_op_getattr E sd" "\<lambda>_. GETATTR" for E sd
  by unfold_locales (rule getattr_ok, simp add: new_response_def empty_response_def)
interpretation open_file: server_op True sd "ServeDir_op_open E sd" "\<lambda>_. OPEN" for E sd
  by unfold_locales (rule open_ok)
interpretation create: server_op True sd "ServeDir_op_create E sd" "\<lambda>_. CREATE" for E sd
  by unfold_locales (rule create_ok)
interpretation truncate: server_op True sd "ServeDir_op_truncate E sd" "\<lambda>_. TRUNCATE" for E sd
  by unfold_locales (rule truncate_ok)
interpretation chmod: server_op True sd "ServeDir_op_chmod E sd" "\<lambda>_. CHMOD" for E sd
  by unfold_locales (rule chmod_ok)
interpretation utimens: server_op True sd "ServeDir_op_utimens E sd" "\<lambda>_. UTIMENS" for E sd
  by unfold_locales (rule utimens_ok)
interpretation mknod: server_op True sd "ServeDir_op_mknod E sd" "\<lambda>_. MKNOD" for E sd
  by unfold_locales (rule mknod_ok)
interpretation statfs: server_op True sd "ServeDir_op_statfs E sd" "\<lambda>_. STATFS" for E sd
  by unfold_locales (rule statfs_ok, simp add: new_response_def empty_response_def)
interpretation read_file: server_op "posix_reads E" sd "ServeDir_op_read E sd" "\<lambda>_. READ" for E sd
  by unfold_locales (rule read_ok, simp_all add: new_response_def empty_response_def)
interpretation write_file: server_op True sd "ServeDir_op_write E sd" "\<lambda>_. WRITE" for E sd
  by unfold_locales (rule write_ok)

lemma new_response_readdir:
  "new_response\<lparr>rs_type := READDIR, rs_entries := []\<rparr> = new_response\<lparr>rs_type := READDIR\<rparr>"
  by (simp add: new_response_def empty_response_def)

interpretation readdir: server_op True sd "ServeDir_op_readdir E sd" "\<lambda>_. READDIR" for E sd
  by unfold_locales
     (use readdir_ok [of new_response sd] in \<open>simp add: new_response_def empty_response_def\<close>)

definition answered_type :: "request_type \<Rightarrow> request_type" where
  \<comment> \<open>the type an answer to a request of that type carries\<close>
  "answered_type t =
     (case t of STAT \<Rightarrow> INVALID | UNKNOWN \<Rightarrow> INVALID | INVALID \<Rightarrow> INVALID | RT_unlisted _ \<Rightarrow> INVALID
      | SYMLINK \<Rightarrow> LINK | t \<Rightarrow> t)"

interpretation dispatched: server_op "posix_reads E" sd "dispatch E sd"
  "\<lambda>rq. answered_type (rq_type rq)" for E sd
proof unfold_locales
  fix rq and m :: "'a mach"
  assume pre: "posix_reads E"
  show "op_ok sd 0 (new_response\<lparr>rs_type := answered_type (rq_type rq)\<rparr>) m (dispatch E sd rq new_response m)"
    by (cases "rq_type rq")
       (simp_all add: dispatch_def answered_type_def pre ping.contract invalid.contract rmdir.contract
          unlink.contract access.contract rename.contract link.contract symlink.contract
          readlink.contract mkdir.contract getattr.contract open_file.contract create.contract
          truncate.contract chmod.contract utimens.contract mknod.contract statfs.contract
          read_file.contract write_file.contract readdir.contract)
qed

section \<open>The loop\<close>

lemma Response_pack_frame [sys_simps]:
  fixes m :: "'w mach"
  shows "live (snd (Response_pack r m)) = live m" "calls (snd (Response_pack r m)) = calls m"
    "outcomes m = [] \<Longrightarrow> outcomes (snd (Response_pack r m)) = []"
    "outcomes m = [] \<Longrightarrow> fst (Response_pack r m) = Some r"
  by (auto simp: Response_pack_def Let_def heap_simps sys_simps realloc_next_def split: if_splits)

lemma Response_pack_id: "fst (Response_pack r m) \<noteq> None \<Longrightarrow> fst (Response_pack r m) = Some r"
  by (auto simp: Response_pack_def Let_def split: if_splits)

lemma destroy_frame [sys_simps]:
  fixes m :: "'w mach"
  shows "calls (Response_destroy (Some r) m) = calls m"
    "outcomes (Response_destroy (Some r) m) = outcomes m"
  by (cases "rs_attrs r"; cases "rs_datablock r";
      simp add: Response_destroy_def destroy_entries_def fold_Attrs_destroy sys_simps heap_simps)+

lemma Response_create_frame [sys_simps]:
  fixes m :: "'w mach"
  shows "calls (snd (Response_create m)) = calls m"
    "outcomes m = [] \<Longrightarrow> outcomes (snd (Response_create m)) = []"
  by (simp_all add: Response_create_def Let_def sys_simps heap_simps)

definition expected_type :: "request option \<Rightarrow> request_type" where
  "expected_type rq = (case rq of None \<Rightarrow> UNKNOWN | Some r \<Rightarrow> answered_type (rq_type r))"

lemma answer_ok:
  assumes "posix_reads E" "answer E sd rq new_response m = (rs, m')"
  shows "live m' = live m - 2 + response_blocks rs" "entries_owned rs" "calls_below sd m m'"
    "rs_type rs = expected_type rq" "outcomes m = [] \<Longrightarrow> outcomes m' = []"
proof -
  have "live m' = live m - 2 + response_blocks rs \<and> entries_owned rs \<and> calls_below sd m m'
    \<and> rs_type rs = expected_type rq \<and> (outcomes m = [] \<longrightarrow> outcomes m' = [])"
  proof (cases rq)
    case None
    with assms(2) show ?thesis
      by (auto simp: answer_def response_blocks_def entries_defs new_response_def empty_response_def
          expected_type_def)
  next
    case (Some r)
    then obtain rc where "dispatch E sd r new_response (clear_errno m) = (rc, rs, m')"
      using assms(2) by (metis answer_def option.case(2) prod.collapse)
    from dispatched.outcome [OF _ this] assms(1) Some show ?thesis
      by (simp add: sys_simps expected_type_def)
  qed
  then show "live m' = live m - 2 + response_blocks rs" "entries_owned rs" "calls_below sd m m'"
    "rs_type rs = expected_type rq" "outcomes m = [] \<Longrightarrow> outcomes m' = []" by simp_all
qed

text \<open>The requests the loop gets to see, and how it sees them.\<close>

fun requests_seen :: "zmq_event list \<Rightarrow> request option list" where
  "requests_seen [] = []"
| "requests_seen (Recv_failed e # evs) = (if e = ETERM then [] else requests_seen evs)"
| "requests_seen (Received rq sent # evs) = rq # requests_seen evs"

lemma serve_step:
  assumes "posix_reads E"
  obtains
    (nomem) m1 where "ServeDir_serve E sd (Received rq sent # evs) m = ([], Returned False, m1)"
      "live m1 = live m" "calls_below sd m m1" "outcomes m \<noteq> []"
  | (stop) rs m1 where "ServeDir_serve E sd (Received rq sent # evs) m = ([], Returned False, m1)"
      "live m1 = live m + response_leak rs" "calls_below sd m m1" "outcomes m \<noteq> [] \<or> \<not> sent"
  | (go) rs m1 where "ServeDir_serve E sd (Received rq sent # evs) m =
        (let (rest, st, m4) = ServeDir_serve E sd evs m1 in (rs # rest, st, m4))"
      "sent" "live m1 = live m + response_leak rs" "calls_below sd m m1" "rs_type rs = expected_type rq"
      "outcomes m = [] \<Longrightarrow> outcomes m1 = []"
proof (rule Response_create_cases [of m], goal_cases)
  case (1 h')
  then have "calls h' = calls m" using Response_create_frame(1) [of m] by simp
  with 1 show thesis by (intro nomem [of h']) simp_all
next
  case (2 m1)
  then have c1: "calls m1 = calls m" "outcomes m = [] \<Longrightarrow> outcomes m1 = []"
    using Response_create_frame(1,2) [of m] by simp_all
  have cr: "Response_create m = (Some new_response, m1)" "live m1 = live m + 2" using 2 by simp_all
  obtain rs m2 where a: "answer E sd rq new_response m1 = (rs, m2)" by fastforce
  note A = answer_ok [OF assms a]
  obtain pk m3 where p: "Response_pack rs m2 = (pk, m3)" by fastforce
  let ?d = "Response_destroy (Some rs) m3"
  have P: "live m3 = live m2" "calls m3 = calls m2" "outcomes m2 = [] \<Longrightarrow> outcomes m3 = [] \<and> pk = Some rs"
    "pk \<noteq> None \<Longrightarrow> pk = Some rs"
    using Response_pack_frame(1,2) [of rs m2] Response_pack_frame(3,4) [of m2 rs]
      Response_pack_id [of rs m2] p by auto
  have D1: "live ?d = live m + response_leak rs"
    using Response_destroy_live [OF A(2), of m3] P(1) A(1) cr(2) by simp
  have D2: "calls_below sd m ?d"
    using A(3) c1(1) P(2) by (simp add: calls_below_def sys_simps)
  have D3: "outcomes m = [] \<Longrightarrow> outcomes ?d = [] \<and> pk = Some rs"
    using c1(2) A(5) P(3) by (simp add: sys_simps)
  show thesis
  proof (cases "pk = None \<or> \<not> sent")
    case True
    then have "ServeDir_serve E sd (Received rq sent # evs) m = ([], Returned False, ?d)"
      using cr(1) a p by (auto split: option.splits)
    moreover have "outcomes m \<noteq> [] \<or> \<not> sent" using True D3 by auto
    ultimately show thesis using D1 D2 by (intro stop [of ?d rs])
  next
    case False
    then have pk: "pk = Some rs" "sent" using P(4) by auto
    then have "ServeDir_serve E sd (Received rq sent # evs) m
        = (let (rest, st, m4) = ServeDir_serve E sd evs ?d in (rs # rest, st, m4))"
      using cr(1) a p by simp
    then show thesis using pk D1 D2 D3 A(4) by (intro go [of ?d rs]) auto
  qed
qed

lemma serve_run:
  assumes "posix_reads E" "ServeDir_serve E sd evs m = (answers, st, m')"
  shows "calls_below sd m m'
    \<and> (st \<noteq> Returned False \<longrightarrow> live m' = live m + sum_list (map response_leak answers)
         \<and> map rs_type answers = map expected_type (requests_seen evs))
    \<and> (outcomes m = [] \<and> (\<forall>rq. Received rq False \<notin> set evs) \<longrightarrow> st \<noteq> Returned False)"
  using assms(2)
proof (induction evs arbitrary: m answers)
  case (Cons ev evs)
  show ?case
  proof (cases ev)
    case (Recv_failed e)
    with Cons show ?thesis by (auto split: if_splits)
  next
    case (Received rq sent)
    show ?thesis
    proof (rule serve_step [OF assms(1), of sd rq sent evs m], goal_cases)
      case (1 m1)
      with Cons.prems Received show ?case by auto
    next
      case (2 rs m1)
      with Cons.prems Received show ?case by auto
    next
      case (3 rs m1)
      obtain rest st1 m4 where r: "ServeDir_serve E sd evs m1 = (rest, st1, m4)" by (metis prod.exhaust)
      with 3 Cons.prems Received have eq: "answers = rs # rest" "st = st1" "m' = m4" by auto
      from Cons.IH [OF r [folded eq(2,3)]] 3 eq Received show ?case
        by (auto intro: calls_below_trans)
    qed
  qed
qed simp

section \<open>What a request makes the server do\<close>

definition server_path :: "serve_dir \<Rightarrow> string \<Rightarrow> string" where
  "server_path sd q = joined (sd_directory sd) q"

text \<open>The one system call a request of the simple kind stands for.\<close>

definition requested_call :: "serve_dir \<Rightarrow> request \<Rightarrow> syscall option" where
  "requested_call sd rq =
     (case rq_path rq of None \<Rightarrow> None | Some q \<Rightarrow>
      (let p = server_path sd q; mode = Permissions_to_bitmask (rq_permissions rq) in
       case rq_type rq of
         RMDIR \<Rightarrow> Some (Sys_rmdir p)
       | UNLINK \<Rightarrow> Some (Sys_unlink p)
       | ACCESS \<Rightarrow> map_option (Sys_access p) mode
       | MKDIR \<Rightarrow> map_option (Sys_mkdir p) mode
       | CHMOD \<Rightarrow> map_option (Sys_chmod p) mode
       | TRUNCATE \<Rightarrow> map_option (Sys_truncate p) (rq_offset rq)
       | UTIMENS \<Rightarrow> map_option (\<lambda>ts. Sys_utimes p ((ts_access_sec ts, ts_access_usec ts),
           (ts_modify_sec ts, ts_modify_usec ts))) (rq_timestamps rq)
       | RENAME \<Rightarrow> map_option (\<lambda>t. Sys_rename p (server_path sd t)) (rq_path_to rq)
       | LINK \<Rightarrow> map_option (\<lambda>t. Sys_link p (server_path sd t)) (rq_path_to rq)
       | SYMLINK \<Rightarrow> map_option (\<lambda>t. Sys_symlink t p) (rq_path_to rq)
       | MKNOD \<Rightarrow> (case mode of None \<Rightarrow> None | Some b \<Rightarrow>
           (case rq_filetype rq of None \<Rightarrow> None | Some ft \<Rightarrow>
              (if S_ISREG (b OR FileType_to_local ft) then Some (Sys_mknod p (b OR FileType_to_local ft))
               else None)))
       | _ \<Rightarrow> None))"

definition posix_calls :: "'w env \<Rightarrow> bool" where
  \<comment> \<open>the calls of this kind return 0 or fail\<close>
  "posix_calls E \<longleftrightarrow> (\<forall>c w r. fst (os_call E c w) = Inr r \<longrightarrow>
     r = 0 \<or> (\<exists>p f b. c = Sys_open p f b) \<or> (\<exists>p b. c = Sys_creat p b) \<or> (\<exists>f d off. c = Sys_pwrite f d off)
     \<or> c = Sys_getgroups_count)"

lemma with_fullpath_ok:
  assumes "rq_path rq = Some q" "alloc_ok m"
  shows "with_fullpath sd rq rs m k = k (server_path sd q)
    (if join_overflows (sd_directory sd) q then add_fault Buffer_overflow (alloc_next m) else alloc_next m)"
  using assms by (simp add: with_fullpath_def ServeDir_fullpath_def path_join_ok server_path_def)

lemma with_two_paths_ok:
  assumes "rq_path rq = Some q" "rq_path_to rq = Some t" "outcomes m = []"
  obtains m1 where "with_two_paths sd rq rs m k = k (server_path sd q) (server_path sd t) m1"
    "calls m1 = calls m" "world m1 = world m" "errno m1 = errno m" "outcomes m1 = []"
proof -
  let ?a = "\<lambda>m q. if join_overflows (sd_directory sd) q then add_fault Buffer_overflow (alloc_next m) else alloc_next m"
  have "alloc_ok m" "alloc_ok (?a m t)" using assms(3) by (auto simp: heap_simps)
  then show thesis
    using assms
    by (intro that [of "?a (?a m t) q"])
       (simp_all add: with_two_paths_def ServeDir_fullpath_def path_join_ok server_path_def sys_simps heap_simps)
qed

definition reply_error :: "(int + 'r) \<Rightarrow> rhizo_errno" where
  "reply_error r = (case r of Inl e \<Rightarrow> Errno_from_local e | Inr _ \<Rightarrow> ERRNO_NONE)"

definition did :: "'w env \<Rightarrow> syscall \<Rightarrow> request_type \<Rightarrow> 'w mach \<Rightarrow> 'w op_result \<Rightarrow> bool" where
  \<comment> \<open>the operation returned 0, made exactly that call, and answers with its outcome\<close>
  "did E c t m res \<longleftrightarrow> (case res of (rc, rs, m') \<Rightarrow>
     rc = 0 \<and> calls m' = calls m @ [c] \<and> world m' = snd (os_call E c (world m))
     \<and> rs = new_response\<lparr>rs_type := t, rs_errnotype := reply_error (fst (os_call E c (world m)))\<rparr>)"

lemma call_and_free_did:
  assumes "rs = new_response\<lparr>rs_type := t\<rparr>" "errno m1 = 0"
    and "calls m1 = calls m" "world m1 = world m" "f (-1)"
    and "\<And>r. fst (os_call E c (world m)) = Inr r \<Longrightarrow> f r \<Longrightarrow> r = 0"
  shows "did E c t m (call_and_free E f n c rs m1)"
  using assms
  by (auto simp: did_def call_and_free_def reported_call_def reply_error_def sys_ret_def Let_def
      sys_simps Response_set_errno_def new_response_def empty_response_def split: sum.splits)

lemma dispatch_did:
  assumes "requested_call sd rq = Some c" "outcomes m = []" "errno m = 0" "posix_calls E"
  shows "did E c (answered_type (rq_type rq)) m (dispatch E sd rq new_response m)"
proof -
  obtain q where q: "rq_path rq = Some q" using assms(1) by (auto simp: requested_call_def split: option.splits)
  have a: "alloc_ok m" using assms(2) by (simp add: heap_simps)
  let ?m1 = "if join_overflows (sd_directory sd) q then add_fault Buffer_overflow (alloc_next m) else alloc_next m"
  have m1: "calls ?m1 = calls m" "world ?m1 = world m" "errno ?m1 = 0"
    using assms(3) by (simp_all add: sys_simps)
  note wf = with_fullpath_ok [where sd = sd, OF q a]
  have zero: "r = 0" if "fst (os_call E c (world m)) = Inr r" for r
    using that assms(1,4) q unfolding posix_calls_def
    by (auto simp: requested_call_def Let_def split: request_type.splits option.splits if_splits)
  note dids = call_and_free_did [OF refl m1(3,1,2)]
  have "posix_calls E" by (rule assms(4))
  show ?thesis
  proof (cases "rq_type rq")
    case RENAME
    then obtain t where t: "rq_path_to rq = Some t" "c = Sys_rename (server_path sd q) (server_path sd t)"
      using assms(1) q by (auto simp: requested_call_def)
    show ?thesis
      by (rule with_two_paths_ok [OF q t(1) assms(2), of sd "new_response\<lparr>rs_type := RENAME\<rparr>"
            "\<lambda>path_from path_to. call_and_free E (\<lambda>r. r = -1) 2 (Sys_rename path_from path_to) (new_response\<lparr>rs_type := RENAME\<rparr>)"])
         (use RENAME t assms(3) zero in \<open>auto simp: dispatch_def ServeDir_op_rename_def answered_type_def intro!: call_and_free_did\<close>)
  next
    case LINK
    then obtain t where t: "rq_path_to rq = Some t" "c = Sys_link (server_path sd q) (server_path sd t)"
      using assms(1) q by (auto simp: requested_call_def)
    show ?thesis
      by (rule with_two_paths_ok [OF q t(1) assms(2), of sd "new_response\<lparr>rs_type := LINK\<rparr>"
            "\<lambda>path_from path_to. call_and_free E (\<lambda>r. r = -1) 2 (Sys_link path_from path_to) (new_response\<lparr>rs_type := LINK\<rparr>)"])
         (use LINK t assms(3) zero in \<open>auto simp: dispatch_def ServeDir_op_link_def answered_type_def intro!: call_and_free_did\<close>)
  qed (use assms(1) q zero m1 in \<open>auto simp: requested_call_def dispatch_def answered_type_def wf Let_def
        ServeDir_op_rmdir_def ServeDir_op_unlink_def ServeDir_op_access_def ServeDir_op_mkdir_def
        ServeDir_op_chmod_def ServeDir_op_truncate_def ServeDir_op_utimens_def ServeDir_op_symlink_def
        ServeDir_op_mknod_def Permissions_to_bitmask_def
        split: option.splits if_splits intro!: call_and_free_did\<close>)
qed

section \<open>Operations without undefined behaviour\<close>

definition dir_ok :: "serve_dir \<Rightarrow> bool" where
  \<comment> \<open>what \<^verbatim>\<open>realpath\<close> returns for every directory but the root\<close>
  "dir_ok sd \<longleftrightarrow> sd_directory sd \<noteq> [] \<and> last (sd_directory sd) \<noteq> PATH_SEP"

definition posix_names :: "'w env \<Rightarrow> bool" where
  "posix_names E \<longleftrightarrow> (\<forall>w. \<forall>n \<in> set (fst (os_scan E w)). PATH_SEP \<notin> set n)"

definition posix_readlinks :: "'w env \<Rightarrow> bool" where
  "posix_readlinks E \<longleftrightarrow> (\<forall>p n w t. fst (os_readlink E p n w) = Inr t \<longrightarrow> length t \<le> n)"

definition sane_system :: "'w env \<Rightarrow> bool" where
  "sane_system E \<longleftrightarrow> posix_reads E \<and> posix_names E \<and> posix_readlinks E"

definition dir_grew :: "'w env \<Rightarrow> string \<Rightarrow> 'w mach \<Rightarrow> bool" where
  \<comment> \<open>the second pass over the directory delivers more names than the first counted\<close>
  "dir_grew E p m =
     (let (names, m1) = scan_made E (sys_next E (Sys_opendir p) m)
      in length (fst (scan_made E (sys_next E Sys_rewinddir (alloc_next m1)))) > length names)"

definition block_sound :: "data_block \<Rightarrow> bool" where
  "block_sound d \<longleftrightarrow> (db_compression d = COMPR_LZ4 \<longrightarrow>
     (\<exists>out. LZ4_uncompress (db_data d) (replicate (size_t (db_size d)) 0) (int32 (int (size_t (db_size d))))
       = Ok (int (length (db_data d)), out)))"

definition request_sound :: "'w env \<Rightarrow> serve_dir \<Rightarrow> request \<Rightarrow> 'w mach \<Rightarrow> bool" where
  "request_sound E sd rq m =
     (case rq_type rq of
        READ \<Rightarrow> (\<forall>sz. rq_size rq = Some sz \<longrightarrow> 0 \<le> sz \<and> sz < 2 ^ 31)
      | WRITE \<Rightarrow> (\<forall>d. rq_datablock rq = Some d \<longrightarrow> block_sound d)
      | READDIR \<Rightarrow> (\<forall>p m1. ServeDir_fullpath sd rq m = (Some p, m1) \<longrightarrow> \<not> dir_grew E p m1)
      | _ \<Rightarrow> True)"

definition op_quiet :: "'w mach \<Rightarrow> 'w op_result \<Rightarrow> bool" where
  "op_quiet m res \<longleftrightarrow> faults (snd (snd res)) = faults m"

lemma no_join_overflow: "dir_ok sd \<Longrightarrow> \<not> join_overflows (sd_directory sd) q"
  by (simp add: dir_ok_def join_overflows_def)

lemma op_quiet_fullpath:
  assumes "dir_ok sd"
    and "\<And>q m1. ServeDir_fullpath sd rq m = (Some (joined (sd_directory sd) q), m1) \<Longrightarrow>
      op_quiet m1 (k (joined (sd_directory sd) q) m1)"
  shows "op_quiet m (with_fullpath sd rq rs m k)"
proof (rule ServeDir_fullpath_cases [of sd rq m], goal_cases)
  case (1 m')
  then show ?case by (simp add: with_fullpath_def op_quiet_def sys_simps heap_simps clear_errno_def)
next
  case (2 q m')
  with assms(2) [of q m'] no_join_overflow [OF assms(1)] show ?case
    by (simp add: with_fullpath_def op_quiet_def)
qed

lemma op_quiet_two_paths:
  assumes "dir_ok sd" "\<And>p1 p2 m1. op_quiet m1 (k p1 p2 m1)"
  shows "op_quiet m (with_two_paths sd rq rs m k)"
proof (rule path_join_cases [of "Some (sd_directory sd)" "rq_path_to rq" m], goal_cases)
  case (1 h')
  then show ?case by (simp add: with_two_paths_def op_quiet_def sys_simps)
next
  case (2 q1 q2 h')
  then have f: "faults h' = faults m" using no_join_overflow [OF assms(1)] by simp
  show ?case
  proof (rule ServeDir_fullpath_cases [of sd rq h'], goal_cases)
    case (1 m')
    with 2 f show ?case by (simp add: with_two_paths_def op_quiet_def sys_simps heap_simps)
  next
    case (2 q m')
    with \<open>path_join _ _ _ = _\<close> f assms(2) no_join_overflow [OF assms(1)] show ?case
      by (simp add: with_two_paths_def op_quiet_def)
  qed
qed

lemma op_quiet_simple:
  "op_quiet m (invalid_request rs m)" "op_quiet m (-1, rs, clear_errno m)"
  "op_quiet m (call_and_free E f n c rs m)" "op_quiet m (0, rs, m)"
  by (simp_all add: op_quiet_def invalid_request_def call_and_free_def reported_call_def Let_def
      sys_simps heap_simps)

lemmas op_quiet_rules = op_quiet_fullpath op_quiet_two_paths op_quiet_simple

lemma readdir_loop_quiet:
  assumes "readdir_loop E dirpath cap names rs m = (ok, rs', m')"
    and "length (rs_entries rs) + length names \<le> cap" "\<forall>n \<in> set names. PATH_SEP \<notin> set n"
  shows "faults m' = faults m"
  using assms
proof (induction names arbitrary: rs m)
  case (Cons d names)
  then have no: "\<not> join_overflows dirpath d" by (auto simp: join_overflows_def dest: hd_in_set)
  show ?case
  proof (rule path_join_cases [of "Some dirpath" "Some d" m], goal_cases)
    case (1 h')
    with Cons.prems show ?case by (auto simp: sys_simps)
  next
    case (2 q1 q2 m1)
    then have j: "path_join (Some dirpath) (Some d) m = (Some (joined dirpath d), m1)"
      "faults m1 = faults m" using no by auto
    let ?m2 = "sys_made (Sys_lstat (joined dirpath d)) (os_lstat E (joined dirpath d) (world m1)) m1"
    show ?case
    proof (cases "fst (os_lstat E (joined dirpath d) (world m1))")
      case (Inl e)
      with Cons.prems j Cons.IH [of "Response_set_errno (errno ?m2) rs" "release 1 ?m2"] show ?thesis
        by (simp add: Let_def sys_simps heap_simps)
    next
      case (Inr sb)
      show ?thesis
      proof (rule Attrs_create_cases [of E sb "Some d" ?m2], goal_cases)
        case (1 m3)
        with Cons.prems j Inr show ?case by (auto simp: Let_def sys_simps heap_simps)
      next
        case (2 a m3)
        with Cons.prems j Inr Cons.IH [of "rs\<lparr>rs_entries := rs_entries rs @ [a]\<rparr>"
            "release 1 (store_upto cap (length (rs_entries rs) + 1) m3)"] show ?case
          by (simp add: Let_def sys_simps heap_simps)
      qed
    qed
  qed
qed simp

lemma readdir_quiet:
  assumes "dir_ok sd" "posix_names E"
    and "\<forall>p m1. ServeDir_fullpath sd rq m = (Some p, m1) \<longrightarrow> \<not> dir_grew E p m1"
  shows "op_quiet m (ServeDir_op_readdir E sd rq rs m)"
  unfolding ServeDir_op_readdir_def Let_def
proof (rule op_quiet_fullpath [OF assms(1)], goal_cases)
  case (1 q m1)
  let ?p = "joined (sd_directory sd) q" and ?rs = "rs\<lparr>rs_type := READDIR, rs_entries := []\<rparr>"
  let ?m2 = "sys_next E (Sys_opendir ?p) m1"
  let ?m3 = "snd (scan_made E ?m2)" and ?n = "length (fst (scan_made E ?m2))"
  let ?m4 = "sys_next E Sys_rewinddir (alloc_next ?m3)"
  let ?m5 = "snd (scan_made E ?m4)" and ?names = "fst (scan_made E ?m4)"
  let ?rs1 = "?rs\<lparr>rs_entries_block := True\<rparr>"
  have fit: "length ?names \<le> ?n" "\<forall>n \<in> set ?names. PATH_SEP \<notin> set n"
    using assms(2,3) 1 by (auto simp: dir_grew_def case_prod_beta posix_names_def scan_made_frame not_less)
  obtain ok rs2 m6 where L: "readdir_loop E ?p ?n ?names ?rs1 ?m5 = (ok, rs2, m6)"
    by (cases "readdir_loop E ?p ?n ?names ?rs1 ?m5")
  have "faults m6 = faults m1"
    using readdir_loop_quiet [OF L] fit by (simp add: sys_simps heap_simps)
  then show ?case
    using L by (auto simp: op_quiet_def case_prod_beta heap_simps sys_simps fold_Attrs_destroy)
qed

lemma readlink_quiet:
  assumes "dir_ok sd" "posix_readlinks E"
  shows "op_quiet m (ServeDir_op_readlink E sd rq rs m)"
  unfolding ServeDir_op_readlink_def Let_def
  by (rule op_quiet_fullpath [OF assms(1)])
     (use assms(2) in \<open>auto simp: op_quiet_def heap_simps sys_simps posix_readlinks_def store_upto_def
        split: sum.split dest!: spec\<close>)

lemma getattr_quiet: "dir_ok sd \<Longrightarrow> op_quiet m (ServeDir_op_getattr E sd rq rs m)"
  unfolding ServeDir_op_getattr_def Let_def
proof (rule op_quiet_fullpath, assumption, goal_cases)
  case (1 q m1)
  let ?p = "joined (sd_directory sd) q"
  let ?m2 = "sys_made (Sys_lstat ?p) (os_lstat E ?p (world m1)) m1"
  show ?case
  proof (cases "fst (os_lstat E ?p (world m1))")
    case (Inr sb)
    then show ?thesis
      by (rule_tac Attrs_create_cases [of E sb None ?m2]) (auto simp: op_quiet_def heap_simps sys_simps)
  qed (simp add: op_quiet_def heap_simps sys_simps)
qed

lemma read_quiet:
  assumes "dir_ok sd" "sane_system E" "rs_datablock rs = None"
    and "\<forall>sz. rq_size rq = Some sz \<longrightarrow> 0 \<le> sz \<and> sz < 2 ^ 31"
  shows "op_quiet m (ServeDir_op_read E sd rq rs m)"
proof (cases "rq_size rq = None \<or> rq_offset rq = None")
  case True
  then show ?thesis by (auto simp: ServeDir_op_read_def Let_def intro: op_quiet_rules split: option.splits)
next
  case False
  then obtain sz offset where args: "rq_size rq = Some sz" "rq_offset rq = Some offset" by auto
  let ?rs = "rs\<lparr>rs_type := READ\<rparr>"
  have cap: "int32 sz = sz" using assms(4) args int32_id [of sz] by auto
  show ?thesis
    unfolding ServeDir_op_read_def Let_def [of ?rs] args option.case cap
  proof (rule op_quiet_fullpath [OF assms(1)], goal_cases)
    case (1 q m1)
    let ?c = "Sys_open (joined (sd_directory sd) q) O_RDONLY 0"
    let ?fd = "sys_ret E ?c m1" and ?m3 = "calloc_next (size_t sz) (sys_next E ?c m1)"
    let ?rc = "if offset = 0 then Sys_read ?fd (size_t sz) else Sys_pread ?fd (size_t sz) offset"
    let ?r = "os_read E ?rc (world ?m3)"
    let ?m4 = "sys_made ?rc ?r ?m3"
    show ?case
    proof (cases "fst ?r")
      case (Inl e)
      then show ?thesis by (auto simp: op_quiet_def heap_simps sys_simps Let_def)
    next
      case (Inr bytes)
      have "length bytes < 2 ^ 31" "length bytes \<le> read_count ?rc"
        using assms(2) Inr unfolding sane_system_def posix_reads_def by blast+
      then have len: "length bytes < 2 ^ 31" "length bytes \<le> size_t sz" by (auto split: if_splits)
      have b: "rs_datablock ?rs = None" using assms(3) by simp
      obtain ok rs1 m5 where D: "Response_set_data ?rs bytes ?m4 = (ok, rs1, m5)" by (metis prod.exhaust)
      have "faults m5 = faults ?m4"
        by (rule Response_set_data_cases [OF len(1) b, of ?m4]) (use D b in auto)
      with D Inr len show ?thesis
        by (auto simp: op_quiet_def heap_simps sys_simps Let_def)
    qed
  qed
qed

lemma get_data_quiet: "block_sound d \<Longrightarrow> faults (snd (DataBlock_get_data d m)) = faults m"
  by (cases "db_compression d")
     (auto simp: DataBlock_get_data_def get_uncompressed_data_def get_lz4_compressed_data_def lz4_decode_def block_sound_def
        Let_def calloc_next_def heap_simps split: option.splits prod.splits)

lemma write_quiet:
  assumes "dir_ok sd" "\<forall>d. rq_datablock rq = Some d \<longrightarrow> block_sound d"
  shows "op_quiet m (ServeDir_op_write E sd rq rs m)"
proof (cases "rq_size rq = None \<or> rq_offset rq = None \<or> Request_has_data rq = -1")
  case True
  then show ?thesis by (auto simp: ServeDir_op_write_def Let_def intro: op_quiet_rules split: option.splits)
next
  case False
  let ?rs = "rs\<lparr>rs_type := WRITE\<rparr>"
  from False obtain sz offset where args: "rq_size rq = Some sz" "rq_offset rq = Some offset"
    "(Request_has_data rq = -1) = False" by auto
  have sound: "block_sound (the (rq_datablock rq))"
    using args(3) assms(2) by (auto simp: Request_has_data_def split: option.splits)
  show ?thesis
    unfolding ServeDir_op_write_def Let_def [of ?rs] args option.case if_False
  proof (rule op_quiet_fullpath [OF assms(1)], goal_cases)
    case (1 q m1)
    let ?c = "Sys_open (joined (sd_directory sd) q) (O_CREAT OR O_WRONLY) default_file_creation_permissions"
    obtain r m3 where g: "DataBlock_get_data (the (rq_datablock rq)) (sys_next E ?c m1) = (r, m3)" by fastforce
    then have "faults m3 = faults m1"
      using get_data_quiet [OF sound, of "sys_next E ?c m1"] by (simp add: sys_simps)
    with g show ?case
      by (cases r) (auto simp: op_quiet_def heap_simps sys_simps Let_def split: prod.splits)
  qed
qed

lemma dispatch_quiet:
  assumes "dir_ok sd" "sane_system E" "request_sound E sd rq m"
  shows "op_quiet m (dispatch E sd rq new_response m)"
proof -
  have d: "rs_datablock new_response = None" by (simp add: new_response_def empty_response_def)
  have e: "posix_names E" "posix_readlinks E" using assms(2) by (simp_all add: sane_system_def)
  show ?thesis
  proof (cases "rq_type rq")
    case READ
    with assms d show ?thesis by (simp add: dispatch_def request_sound_def read_quiet)
  next
    case WRITE
    with assms show ?thesis by (simp add: dispatch_def request_sound_def write_quiet)
  next
    case READDIR
    with assms e show ?thesis by (simp add: dispatch_def request_sound_def readdir_quiet)
  next
    case READLINK
    with assms e show ?thesis by (simp add: dispatch_def readlink_quiet)
  next
    case GETATTR
    with assms show ?thesis by (simp add: dispatch_def getattr_quiet)
  next
    case STATFS
    with assms show ?thesis
      by (auto simp: dispatch_def ServeDir_op_statfs_def Let_def intro!: op_quiet_fullpath)
         (auto simp: op_quiet_def StatFs_create_def heap_simps sys_simps split: sum.split)
  next
    case OPEN
    with assms show ?thesis
      by (auto simp: dispatch_def ServeDir_op_open_def Let_def intro!: op_quiet_rules split: option.split)
         (auto simp: op_quiet_def heap_simps sys_simps)
  next
    case CREATE
    with assms show ?thesis
      by (auto simp: dispatch_def ServeDir_op_create_def Let_def intro!: op_quiet_rules split: option.split)
         (auto simp: op_quiet_def heap_simps sys_simps)
  qed (use assms in \<open>auto simp: dispatch_def Let_def ServeDir_op_ping_def ServeDir_op_invalid_def
        ServeDir_op_rmdir_def ServeDir_op_unlink_def ServeDir_op_access_def ServeDir_op_mkdir_def
        ServeDir_op_chmod_def ServeDir_op_truncate_def ServeDir_op_utimens_def ServeDir_op_symlink_def
        ServeDir_op_mknod_def ServeDir_op_rename_def ServeDir_op_link_def
        split: option.split intro!: op_quiet_rules\<close>)
qed

section \<open>Reading and writing\<close>

lemma with_fullpath_run:
  assumes "rq_path rq = Some q" "outcomes m = []"
  obtains m1 where "\<And>rs k. with_fullpath sd rq rs m k = k (server_path sd q) m1"
    "outcomes m1 = []" "world m1 = world m" "calls m1 = calls m" "errno m1 = errno m"
proof -
  have a: "alloc_ok m" using assms(2) by (simp add: heap_simps)
  show thesis
    by (rule that, rule with_fullpath_ok [OF assms(1) a])
       (use assms(2) in \<open>simp_all add: sys_simps heap_simps\<close>)
qed

lemma read_answer_lemma:
  assumes rq: "rq_path rq = Some q" "rq_size rq = Some sz" "rq_offset rq = Some offset" "0 \<le> sz" "sz < 2 ^ 31"
    and m: "outcomes m = []" "world m = w"
    and L: "posix_reads E"
    and op: "os_call E (Sys_open (server_path sd q) O_RDONLY 0) w = (Inr fd, w1)" "0 \<le> fd"
    and c: "c = (if offset = 0 then Sys_read fd (nat sz) else Sys_pread fd (nat sz) offset)"
    and rd: "os_read E c w1 = (Inr bytes, w2)"
  shows "\<exists>d m'. ServeDir_op_read E sd rq new_response m
      = (0, new_response\<lparr>rs_type := READ, rs_datablock := Some d\<rparr>, m') \<and> block_holds d bytes
    \<and> calls m' = calls m @ [Sys_open (server_path sd q) O_RDONLY 0, c, Sys_close fd]"
proof -
  let ?p = "server_path sd q" and ?rs = "new_response\<lparr>rs_type := READ\<rparr>"
  have szt: "size_t sz = nat sz" "int32 sz = sz" using rq(4,5) size_t_nonneg [of sz] int32_id [of sz] by auto
  from with_fullpath_run [OF rq(1) m(1), of sd] obtain m1 where
    wf: "\<And>rs k. with_fullpath sd rq rs m k = k ?p m1"
    and m1: "outcomes m1 = []" "world m1 = w" "calls m1 = calls m"
    using m(2) by metis
  let ?o = "Sys_open ?p O_RDONLY 0"
  let ?m3 = "calloc_next (nat sz) (sys_next E ?o m1)"
  let ?m4 = "sys_made c (os_read E c (world ?m3)) ?m3"
  let ?s = "store_upto (nat sz) (length bytes) ?m4"
  have fd: "sys_ret E ?o m1 = fd" "fd \<noteq> -1" using op m1(2) by (simp_all add: sys_ret_def)
  have c': "(if offset = 0 then Sys_read (sys_ret E ?o m1) (nat sz)
      else Sys_pread (sys_ret E ?o m1) (nat sz) offset) = c" using c fd(1) by simp
  have w3: "world ?m3 = w1" using m1(2) op(1) by (simp add: sys_simps)
  have ca: "calloc_ok (nat sz) (sys_next E ?o m1)" using rq(5) m1(1) by (simp add: calloc_ok_def heap_simps sys_simps)
  have len: "length bytes < 2 ^ 31" using L rd unfolding posix_reads_def by (metis fst_conv)
  have s: "outcomes ?s = []" "calls ?s = calls m @ [?o, c]" using m1 by (simp_all add: sys_simps heap_simps)
  obtain ok rs1 m5 where D: "Response_set_data ?rs bytes ?s = (ok, rs1, m5)" by (metis prod.exhaust)
  have none: "rs_datablock ?rs = None" by (simp add: new_response_def empty_response_def)
  obtain d where d: "ok" "rs1 = ?rs\<lparr>rs_datablock := Some d\<rparr>" "block_holds d bytes"
  proof (rule Response_set_data_cases [OF len none, of ?s], goal_cases)
    case (1 h')
    then show ?case
      using Response_set_data_works [OF s(1) none, of bytes] by simp
  next
    case (2 d h')
    then show ?case using D that by auto
  qed
  have c5: "calls m5 = calls m @ [?o, c]" using Response_set_data_frame(1) [of ?rs bytes ?s] D s(2) by simp
  have "ServeDir_op_read E sd rq new_response m
      = (0, ?rs\<lparr>rs_datablock := Some d\<rparr>, release 2 (sys_next E (Sys_close fd) m5))"
    unfolding ServeDir_op_read_def Let_def [of ?rs] rq(2,3) option.case wf szt
    using fd ca w3 rd D d(1,2) by (simp add: Let_def c' split del: if_split)
  then show ?thesis using d(3) c5 by (auto simp: sys_simps)
qed

lemma write_answer_lemma:
  assumes rq: "rq_path rq = Some q" "rq_size rq = Some (int (length data))" "rq_offset rq = Some offset"
      "rq_datablock rq = Some d" "block_holds d data" "length data < 2 ^ 31"
    and m: "outcomes m = []" "world m = w"
    and c: "c = Sys_open (server_path sd q) 0x41 0x1B6" and op: "os_call E c w = (Inr fd, w1)" "0 \<le> fd"
    and wr: "os_call E (Sys_pwrite fd data offset) w1 = (Inr n, w2)" "0 \<le> n" "n \<le> int (length data)"
    and cl: "os_call E (Sys_close fd) w2 = (Inr 0, w3)"
  shows "\<exists>m'. ServeDir_op_write E sd rq new_response m
      = (0, new_response\<lparr>rs_type := WRITE, rs_size := Some n\<rparr>, m')
    \<and> calls m' = calls m @ [c, Sys_pwrite fd data offset, Sys_close fd,
        Sys_utimes (server_path sd q) (os_now E w3, os_now E w3)]"
proof -
  let ?p = "server_path sd q" and ?rs = "new_response\<lparr>rs_type := WRITE\<rparr>"
  from with_fullpath_run [OF rq(1) m(1), of sd] obtain m1 where
    wf: "\<And>rs k. with_fullpath sd rq rs m k = k ?p m1"
    and m1: "outcomes m1 = []" "world m1 = w" "calls m1 = calls m"
    using m(2) by metis
  let ?m3 = "alloc_next (sys_next E c m1)"
  have fd: "sys_ret E c m1 = fd" "fd \<noteq> -1" using op m1(2) by (simp_all add: sys_ret_def)
  have g: "DataBlock_get_data d (sys_next E c m1) = (Some (int (length data), data), ?m3)"
    using get_data_holds [OF rq(5,6), of "sys_next E c m1"] m1(1) by (simp add: sys_simps heap_simps)
  have len: "size_t (int (length data)) = length data" by (rule size_t_length [OF rq(6)])
  have has: "Request_has_data rq \<noteq> -1"
    using rq(4,5,6) int32_id [of "int (length data)"] by (simp add: Request_has_data_def block_holds_def)
  have n: "int32 n = n" "n \<noteq> -1" using wr(2,3) rq(6) int32_id [of n] by auto
  let ?w = "Sys_pwrite fd data offset"
  have w3: "world ?m3 = w1" using m1(2) op(1) by (simp add: sys_simps)
  have rw: "sys_ret E ?w ?m3 = n" using w3 wr(1) by (simp add: sys_ret_def)
  have w4: "world (sys_next E ?w ?m3) = w2" using w3 wr(1) by (simp add: sys_simps)
  have rc: "sys_ret E (Sys_close fd) (sys_next E ?w ?m3) = 0" using w4 cl by (simp add: sys_ret_def)
  have w5: "world (sys_next E (Sys_close fd) (sys_next E ?w ?m3)) = w3" using w4 cl by (simp add: sys_simps)
  have bits: "(O_CREAT OR O_WRONLY) = 0x41" by simp
  have "ServeDir_op_write E sd rq new_response m = (0, ?rs\<lparr>rs_size := Some n\<rparr>,
     release 2 (sys_next E (Sys_utimes ?p (os_now E w3, os_now E w3))
       (sys_next E (Sys_close fd) (sys_next E ?w ?m3))))"
    unfolding ServeDir_op_write_def Let_def [of ?rs] rq(2,3,4) option.case option.sel if_not_P [OF has]
      wf bits
    using fd g len n rw rc w5 c by (simp add: Let_def)
  then show ?thesis using m1(3) by (simp add: sys_simps)
qed

lemma readdir_loop_names:
  assumes "readdir_loop E dirpath cap names rs m = (True, rs', m')"
    and "\<forall>p w e. fst (os_lstat E p w) = Inl e \<longrightarrow> e \<noteq> 0"
  shows "\<exists>new. rs_entries rs' = rs_entries rs @ new \<and> subseq (map a_name new) (map Some names)
    \<and> (rs_errnotype rs' = ERRNO_NONE \<longrightarrow> rs_errnotype rs = ERRNO_NONE \<and> map a_name new = map Some names)"
  using assms(1)
proof (induction names arbitrary: rs m)
  case (Cons d names)
  from Cons.prems obtain full m1 where j: "path_join (Some dirpath) (Some d) m = (Some full, m1)"
    by (auto split: option.splits prod.splits)
  let ?m2 = "sys_made (Sys_lstat full) (os_lstat E full (world m1)) m1"
  show ?case
  proof (cases "fst (os_lstat E full (world m1))")
    case (Inl e)
    then have "e \<noteq> 0" using assms(2) by blast
    moreover have "readdir_loop E dirpath cap names (Response_set_errno e rs) (release 1 ?m2) = (True, rs', m')"
      using Cons.prems j Inl by (simp add: Let_def sys_simps)
    from Cons.IH [OF this] obtain new where "rs_entries rs' = rs_entries rs @ new"
      "subseq (map a_name new) (map Some names)"
      "rs_errnotype rs' = ERRNO_NONE \<longrightarrow> Errno_from_local e = ERRNO_NONE" by auto
    ultimately show ?thesis by (auto simp: Errno_from_local_None)
  next
    case (Inr sb)
    with Cons.prems j obtain a m3 where a: "Attrs_create E sb (Some d) ?m2 = (Some a, m3)"
      and r: "readdir_loop E dirpath cap names (rs\<lparr>rs_entries := rs_entries rs @ [a]\<rparr>)
         (release 1 (store_upto cap (length (rs_entries rs) + 1) m3)) = (True, rs', m')"
      by (auto simp: Let_def split: option.splits prod.splits)
    have "a_name a = Some d"
      by (rule Attrs_create_cases [of E sb "Some d" ?m2]) (use a in \<open>auto simp: complete_attrs_def\<close>)
    moreover from Cons.IH [OF r] obtain new where "rs_entries rs' = rs_entries rs @ a # new"
      "subseq (map a_name new) (map Some names)"
      "rs_errnotype rs' = ERRNO_NONE \<longrightarrow> rs_errnotype rs = ERRNO_NONE \<and> map a_name new = map Some names"
      by auto
    ultimately show ?thesis by (intro exI [of _ "a # new"]) auto
  qed
qed simp

lemma getattr_answer_lemma:
  assumes "rq_path rq = Some q" "outcomes m = []"
    and "ServeDir_op_getattr E sd rq new_response m = (rc, rs, m')"
  shows "case fst (os_lstat E (server_path sd q) (world m)) of
      Inl e \<Rightarrow> rc = 0 \<and> rs_errnotype rs = Errno_from_local e \<and> rs_attrs rs = None
    | Inr sb \<Rightarrow> rs_errnotype rs = ERRNO_NONE
        \<and> (if rc = 0 then \<exists>a. rs_attrs rs = Some a \<and> complete_attrs sb None a
             \<and> (a_is_owner a \<longleftrightarrow> os_getuid E = st_uid sb) else rs_attrs rs = None)"
proof -
  let ?p = "server_path sd q"
  from with_fullpath_run [OF assms(1,2), of sd] obtain m1 where
    wf: "\<And>rs k. with_fullpath sd rq rs m k = k ?p m1" and m1: "world m1 = world m" by metis
  let ?m2 = "sys_made (Sys_lstat ?p) (os_lstat E ?p (world m)) m1"
  show ?thesis
  proof (cases "fst (os_lstat E ?p (world m))")
    case (Inl e)
    with assms(3) m1 show ?thesis
      by (auto simp: ServeDir_op_getattr_def wf Let_def sys_simps new_response_def empty_response_def)
  next
    case (Inr sb)
    then show ?thesis
      by (simp, rule_tac Attrs_create_cases [of E sb None ?m2])
         (use assms(3) m1 in \<open>auto simp: ServeDir_op_getattr_def wf Let_def new_response_def empty_response_def\<close>)
  qed
qed

section \<open>Properties\<close>

definition demo_dir :: serve_dir where
  "demo_dir = \<lparr>sd_directory = ''/srv'', sd_socket_name = ''inproc://workers''\<rparr>"

definition demo_request :: "request_type \<Rightarrow> request" where
  "demo_request t = empty_request\<lparr>rq_type := t, rq_path := Some ''/f''\<rparr>"

lemma quiet_env_posix:
  "posix_reads quiet_env" "posix_names quiet_env" "posix_readlinks quiet_env" "posix_calls quiet_env"
  by (simp_all add: posix_reads_def posix_names_def posix_readlinks_def posix_calls_def quiet_env_def)



text \<open>
  C27: what the loop leaks. For every sequence of messages, under every pattern of allocation
  failures, once the loop waits again or has been terminated the number of live blocks has grown
  by exactly the link targets, file system statistics and empty entry arrays of the answers it
  sent; every other block an operation took was given back.
\<close>

theorem serve_memory:
  assumes "posix_reads E" "ServeDir_serve E sd evs m = (answers, st, m')"
    and "st \<noteq> Returned False"
  shows "live m' = live m + (\<Sum>r\<leftarrow>answers. of_opt (\<lambda>_. 1) (rs_link_target r) + of_opt (\<lambda>_. 1) (rs_statfs r)
     + (if rs_entries r = [] \<and> rs_entries_block r \<and> \<not> rs_entries_freed r then 1 else 0))"
  using serve_run [OF assms(1,2)] assms(3) unfolding response_leak_def by blast

theorem serve_memory_witness:
  "\<exists>answers st m'. ServeDir_serve quiet_env demo_dir
      [Received (Some (demo_request READLINK)) True] quiet_mach = (answers, st, m')
    \<and> live m' = 1"
proof -
  obtain answers st m' where r: "ServeDir_serve quiet_env demo_dir
      [Received (Some (demo_request READLINK)) True] quiet_mach = (answers, st, m')" by (metis prod.exhaust)
  have a: "st = Serving" "map rs_link_target answers = [Some []]" "map rs_statfs answers = [None]"
    "map rs_entries_block answers = [False]"
    using r by (auto simp: Response_create_def quiet_mach_def heap_simps sys_simps answer_def dispatch_def
        demo_request_def empty_request_def ServeDir_op_readlink_def with_fullpath_def ServeDir_fullpath_def
        path_join_ok demo_dir_def join_overflows_def quiet_env_def Response_pack_def empty_response_def
        Let_def)
  from serve_memory [OF quiet_env_posix(1) r] r a show ?thesis
    by (auto simp: map_eq_Cons_conv quiet_mach_def)
qed



text \<open>
  C10: a request of one of the eleven simple kinds (remove, unlink, access, make directory, change
  mode, truncate, set times, rename, link, symbolic link, make a regular file) with its
  parameters makes the server perform exactly the one system call it stands for, on the path
  below the shared directory, and the answer carries the protocol's code of that call's error
  number, or none if it succeeded.
\<close>

theorem simple_request_performed:
  assumes "requested_call sd rq = Some c" "outcomes m = []" "errno m = 0" "posix_calls E"
  shows "\<exists>m'. dispatch E sd rq new_response m
      = (0, new_response\<lparr>rs_type := answered_type (rq_type rq),
           rs_errnotype := (case fst (os_call E c (world m)) of Inl e \<Rightarrow> Errno_from_local e | Inr _ \<Rightarrow> ERRNO_NONE)\<rparr>, m')
    \<and> calls m' = calls m @ [c] \<and> world m' = snd (os_call E c (world m))"
  using dispatch_did [OF assms] by (auto simp: did_def reply_error_def)

theorem simple_request_performed_witness:
  "\<exists>m'. dispatch quiet_env demo_dir (demo_request RMDIR) new_response quiet_mach
      = (0, new_response\<lparr>rs_type := RMDIR, rs_errnotype := ERRNO_NONE\<rparr>, m')
    \<and> calls m' = [Sys_rmdir ''/srv/f'']"
proof -
  have c: "requested_call demo_dir (demo_request RMDIR) = Some (Sys_rmdir ''/srv/f'')"
    by (simp add: requested_call_def demo_request_def empty_request_def server_path_def demo_dir_def
        joined_def join_adds_separator_def)
  have "outcomes quiet_mach = []" "errno quiet_mach = 0" by (simp_all add: quiet_mach_def)
  from simple_request_performed [OF c this quiet_env_posix(4)] show ?thesis
    by (simp add: demo_request_def answered_type_def quiet_env_def quiet_mach_def)
qed



text \<open>
  A READ request below 2 GiB on a file that can be opened and read is answered with a block
  that holds exactly the bytes the system delivered, read with \<^verbatim>\<open>read\<close> at offset 0 and with
  \<^verbatim>\<open>pread\<close> elsewhere, and the descriptor is closed.
\<close>

theorem read_request_answered:
  assumes "rq_path rq = Some q" "rq_size rq = Some sz" "rq_offset rq = Some offset" "0 \<le> sz" "sz < 2 ^ 31"
    and "outcomes m = []" "posix_reads E"
    and "os_call E (Sys_open (server_path sd q) O_RDONLY 0) (world m) = (Inr fd, w1)" "0 \<le> fd"
    and "c = (if offset = 0 then Sys_read fd (nat sz) else Sys_pread fd (nat sz) offset)"
    and "os_read E c w1 = (Inr bytes, w2)"
  shows "\<exists>d m'. ServeDir_op_read E sd rq new_response m
      = (0, new_response\<lparr>rs_type := READ, rs_datablock := Some d\<rparr>, m') \<and> block_holds d bytes
    \<and> calls m' = calls m @ [Sys_open (server_path sd q) O_RDONLY 0, c, Sys_close fd]"
  using read_answer_lemma [OF assms(1-6) refl assms(7-11)] .

theorem read_request_answered_witness:
  "\<exists>d m'. ServeDir_op_read quiet_env demo_dir (demo_request READ\<lparr>rq_size := Some 10, rq_offset := Some 0\<rparr>)
      new_response quiet_mach = (0, new_response\<lparr>rs_type := READ, rs_datablock := Some d\<rparr>, m')
    \<and> block_holds d [] \<and> calls m' = [Sys_open ''/srv/f'' 0 0, Sys_read 0 10, Sys_close 0]"
  using read_request_answered [of "demo_request READ\<lparr>rq_size := Some 10, rq_offset := Some 0\<rparr>" "''/f''" 10 0
      quiet_mach quiet_env demo_dir 0 "()" "Sys_read 0 10" "[]" "()"]
    quiet_env_posix(1)
  by (simp add: demo_request_def quiet_mach_def quiet_env_def server_path_def joined_def
      join_adds_separator_def demo_dir_def)

text \<open>
  A WRITE request whose block holds as many bytes as its size states writes exactly these
  bytes at the requested offset of the file, which is opened for writing and created if absent,
  answers with the number of bytes the system took, and then sets the times of the file to now.
\<close>

theorem write_request_performed:
  assumes "rq_path rq = Some q" "rq_size rq = Some (int (length data))" "rq_offset rq = Some offset"
      "rq_datablock rq = Some d" "block_holds d data" "length data < 2 ^ 31" "outcomes m = []"
    and "c = Sys_open (server_path sd q) 0x41 0x1B6" "os_call E c (world m) = (Inr fd, w1)" "0 \<le> fd"
    and "os_call E (Sys_pwrite fd data offset) w1 = (Inr n, w2)" "0 \<le> n" "n \<le> int (length data)"
    and "os_call E (Sys_close fd) w2 = (Inr 0, w3)"
  shows "\<exists>m'. ServeDir_op_write E sd rq new_response m
      = (0, new_response\<lparr>rs_type := WRITE, rs_size := Some n\<rparr>, m')
    \<and> calls m' = calls m @ [c, Sys_pwrite fd data offset, Sys_close fd,
        Sys_utimes (server_path sd q) (os_now E w3, os_now E w3)]"
  using write_answer_lemma [OF assms(1-7) refl assms(8-14)] .

theorem write_request_performed_witness:
  "\<exists>m'. ServeDir_op_write quiet_env demo_dir (demo_request WRITE\<lparr>rq_size := Some 2, rq_offset := Some 5,
      rq_datablock := Some \<lparr>db_size = 2, db_data = [7, 8], db_compression = COMPR_NONE\<rparr>\<rparr>)
      new_response quiet_mach = (0, new_response\<lparr>rs_type := WRITE, rs_size := Some 0\<rparr>, m')
    \<and> calls m' = [Sys_open ''/srv/f'' 0x41 0x1B6, Sys_pwrite 0 [7, 8] 5, Sys_close 0,
        Sys_utimes ''/srv/f'' ((0, 0), (0, 0))]"
  using write_request_performed [of "demo_request WRITE\<lparr>rq_size := Some 2, rq_offset := Some 5,
      rq_datablock := Some \<lparr>db_size = 2, db_data = [7, 8], db_compression = COMPR_NONE\<rparr>\<rparr>" "''/f''" "[7, 8]" 5
      "\<lparr>db_size = 2, db_data = [7, 8], db_compression = COMPR_NONE\<rparr>" quiet_mach _ demo_dir quiet_env 0 "()" 0 "()" "()",
      OF _ _ _ _ _ _ _ refl]
  by (simp add: demo_request_def quiet_mach_def quiet_env_def server_path_def joined_def
      join_adds_separator_def demo_dir_def block_holds_def)

text \<open>
  GETATTR answers with the attributes of the stat the system returned for the path, or with
  the code of its error; if the attributes cannot be built the answer has neither.
\<close>

theorem getattr_request_answered:
  assumes "rq_path rq = Some q" "outcomes m = []"
    and "ServeDir_op_getattr E sd rq new_response m = (rc, rs, m')"
  shows "case fst (os_lstat E (server_path sd q) (world m)) of
      Inl e \<Rightarrow> rc = 0 \<and> rs_errnotype rs = Errno_from_local e \<and> rs_attrs rs = None
    | Inr sb \<Rightarrow> rs_errnotype rs = ERRNO_NONE
        \<and> (if rc = 0 then \<exists>a. rs_attrs rs = Some a \<and> complete_attrs sb None a else rs_attrs rs = None)"
  using getattr_answer_lemma [OF assms] by (auto split: sum.splits if_splits)

theorem getattr_request_answered_witness:
  "\<exists>rc rs m'. ServeDir_op_getattr quiet_env demo_dir (demo_request GETATTR) new_response quiet_mach = (rc, rs, m')
    \<and> rs_errnotype rs = ERRNO_NONE"
proof -
  obtain rc rs m' where r: "ServeDir_op_getattr quiet_env demo_dir (demo_request GETATTR) new_response quiet_mach
    = (rc, rs, m')" by (metis prod.exhaust)
  have "rq_path (demo_request GETATTR) = Some ''/f''" "outcomes quiet_mach = []"
    by (simp_all add: demo_request_def quiet_mach_def)
  from getattr_request_answered [OF this r] r show ?thesis by (simp add: quiet_env_def)
qed

text \<open>
  A directory listing that returns without an error is complete: its entries are, by name
  and in order, those of the second pass over the directory; with an error it is a subsequence
  of them.
\<close>

theorem readdir_loop_complete:
  assumes "readdir_loop E dirpath cap names (new_response\<lparr>rs_type := READDIR\<rparr>) m = (True, rs, m')"
    and "\<forall>p w e. fst (os_lstat E p w) = Inl e \<longrightarrow> e \<noteq> 0"
  shows "subseq (map a_name (rs_entries rs)) (map Some names)
    \<and> (rs_errnotype rs = ERRNO_NONE \<longrightarrow> map a_name (rs_entries rs) = map Some names)"
  using readdir_loop_names [OF assms] by (auto simp: new_response_def empty_response_def)

theorem readdir_loop_complete_witness:
  "\<exists>rs m'. readdir_loop quiet_env ''/srv'' 1 [''a''] (new_response\<lparr>rs_type := READDIR\<rparr>) quiet_mach = (True, rs, m')
    \<and> (rs_errnotype rs = ERRNO_NONE \<longrightarrow> map a_name (rs_entries rs) = [Some ''a''])"
proof -
  obtain ok rs m' where r: "readdir_loop quiet_env ''/srv'' 1 [''a''] (new_response\<lparr>rs_type := READDIR\<rparr>) quiet_mach
    = (ok, rs, m')" by (metis prod.exhaust)
  then have ok
    by (auto simp: path_join_ok quiet_mach_def heap_simps join_overflows_def quiet_env_def Attrs_create_def
        Permissions_create_def TimeSet_create_def posix_current_user_in_group_def sys_ret_def sys_simps Let_def)
  with r have t: "readdir_loop quiet_env ''/srv'' 1 [''a''] (new_response\<lparr>rs_type := READDIR\<rparr>) quiet_mach
    = (True, rs, m')" by simp
  from readdir_loop_complete [OF t] t show ?thesis by (simp add: quiet_env_def)
qed

text \<open>
  C36: a request without a path, or whose full path cannot be allocated, is not performed, but
  the answer says nothing of it: the operation returns -1, makes no system call and leaves the
  error number at none, which the client takes for success.
\<close>

theorem lost_path_answered_as_success:
  assumes "rq_type rq \<in> {RMDIR, UNLINK, READDIR, GETATTR, READLINK, STATFS}"
    and "rq_path rq = None \<or> \<not> alloc_ok m"
  shows "\<exists>m'. dispatch E sd rq new_response m = (-1, new_response\<lparr>rs_type := rq_type rq\<rparr>, m')
    \<and> calls m' = calls m \<and> Response_get_errno (new_response\<lparr>rs_type := rq_type rq\<rparr>) = 0"
proof -
  have f: "\<exists>m'. ServeDir_fullpath sd rq m = (None, m') \<and> calls m' = calls m"
    by (rule ServeDir_fullpath_cases [of sd rq m]) (use assms(2) in auto)
  then show ?thesis
    using assms(1)
    by (auto simp: dispatch_def with_fullpath_def Let_def ServeDir_op_rmdir_def ServeDir_op_unlink_def
        ServeDir_op_readdir_def ServeDir_op_getattr_def ServeDir_op_readlink_def ServeDir_op_statfs_def
        Response_get_errno_def new_response_def empty_response_def sys_simps)
qed

theorem lost_path_answered_as_success_witness:
  "\<exists>m'. dispatch quiet_env demo_dir (empty_request\<lparr>rq_type := UNLINK\<rparr>) new_response quiet_mach
      = (-1, new_response\<lparr>rs_type := UNLINK\<rparr>, m') \<and> calls m' = []"
  using lost_path_answered_as_success [of "empty_request\<lparr>rq_type := UNLINK\<rparr>" quiet_mach quiet_env demo_dir]
  by (auto simp: empty_request_def quiet_mach_def)

text \<open>
  A request that lacks a parameter its operation needs is refused as invalid before the path
  is even assembled: nothing is allocated, no system call is made.
\<close>

theorem missing_parameter_refused:
  assumes "(rq_type rq \<in> {ACCESS, MKDIR, CREATE, CHMOD, MKNOD} \<and> rq_permissions rq = None)
     \<or> (rq_type rq = MKNOD \<and> rq_filetype rq = None) \<or> (rq_type rq \<in> {RENAME, LINK, SYMLINK} \<and> rq_path_to rq = None)
     \<or> (rq_type rq = OPEN \<and> rq_openflags rq = None) \<or> (rq_type rq = UTIMENS \<and> rq_timestamps rq = None)
     \<or> (rq_type rq = TRUNCATE \<and> rq_offset rq = None)
     \<or> (rq_type rq \<in> {READ, WRITE} \<and> (rq_size rq = None \<or> rq_offset rq = None))
     \<or> (rq_type rq = WRITE \<and> rq_datablock rq = None)"
  shows "\<exists>t. dispatch E sd rq rs m = (-1, rs\<lparr>rs_type := t, rs_errnotype := ERRNO_INVALID_REQUEST\<rparr>, m)"
  using assms
  by (auto simp: dispatch_def Let_def invalid_request_def ServeDir_op_access_def ServeDir_op_mkdir_def
      ServeDir_op_create_def ServeDir_op_chmod_def ServeDir_op_mknod_def ServeDir_op_rename_def
      ServeDir_op_link_def ServeDir_op_symlink_def ServeDir_op_open_def ServeDir_op_utimens_def
      ServeDir_op_truncate_def ServeDir_op_read_def ServeDir_op_write_def OpenFlags_to_bitmask_def
      Request_has_data_def split: option.split)

theorem missing_parameter_refused_witness:
  "\<exists>t. dispatch quiet_env demo_dir (demo_request WRITE) new_response quiet_mach
    = (-1, new_response\<lparr>rs_type := t, rs_errnotype := ERRNO_INVALID_REQUEST\<rparr>, quiet_mach)"
  by (rule missing_parameter_refused) (simp add: demo_request_def empty_request_def)

section \<open>A worker\<close>

definition worker_routine :: "'w env \<Rightarrow> (string \<Rightarrow> 'w \<Rightarrow> string option) \<Rightarrow> bool \<Rightarrow> bool \<Rightarrow> string \<Rightarrow> zmq_event list
    \<Rightarrow> 'w mach \<Rightarrow> response list \<times> 'w mach" where
  "worker_routine E realpath socket_ok connect_ok directory evs m =
     (case ServeDir_create E realpath socket_ok connect_ok ''inproc://workers'' directory m of
        (None, m1) \<Rightarrow> ([], ServeDir_destroy None m1)
      | (Some sd, m1) \<Rightarrow>
          (case ServeDir_serve E sd evs m1 of
             (answers, Serving, m2) \<Rightarrow> (answers, m2)
           | (answers, Returned _, m2) \<Rightarrow> (answers, ServeDir_destroy (Some sd) m2)))"

lemma ServeDir_create_live:
  "ServeDir_create E realpath s c name dir m = (Some sd, m1) \<Longrightarrow> live m1 = live m + 2"
  by (auto simp: ServeDir_create_def Let_def heap_simps sys_simps split: if_splits option.splits sum.splits)

lemma ServeDir_create_fails:
  "ServeDir_create E realpath s c name dir m = (None, m1) \<Longrightarrow> live m1 = live m"
  by (auto simp: ServeDir_create_def Let_def heap_simps sys_simps split: if_splits option.splits sum.splits)

text \<open>
  A worker thread that ends gives back what it took: whether its directory cannot be served or
  ZeroMQ is terminated after any sequence of requests, what stays allocated is what its answers leak.
\<close>

lemma worker_memory:
  assumes "posix_reads E" "worker_routine E realpath socket_ok connect_ok directory evs m = (answers, m')"
    and "\<And>sd m1. ServeDir_create E realpath socket_ok connect_ok ''inproc://workers'' directory m = (Some sd, m1)
       \<Longrightarrow> \<exists>rest m2. ServeDir_serve E sd evs m1 = (rest, Returned True, m2)"
  shows "live m' = live m + sum_list (map response_leak answers)"
proof -
  obtain s m1 where c: "ServeDir_create E realpath socket_ok connect_ok ''inproc://workers'' directory m = (s, m1)"
    by fastforce
  show ?thesis
  proof (cases s)
    case None
    with c assms(2) ServeDir_create_fails [of E realpath socket_ok connect_ok "''inproc://workers''" directory m m1]
    show ?thesis by (simp add: worker_routine_def ServeDir_destroy_def)
  next
    case (Some sd)
    with c assms(3) obtain rest m2 where r: "ServeDir_serve E sd evs m1 = (rest, Returned True, m2)" by blast
    have "live m2 = live m1 + sum_list (map response_leak rest)"
      using serve_run [OF assms(1) r] by simp
    with c Some r assms(2) ServeDir_create_live [of E realpath socket_ok connect_ok "''inproc://workers''" directory m sd m1]
    show ?thesis by (auto simp: worker_routine_def ServeDir_destroy_def heap_simps)
  qed
qed

end
