(* ===== verification/Rhizo_HashCheck.thy ===== *)
theory Rhizo_HashCheck
  imports Rhizo_Hash
begin

text \<open>
  The rest of \<^verbatim>\<open>src/kazlib/hash.c\<close>: the self-check \<^verbatim>\<open>hash_verify\<close>, which the assertions of the table
  call after every operation in a debug build, tables over a chain array of the caller, and the
  small operations on tables and nodes.

  What is proved: on a table whose sizes are right the self-check holds exactly if every node hangs in
  its chain and the count is the number of nodes, and it holds after every sequence of operations; the
  default hash function is a loop on 32 bits.
\<close>

section \<open>The self-check\<close>

function power_loop :: "nat \<Rightarrow> bool" where
  \<comment> \<open>\<^verbatim>\<open>while ((arg & 1) == 0) arg >>= 1\<close>, for \<open>arg\<close> not 0\<close>
  "power_loop arg = (if arg \<noteq> 0 \<and> even arg then power_loop (arg div 2) else arg = 1)"
  by pat_completeness auto
termination
  by (relation "measure id") auto

declare power_loop.simps [simp del]

definition is_power_of_two :: "nat \<Rightarrow> bool" where
  "is_power_of_two arg = (if arg = 0 then False else power_loop arg)"

definition compute_mask :: "nat \<Rightarrow> 64 word" where
  "compute_mask sz = of_nat (sz - 1)"

fun verify_chain :: "'v hash_t \<Rightarrow> nat \<Rightarrow> 'v hnode list \<Rightarrow> nat \<Rightarrow> nat option" where
  \<comment> \<open>the inner loop; \<open>None\<close>: a node in the wrong chain\<close>
  "verify_chain H chain [] counted = Some counted"
| "verify_chain H chain (hptr # rest) counted =
     (if chain_index H (hn_hkey hptr) \<noteq> chain then None else verify_chain H chain rest (counted + 1))"

function verify_from :: "'v hash_t \<Rightarrow> nat \<Rightarrow> nat \<Rightarrow> nat option" where
  \<comment> \<open>the outer loop\<close>
  "verify_from H chain counted =
     (if chain < hash_nchains H then
        case verify_chain H chain (hash_table H ! chain) counted of
          None \<Rightarrow> None
        | Some counted \<Rightarrow> verify_from H (chain + 1) counted
      else Some counted)"
  by pat_completeness auto
termination
  by (relation "measure (\<lambda>(H, chain, counted). hash_nchains H - chain)") auto

declare verify_from.simps [simp del]

definition hash_verify :: "'v hash_t \<Rightarrow> bool" where
  "hash_verify H =
     (if hash_dynamic H \<and> (hash_lowmark H \<ge> hash_highmark H
           \<or> \<not> is_power_of_two (hash_highmark H) \<or> \<not> is_power_of_two (hash_lowmark H)) then False
      else case verify_from H 0 0 of
        None \<Rightarrow> False
      | Some counted \<Rightarrow> counted = hash_nodecount H)"

section \<open>Tables of the caller, and the small operations\<close>

definition hash_init :: "'v hash_t \<Rightarrow> nat \<Rightarrow> (string \<Rightarrow> string \<Rightarrow> int) option \<Rightarrow> (string \<Rightarrow> 64 word) option
    \<Rightarrow> nat \<Rightarrow> 'v hash_t" where
  \<comment> \<open>the fields it does not set keep what the structure of the caller held\<close>
  "hash_init H maxcount compfun hashfun nchains =
     clear_table (H\<lparr>hash_nchains := nchains, hash_nodecount := 0, hash_maxcount := maxcount,
       hash_compare := given compfun hash_comp_default, hash_function := given hashfun hash_fun_default,
       hash_dynamic := False, hash_mask := compute_mask nchains\<rparr>)"

definition hash_isempty :: "'v hash_t \<Rightarrow> bool" where
  "hash_isempty H \<longleftrightarrow> hash_nodecount H = 0"

definition hash_size :: "'v hash_t \<Rightarrow> nat" where
  "hash_size H = hash_nchains H"

definition hash_scan_delfree :: "'v hash_t \<Rightarrow> 'v hnode \<Rightarrow> 'a heap_scheme \<Rightarrow> 'v hash_t option \<times> 'a heap_scheme" where
  "hash_scan_delfree H node h =
     (case hash_scan_delete H node of
        None \<Rightarrow> (None, add_fault Null_deref h)
      | Some H' \<Rightarrow> (Some H', release (hash_node_blocks H') h))"

definition hash_free :: "'v hash_t \<Rightarrow> 'a heap_scheme \<Rightarrow> 'a heap_scheme option" where
  "hash_free H h = map_option (\<lambda>(_, h). hash_destroy h) (hash_free_nodes H h)"

definition hnode_init :: "'v hnode \<Rightarrow> 'v \<Rightarrow> 'v hnode" where
  "hnode_init node data = node\<lparr>hn_data := data\<rparr>"

definition hnode_create :: "'v hnode \<Rightarrow> 'v \<Rightarrow> 'a heap_scheme \<Rightarrow> 'v hnode option \<times> 'a heap_scheme" where
  \<comment> \<open>the node as \<^verbatim>\<open>malloc\<close> returns it: its address, and whatever the memory held\<close>
  "hnode_create memory data h = (if alloc_ok h then Some (hnode_init memory data) else None, alloc_next h)"

definition hnode_destroy :: "'a heap_scheme \<Rightarrow> 'a heap_scheme" where
  "hnode_destroy h = release 1 h"

definition hnode_put :: "'v hnode \<Rightarrow> 'v \<Rightarrow> 'v hnode" where
  "hnode_put node data = node\<lparr>hn_data := data\<rparr>"

definition hnode_get :: "'v hnode \<Rightarrow> 'v" where
  "hnode_get node = hn_data node"

definition hnode_getkey :: "'v hnode \<Rightarrow> string" where
  "hnode_getkey node = hn_key node"

section \<open>What the self-check checks\<close>

lemma power_loop_iff: "arg \<noteq> 0 \<Longrightarrow> power_loop arg \<longleftrightarrow> (\<exists>k. arg = 2 ^ k)"
proof (induction arg rule: power_loop.induct)
  case (1 arg)
  show ?case
  proof (cases "even arg")
    case True
    then obtain b where b: "arg = 2 * b" by blast
    have "(\<exists>k. 2 * b = 2 ^ k) \<longleftrightarrow> (\<exists>k. b = 2 ^ k)"
    proof
      assume "\<exists>k. 2 * b = 2 ^ k"
      then obtain k where "2 * b = 2 ^ k" by blast
      then show "\<exists>k. b = 2 ^ k" by (cases k) (auto simp: exI)
    qed (metis power_Suc)
    with 1 b show ?thesis by (subst power_loop.simps) simp
  next
    case False
    have "arg = 1 \<longleftrightarrow> (\<exists>k. arg = 2 ^ k)"
    proof
      assume "\<exists>k. arg = 2 ^ k"
      then obtain k where "arg = 2 ^ k" by blast
      with False show "arg = 1" by (cases k) auto
    qed (use power_0 in metis)
    with False show ?thesis by (subst power_loop.simps) simp
  qed
qed

lemma is_power_of_two_iff: "is_power_of_two arg \<longleftrightarrow> (\<exists>k. arg = 2 ^ k)"
  using power_loop_iff [of arg] by (auto simp: is_power_of_two_def)

lemma verify_chain_eq:
  "verify_chain H chain xs counted =
     (if \<forall>n \<in> set xs. chain_index H (hn_hkey n) = chain then Some (counted + length xs) else None)"
  by (induction xs arbitrary: counted) auto

lemma verify_from_eq:
  assumes "length (hash_table H) = hash_nchains H" "chain \<le> hash_nchains H"
  shows "verify_from H chain counted =
    (if \<forall>c < hash_nchains H. chain \<le> c \<longrightarrow> (\<forall>n \<in> set (hash_table H ! c). chain_index H (hn_hkey n) = c)
     then Some (counted + length (concat (drop chain (hash_table H)))) else None)"
  using assms
proof (induction H chain counted rule: verify_from.induct)
  case (1 H chain counted)
  show ?case
  proof (cases "chain < hash_nchains H")
    case False
    with 1 show ?thesis by (subst verify_from.simps) simp
  next
    case True
    have D: "drop chain (hash_table H) = hash_table H ! chain # drop (Suc chain) (hash_table H)"
      using True 1(2) by (simp add: Cons_nth_drop_Suc)
    have all: "(\<forall>c < hash_nchains H. chain \<le> c \<longrightarrow> P c) \<longleftrightarrow> P chain \<and> (\<forall>c < hash_nchains H. Suc chain \<le> c \<longrightarrow> P c)" for P
      using True by (metis Suc_leD le_antisym not_less_eq_eq order_refl)
    show ?thesis
    proof (cases "\<forall>n \<in> set (hash_table H ! chain). chain_index H (hn_hkey n) = chain")
      case ok: True
      then have v: "verify_chain H chain (hash_table H ! chain) counted = Some (counted + length (hash_table H ! chain))"
        by (simp add: verify_chain_eq)
      from 1(1) [OF True v 1(2)] True show ?thesis
        using ok by (subst verify_from.simps) (simp add: v all D)
    next
      case False
      then have "verify_chain H chain (hash_table H ! chain) counted = None" by (simp add: verify_chain_eq)
      then show ?thesis using True False by (subst verify_from.simps) auto
    qed
  qed
qed

lemma hash_verify_eq:
  assumes "length (hash_table H) = hash_nchains H"
    and "hash_dynamic H \<Longrightarrow> hash_lowmark H < hash_highmark H \<and> is_power_of_two (hash_highmark H) \<and> is_power_of_two (hash_lowmark H)"
  shows "hash_verify H \<longleftrightarrow> chains_ok H \<and> hash_nodecount H = length (hash_nodes H)"
  using assms verify_from_eq [OF assms(1), of 0 0]
  by (auto simp: hash_verify_def chains_ok_def hash_nodes_def split: if_splits)

lemma chain_size_marks:
  assumes "chain_size_ok k H"
  shows "hash_lowmark H < hash_highmark H" "is_power_of_two (hash_highmark H)" "is_power_of_two (hash_lowmark H)"
proof -
  have f: "hash_highmark H = 2 ^ Suc k" "hash_lowmark H = 2 ^ (k - 1)" "(2::nat) ^ k = 2 * 2 ^ (k - 1)"
    using assms by (cases k; simp add: chain_size_ok_def)+
  then show "is_power_of_two (hash_highmark H)" "is_power_of_two (hash_lowmark H)"
    unfolding is_power_of_two_iff by blast+
  show "hash_lowmark H < hash_highmark H" using f by simp
qed

lemma hash_verify_iff:
  "chain_size_ok k H \<Longrightarrow> hash_verify H \<longleftrightarrow> chains_ok H \<and> hash_nodecount H = length (hash_nodes H)"
  using chain_size_marks [of k H] by (intro hash_verify_eq) (simp_all add: chain_size_ok_def)

lemma hash_ok_verify: "hash_ok H \<Longrightarrow> hash_verify H"
  using hash_verify_iff by (auto simp: hash_ok_def nodes_ok_def)

text \<open>The assertions of \<^verbatim>\<open>hash_init\<close>.\<close>

lemma hash_init_verify: "hash_verify (hash_init H maxcount compfun hashfun ntable)"
  by (subst hash_verify_eq) (auto simp: hash_init_def clear_table_def chains_ok_def hash_nodes_def)

lemma hash_init_find:
  assumes "is_power_of_two nchains" "nchains < 2 ^ 64"
  shows "hash_lookup (hash_init H maxcount compfun hashfun nchains) key = None"
    "chain_index (hash_init H maxcount compfun hashfun nchains) hkey = unat hkey mod nchains"
proof -
  obtain k where k: "nchains = 2 ^ k" using assms(1) is_power_of_two_iff by blast
  have "k < 64" using assms(2) unfolding k by (rule power_less_imp_less_exp [of 2, rotated]) simp
  have m: "compute_mask nchains = mask k"
    unfolding compute_mask_def k mask_eq_exp_minus_1 by (simp add: of_nat_diff)
  show i: "chain_index (hash_init H maxcount compfun hashfun nchains) hkey = unat hkey mod nchains" for hkey
  proof -
    have "unat (hkey AND mask k) = take_bit k (unat hkey)"
      by (metis take_bit_eq_mask unsigned_take_bit_eq)
    then show ?thesis
      by (simp add: chain_index_def hash_init_def clear_table_def m [unfolded k] k take_bit_eq_mod)
  qed
  have "unat hkey mod nchains < nchains" for hkey :: "64 word" using k by simp
  then show "hash_lookup (hash_init H maxcount compfun hashfun nchains) key = None"
    by (simp add: hash_lookup_def Let_def i) (simp add: hash_init_def clear_table_def)
qed

lemma hash_scan_delfree_eq:
  "hash_scan_delfree H node h =
     (let H' = hash_scan_delete H node in (H', if H' = None then add_fault Null_deref h else release (hash_node_blocks H) h))"
  by (auto simp: hash_scan_delfree_def hash_scan_delete_def Let_def split: option.split)

text \<open>The default hash function computes on 32 bits.\<close>

lemma hash_fun_loop_32: "acc AND mask 32 = acc \<Longrightarrow> hash_fun_loop acc str AND mask 32 = hash_fun_loop acc str"
proof (induction str arbitrary: acc)
  case (Cons c str)
  have "\<exists>x. hash_fun_loop acc (c # str) = hash_fun_loop (x AND 0xFFFFFFFF) str"
    unfolding hash_fun_loop.simps Let_def by blast
  then obtain x where x: "hash_fun_loop acc (c # str) = hash_fun_loop (x AND mask 32) str"
    by (auto simp: mask_eq_exp_minus_1)
  show ?case unfolding x by (rule Cons.IH) (simp add: and.assoc)
qed simp

lemma hash_fun_default_32: "hash_fun_default key AND mask 32 = hash_fun_default key"
  unfolding hash_fun_default_def by (rule hash_fun_loop_32) simp

section \<open>Properties\<close>

text \<open>
  C18: the self-check of the table decides its invariant. In every state a dynamic table can reach, and
  for any chains put in place of the ones it has, the check answers yes exactly if each node is in the
  chain its hash selects and the count is the number of nodes; so it answers yes after every sequence
  of operations, which is what the assertions in the code claim.
\<close>

theorem self_check_decides:
  assumes "hash_create maxcount compfun hashfun h = (Some H, h')" "maxcount \<le> 2 ^ 60"
    and "compfun = None \<or> compfun = Some strcmp"
  shows "hash_verify (foldl table_step H ops)
    \<and> (length table = hash_size (foldl table_step H ops) \<longrightarrow>
        (hash_verify ((foldl table_step H ops)\<lparr>hash_table := table\<rparr>) \<longleftrightarrow>
           (\<forall>c < length table. \<forall>n \<in> set (table ! c). chain_index (foldl table_step H ops) (hn_hkey n) = c)
           \<and> hash_count (foldl table_step H ops) = length (concat table)))"
proof -
  let ?T = "foldl table_step H ops"
  have "\<forall>a b. given compfun hash_comp_default a b = 0 \<longleftrightarrow> a = b"
    using assms(3) by (auto simp: hash_comp_default_def)
  note C = hash_create_ok [OF this assms(2,1)]
  have ok: "hash_ok ?T" using table_run_map [of H ops] C by (simp add: hash_bounded_def)
  then obtain k where k: "chain_size_ok k ?T" by (auto simp: hash_ok_def)
  have "hash_verify (?T\<lparr>hash_table := table\<rparr>) \<longleftrightarrow> chains_ok (?T\<lparr>hash_table := table\<rparr>)
    \<and> hash_nodecount ?T = length (concat table)" if "length table = hash_nchains ?T"
  proof -
    have "chain_size_ok k (?T\<lparr>hash_table := table\<rparr>)" using k that by (simp add: chain_size_ok_def)
    from hash_verify_iff [OF this] show ?thesis by (simp add: hash_nodes_def)
  qed
  then show ?thesis using hash_ok_verify [OF ok]
    by (auto simp: hash_size_def hash_count_def chains_ok_def chain_index_def)
qed

theorem self_check_decides_witness:
  "\<exists>H h'. hash_create 2 None None quiet_heap = (Some H, h')
    \<and> hash_verify (foldl table_step H [Put True ''a'' (1::nat), Put True ''b'' 2, Drop ''a''])"
proof -
  obtain H :: "nat hash_t" and h' where H: "hash_create 2 None None quiet_heap = (Some H, h')"
    by (simp add: hash_create_def quiet_heap_def heap_simps)
  from self_check_decides [OF H, of "[Put True ''a'' 1, Put True ''b'' 2, Drop ''a'']"] H show ?thesis by auto
qed

end
