(* ===== verification/Rhizo_Auth.thy ===== *)
theory Rhizo_Auth
  imports Rhizo_Prelude
begin

text \<open>
  Model of the authentication thread of the server, \<^verbatim>\<open>auth_routine\<close> of \<^verbatim>\<open>src/server/main.c\<close>: a
  handler of the ZeroMQ Authentication Protocol. For every client that connects, ZeroMQ sends it
  the version, an identifier of the request, the domain, the address, the identity and the
  mechanism, each as a frame, and for the mechanism \<^verbatim>\<open>CURVE\<close> the public key of the client; the
  handler answers with a status code. \<^verbatim>\<open>200\<close> lets the client in.

  What ZeroMQ delivers is the list \<open>za_events\<close>, one for every call of \<^verbatim>\<open>receive_string\<close> or
  \<^verbatim>\<open>receive_message\<close>; when it is used up the thread waits in \<^verbatim>\<open>zmq_poll\<close>. What the thread hands to
  \<^verbatim>\<open>zmq_send\<close> is \<open>za_sent\<close>. Parameters are \<^verbatim>\<open>zmq_z85_encode\<close> and the content of the file of
  authorized keys, which may change between two requests. A NULL pointer that is dereferenced
  stops the process.

  What is proved: only clients whose key is listed are let in, and what a file lists; what a
  complete request is answered; every answered request is freed; and that the thread ends only by
  a crash, which is what shutting down the server makes it do.
\<close>

section \<open>Running the thread\<close>

datatype 'v progress = Goes 'v | Waits | Crashes

fun then_do :: "'v progress \<times> 's \<Rightarrow> ('v \<Rightarrow> 's \<Rightarrow> 'u progress \<times> 's) \<Rightarrow> 'u progress \<times> 's" where
  "then_do (Goes v, m) k = k v m"
| "then_do (Waits, m) k = (Waits, m)"
| "then_do (Crashes, m) k = (Crashes, m)"

lemma then_do_Goes_E:
  assumes "then_do r k = (Goes u, m')"
  obtains v m where "r = (Goes v, m)" "k v m = (Goes u, m')"
  using assms by (cases "(r, k)" rule: then_do.cases) auto

datatype zap_event = Poll_failed | Poll_idle | Recv_error | Frame string

record 'w zap = heap +
  za_events :: "zap_event list"
  za_sent :: "(string \<times> bool) list"
  za_world :: 'w

record 'w zap_env =
  za_z85 :: "string \<Rightarrow> string"
  za_keys :: "'w \<Rightarrow> string option \<times> 'w"

definition NUL :: char where "NUL = CHR 0x00"
definition newline :: char where "newline = CHR 0x0A"

definition cstr :: "string \<Rightarrow> string" where
  \<comment> \<open>the string a C function sees in a buffer\<close>
  "cstr buf = takeWhile (\<lambda>c. c \<noteq> NUL) buf"

definition null_crash :: "'w zap \<Rightarrow> 'v progress \<times> 'w zap" where
  "null_crash m = (Crashes, add_fault Null_deref m)"

section \<open>Receiving and sending\<close>

definition next_event :: "'w zap \<Rightarrow> string option progress \<times> 'w zap" where
  \<comment> \<open>\<^verbatim>\<open>zmq_poll\<close> and \<^verbatim>\<open>zmq_recv\<close>: nothing but a frame is an error\<close>
  "next_event m =
     (case za_events m of
        [] \<Rightarrow> (Waits, m)
      | Frame data # evs \<Rightarrow> (Goes (Some data), m\<lparr>za_events := evs\<rparr>)
      | _ # evs \<Rightarrow> (Goes None, m\<lparr>za_events := evs\<rparr>))"

definition receive_string :: "'w zap \<Rightarrow> string option progress \<times> 'w zap" where
  \<comment> \<open>the buffer has 1024 bytes and the terminator is stored at the length of the frame\<close>
  "receive_string m =
     then_do (next_event m) (\<lambda>frame m.
       case frame of
         None \<Rightarrow> (Goes None, m)
       | Some data \<Rightarrow>
           (let m1 = store_upto 1024 (length data + 1) m in
            (Goes (if alloc_ok m1 then Some (cstr (take 1024 data)) else None), alloc_next m1)))"

definition receive_message :: "nat \<Rightarrow> 'w zap \<Rightarrow> string option progress \<times> 'w zap" where
  "receive_message n m =
     then_do (next_event m) (\<lambda>frame m.
       case frame of
         None \<Rightarrow> (Goes None, m)
       | Some data \<Rightarrow>
           (if length data \<noteq> n then (Goes None, m)
            else if alloc_ok m then (Goes (Some data), alloc_next m)
            else null_crash (alloc_next m)))"

definition send_string :: "string option \<Rightarrow> bool \<Rightarrow> 'w zap \<Rightarrow> unit progress \<times> 'w zap" where
  "send_string message send_more m =
     (case message of
        None \<Rightarrow> null_crash m
      | Some s \<Rightarrow> (Goes (), m\<lparr>za_sent := za_sent m @ [(s, send_more)]\<rparr>))"

definition strcmp_is :: "string option \<Rightarrow> string \<Rightarrow> 'w zap \<Rightarrow> bool progress \<times> 'w zap" where
  "strcmp_is p s m = (case p of None \<Rightarrow> null_crash m | Some t \<Rightarrow> (Goes (t = s), m))"

section \<open>The file of authorized keys\<close>

definition fgets :: "nat \<Rightarrow> string \<Rightarrow> string" where
  \<comment> \<open>what the next \<^verbatim>\<open>fgets\<close> with room for \<open>n\<close> characters reads of the rest of a file\<close>
  "fgets n rest = (let t = take n rest in
     takeWhile (\<lambda>c. c \<noteq> newline) t @ (if newline \<in> set t then [newline] else []))"

lemma fgets_progress: "rest \<noteq> [] \<Longrightarrow> 0 < n \<Longrightarrow> 0 < length (fgets n rest)"
  by (cases rest; cases n) (auto simp: fgets_def Let_def)

function key_listed :: "string \<Rightarrow> string \<Rightarrow> bool" where
  "key_listed key rest =
     (if rest = [] then False
      else let buf = fgets 40 rest in
        if cstr buf = key then True else key_listed key (drop (length buf) rest))"
  by pat_completeness auto
termination
proof (relation "measure (\<lambda>(key, rest). length rest)", goal_cases)
  case (2 key rest buf)
  then show ?case using fgets_progress [of rest 40] by simp
qed simp

declare key_listed.simps [simp del]

section \<open>One request\<close>

definition zap_verdict :: "'w zap_env \<Rightarrow> string option \<Rightarrow> bool \<Rightarrow> string option \<Rightarrow> 'w zap
    \<Rightarrow> (string \<times> string) progress \<times> 'w zap" where
  \<comment> \<open>the status code and message; \<open>curve\<close>: the mechanism is \<^verbatim>\<open>CURVE\<close>\<close>
  "zap_verdict E version curve client_key m =
     then_do (strcmp_is version ''1.0'' m) (\<lambda>ok m.
       if \<not> ok then (Goes (''300'', ''invalid ZAP version''), m)
       else if curve \<and> length (cstr (za_z85 E (the client_key))) = 40 then
         (let (file, w) = za_keys E (za_world m); m1 = m\<lparr>za_world := w\<rparr> in
          case file of
            None \<Rightarrow> (Goes (''300'', ''internal error''), m1)
          | Some content \<Rightarrow>
              if key_listed (cstr (za_z85 E (the client_key))) content then (Goes (''200'', ''OK''), m1)
              else (Goes (''400'', ''denied''), m1))
       else (Goes (''400'', ''denied''), m))"

definition free_strings :: "string option list \<Rightarrow> 'a heap_scheme \<Rightarrow> 'a heap_scheme" where
  "free_strings ps m = release (int (length (filter (\<lambda>p. p \<noteq> None) ps))) m"

definition zap_reply :: "string option \<Rightarrow> string \<Rightarrow> string \<Rightarrow> string option list \<Rightarrow> 'w zap
    \<Rightarrow> unit progress \<times> 'w zap" where
  \<comment> \<open>the label \<^verbatim>\<open>out\<close>: the answer, and freeing what was received\<close>
  "zap_reply request_id status_code status_msg received m =
     then_do (send_string (Some ''1.0'') True m) (\<lambda>_ m.
     then_do (send_string request_id True m) (\<lambda>_ m.
     then_do (send_string (Some status_code) True m) (\<lambda>_ m.
     then_do (send_string (Some status_msg) True m) (\<lambda>_ m.
     then_do (send_string (Some []) True m) (\<lambda>_ m.
     then_do (send_string (Some []) False m) (\<lambda>_ m.
       (Goes (), free_strings received m)))))))"

definition zap_decide :: "'w zap_env \<Rightarrow> string option \<Rightarrow> string option \<Rightarrow> string option \<Rightarrow> string option
    \<Rightarrow> string option \<Rightarrow> string option \<Rightarrow> 'w zap \<Rightarrow> unit progress \<times> 'w zap" where
  \<comment> \<open>what follows the first six frames\<close>
  "zap_decide E version request_id domain address identity_property mechanism m =
     then_do (strcmp_is mechanism ''CURVE'' m) (\<lambda>curve m.
     then_do (if curve then receive_message 32 m else (Goes None, m)) (\<lambda>client_key m.
       let received = [version, domain, request_id, identity_property, address, mechanism, client_key] in
       if curve \<and> client_key = None then zap_reply request_id ''300'' ''internal error'' received m
       else then_do (zap_verdict E version curve client_key m) (\<lambda>(status_code, status_msg) m.
         zap_reply request_id status_code status_msg received m)))"

definition zap_request :: "'w zap_env \<Rightarrow> 'w zap \<Rightarrow> unit progress \<times> 'w zap" where
  \<comment> \<open>the body of the loop\<close>
  "zap_request E m =
     then_do (receive_string m) (\<lambda>version m.
     then_do (receive_string m) (\<lambda>request_id m.
     then_do (receive_string m) (\<lambda>domain m.
     then_do (receive_string m) (\<lambda>address m.
     then_do (receive_string m) (\<lambda>identity_property m.
     then_do (receive_string m) (\<lambda>mechanism m.
       zap_decide E version request_id domain address identity_property mechanism m))))))"

section \<open>What a request receives\<close>

lemma zap_frame [simp]:
  fixes m :: "'w zap"
  shows "za_events (alloc_next m) = za_events m" "za_events (add_fault f m) = za_events m"
    "za_events (store_upto c n m) = za_events m" "za_events (free_strings ps m) = za_events m"
    "za_sent (alloc_next m) = za_sent m" "za_sent (add_fault f m) = za_sent m"
    "za_sent (store_upto c n m) = za_sent m" "za_sent (free_strings ps m) = za_sent m"
    "za_world (alloc_next m) = za_world m" "za_world (add_fault f m) = za_world m"
    "za_world (store_upto c n m) = za_world m" "za_world (free_strings ps m) = za_world m"
  by (simp_all add: alloc_next_def add_fault_def store_upto_def free_strings_def release_def)

definition received :: "zap_event \<Rightarrow> string option \<Rightarrow> bool" where
  "received ev p \<longleftrightarrow> p = None \<or> (\<exists>d. ev = Frame d \<and> p = Some (cstr (take 1024 d)))"

definition strings :: "string option list \<Rightarrow> int" where
  "strings ps = int (length (filter (\<lambda>p. p \<noteq> None) ps))"

lemma strings_simps [simp]:
  "strings [] = 0" "strings (p # ps) = (if p = None then 0 else 1) + strings ps"
  "strings (ps @ qs) = strings ps + strings qs" "live (free_strings ps m) = live m - strings ps"
  "outcomes (free_strings ps m) = outcomes m" "faults (free_strings ps m) = faults m"
  by (simp_all add: strings_def free_strings_def heap_simps)

definition got :: "'w zap \<Rightarrow> zap_event list \<Rightarrow> string option list \<Rightarrow> 'w zap \<Rightarrow> bool" where
  \<comment> \<open>from \<open>m\<close> to \<open>m'\<close> the strings \<open>ps\<close> were received for the events \<open>es\<close>\<close>
  "got m es ps m' \<longleftrightarrow> za_events m = es @ za_events m' \<and> list_all2 received es ps
     \<and> za_sent m' = za_sent m \<and> za_world m' = za_world m \<and> live m' = live m + strings ps
     \<and> (\<exists>fs. faults m' = faults m @ fs \<and> set fs \<subseteq> {Buffer_overflow})"

lemma got_refl: "got m [] [] m"
  by (simp add: got_def)

lemma got_trans: "got m es ps m1 \<Longrightarrow> got m1 es1 ps1 m2 \<Longrightarrow> got m (es @ es1) (ps @ ps1) m2"
  by (auto simp: got_def intro: list_all2_appendI)

lemma receive_got:
  "za_events m = [] \<and> receive_string m = (Waits, m)
   \<or> (\<exists>ev p m1. receive_string m = (Goes p, m1) \<and> got m [ev] [p] m1)"
proof (cases "za_events m")
  case Nil
  then show ?thesis by (simp add: receive_string_def next_event_def)
next
  case (Cons ev evs)
  show ?thesis
  proof (cases ev)
    case (Frame d)
    then show ?thesis using Cons
      by (auto simp: receive_string_def next_event_def got_def received_def heap_simps Let_def store_upto_def)
  qed (use Cons in \<open>auto simp: receive_string_def next_event_def got_def received_def\<close>)
qed

lemma receive_rule:
  assumes "got m0 es ps m" "za_events m = [] \<Longrightarrow> P (Waits, m)"
    and "\<And>ev p m1. got m0 (es @ [ev]) (ps @ [p]) m1 \<Longrightarrow> P (k p m1)"
  shows "P (then_do (receive_string m) k)"
  using receive_got [of m] got_trans [OF assms(1)] assms(2,3) by fastforce

lemma zap_request_cases:
  obtains (waits) es ps m1 where "zap_request E m = (Waits, m1)" "got m es ps m1" "za_events m1 = []"
  | (decides) e1 e2 e3 e4 e5 e6 p1 p2 p3 p4 p5 p6 m1 where
      "got m [e1, e2, e3, e4, e5, e6] [p1, p2, p3, p4, p5, p6] m1"
      "zap_request E m = zap_decide E p1 p2 p3 p4 p5 p6 m1"
proof -
  define P where "P r \<longleftrightarrow> (\<exists>es ps m1. r = (Waits, m1) \<and> got m es ps m1 \<and> za_events m1 = [])
    \<or> (\<exists>e1 e2 e3 e4 e5 e6 p1 p2 p3 p4 p5 p6 m1. got m [e1, e2, e3, e4, e5, e6] [p1, p2, p3, p4, p5, p6] m1
        \<and> r = zap_decide E p1 p2 p3 p4 p5 p6 m1)" for r
  have w: "got m es ps m1 \<Longrightarrow> za_events m1 = [] \<Longrightarrow> P (Waits, m1)" for es ps m1
    unfolding P_def by blast
  have "P (zap_request E m)"
    unfolding zap_request_def
  proof (rule receive_rule [OF got_refl], goal_cases)
    case (2 e1 p1 m1)
    show ?case
    proof (rule receive_rule [OF 2], goal_cases)
      case (2 e2 p2 m2)
      show ?case
      proof (rule receive_rule [OF 2], goal_cases)
        case (2 e3 p3 m3)
        show ?case
        proof (rule receive_rule [OF 2], goal_cases)
          case (2 e4 p4 m4)
          show ?case
          proof (rule receive_rule [OF 2], goal_cases)
            case (2 e5 p5 m5)
            show ?case
            proof (rule receive_rule [OF 2], goal_cases)
              case (2 e6 p6 m6)
              then have "got m [e1, e2, e3, e4, e5, e6] [p1, p2, p3, p4, p5, p6] m6" by simp
              then show ?case unfolding P_def by blast
            qed (rule w [OF 2])
          qed (rule w [OF 2])
        qed (rule w [OF 2])
      qed (rule w [OF 2])
    qed (rule w [OF 2])
  qed (rule w [OF got_refl])
  then show thesis using waits decides unfolding P_def by blast
qed

section \<open>The loop\<close>

text \<open>Every step of a request consumes events, and none puts any back.\<close>

definition consumes :: "nat \<Rightarrow> 'w zap \<Rightarrow> 'v progress \<times> 'w zap \<Rightarrow> bool" where
  "consumes k m r \<longleftrightarrow> (\<forall>v m'. r = (Goes v, m') \<longrightarrow>
     (\<exists>used. za_events m = used @ za_events m' \<and> k \<le> length used))"

named_theorems consuming \<open>how many events a step consumes\<close>

lemma consumes_then_do:
  "consumes j m r \<Longrightarrow> (\<And>v m1. r = (Goes v, m1) \<Longrightarrow> consumes k m1 (f v m1)) \<Longrightarrow> consumes (j + k) m (then_do r f)"
  by (cases "(r, f)" rule: then_do.cases) (fastforce simp: consumes_def)+

lemma consumes_refl [consuming]: "consumes 0 m (Goes v, m)"
  by (simp add: consumes_def)

lemmas consumes_then_0 [consuming] = consumes_then_do [where j = 0 and k = 0, simplified]

lemma receive_consumes [consuming]:
  "consumes 1 m (receive_string m)" "consumes 1 m (receive_message n m)"
  by (auto simp: consumes_def receive_string_def receive_message_def next_event_def null_crash_def Let_def
      split: list.splits zap_event.splits if_splits elim!: then_do_Goes_E)

lemma others_consume [consuming]:
  "consumes 0 m (strcmp_is p s m)" "consumes 0 m (send_string p b m)"
  "consumes 0 m (zap_verdict E v c k m)" "consumes 0 m (zap_reply i sc sm ps m)"
  by (auto simp: consumes_def strcmp_is_def send_string_def zap_verdict_def zap_reply_def null_crash_def Let_def
      split: option.splits prod.splits if_splits elim!: then_do_Goes_E)

lemma decide_consumes: "consumes 0 m (zap_decide E v i d a ip me m)"
  unfolding zap_decide_def Let_def
proof (intro consumes_then_0, goal_cases)
  case (2 c m1)
  then show ?case using receive_consumes(2) [of m1 32] by (auto simp: consumes_def)
next
  case (3 c m1 k m2)
  show ?case by (auto intro!: consuming split: prod.split)
qed (rule others_consume)

lemma zap_request_consumes: "consumes 6 m (zap_request E m)"
proof (cases rule: zap_request_cases [of E m])
  case (decides e1 e2 e3 e4 e5 e6 p1 p2 p3 p4 p5 p6 m1)
  then have "consumes 0 m1 (zap_request E m)" using decide_consumes by metis
  then show ?thesis using decides(1) by (fastforce simp: consumes_def got_def)
qed (simp add: consumes_def)

lemma request_suffix:
  assumes "zap_request E m = (Goes (), m')"
  obtains used where "za_events m = used @ za_events m'" "6 \<le> length used"
  using zap_request_consumes [of m E] assms by (auto simp: consumes_def)

function zap_loop :: "'w zap_env \<Rightarrow> 'w zap \<Rightarrow> unit progress \<times> 'w zap" where
  \<comment> \<open>\<^verbatim>\<open>while (true)\<close>\<close>
  "zap_loop E m =
     (case zap_request E m of
        (Goes _, m1) \<Rightarrow> zap_loop E m1
      | (Waits, m1) \<Rightarrow> (Waits, m1)
      | (Crashes, m1) \<Rightarrow> (Crashes, m1))"
  by pat_completeness auto
termination
proof (relation "measure (\<lambda>(E, m). length (za_events m))", goal_cases)
  case (2 E m r m1 u)
  then show ?case using request_suffix [of E m m1] by fastforce
qed simp

declare zap_loop.simps [simp del]

datatype zap_thread = Setup_failed | Served "unit progress"

definition auth_routine :: "'w zap_env \<Rightarrow> bool \<Rightarrow> bool \<Rightarrow> 'w zap \<Rightarrow> bool \<times> zap_thread \<times> 'w zap" where
  \<comment> \<open>whether \<^verbatim>\<open>zmq_socket\<close> and \<^verbatim>\<open>zmq_bind\<close> succeed; the result: \<^verbatim>\<open>authentication_ready_flag\<close> and how
     the thread ended; with \<open>Setup_failed\<close> by the label \<^verbatim>\<open>error\<close>, which closes the socket\<close>
  "auth_routine E socket_ok bind_ok m =
     (if \<not> socket_ok \<or> \<not> bind_ok then (False, Setup_failed, m)
      else let (r, m1) = zap_loop E m in (True, Served r, m1))"

section \<open>What a request is answered\<close>

definition zap_frames :: "string \<times> string \<times> string \<Rightarrow> (string \<times> bool) list" where
  \<comment> \<open>the frames of an answer: of which request, status code and message\<close>
  "zap_frames = (\<lambda>(request_id, code, msg).
     [(''1.0'', True), (request_id, True), (code, True), (msg, True), ([], True), ([], False)])"

lemma zap_reply_eq:
  "zap_reply request_id code msg ps m =
     (case request_id of
        None \<Rightarrow> (Crashes, add_fault Null_deref (m\<lparr>za_sent := za_sent m @ [(''1.0'', True)]\<rparr>))
      | Some i \<Rightarrow> (Goes (), free_strings ps (m\<lparr>za_sent := za_sent m @ zap_frames (i, code, msg)\<rparr>)))"
  by (cases request_id) (simp_all add: zap_reply_def send_string_def null_crash_def zap_frames_def)

definition key_admitted :: "'w zap_env \<Rightarrow> 'w \<Rightarrow> string \<Rightarrow> bool" where
  \<comment> \<open>the file of authorized keys, as it can be read now, lists the key\<close>
  "key_admitted E w key \<longleftrightarrow>
     (case fst (za_keys E w) of None \<Rightarrow> False | Some content \<Rightarrow> key_listed (cstr (za_z85 E key)) content)"

definition zap_status :: "'w zap_env \<Rightarrow> 'w \<Rightarrow> string \<Rightarrow> string option \<Rightarrow> string \<times> string" where
  \<comment> \<open>what a complete request is answered: its version, and its key if the mechanism is \<^verbatim>\<open>CURVE\<close>\<close>
  "zap_status E w version key =
     (if version \<noteq> ''1.0'' then (''300'', ''invalid ZAP version'')
      else case key of
        None \<Rightarrow> (''400'', ''denied'')
      | Some k \<Rightarrow>
          if length (cstr (za_z85 E k)) \<noteq> 40 then (''400'', ''denied'')
          else if fst (za_keys E w) = None then (''300'', ''internal error'')
          else if key_admitted E w k then (''200'', ''OK'') else (''400'', ''denied''))"

lemma zap_verdict_eq:
  "zap_verdict E (Some version) curve client_key m =
     (Goes (zap_status E (za_world m) version (if curve then Some (the client_key) else None)),
      if version = ''1.0'' \<and> curve \<and> length (cstr (za_z85 E (the client_key))) = 40
      then m\<lparr>za_world := snd (za_keys E (za_world m))\<rparr> else m)"
  by (auto simp: zap_verdict_def strcmp_is_def zap_status_def key_admitted_def Let_def split: prod.split option.split)

definition decided :: "'w zap_env \<Rightarrow> string option \<Rightarrow> string option \<Rightarrow> string option list \<Rightarrow> 'w zap \<Rightarrow> unit progress \<times> 'w zap \<Rightarrow> bool" where
  "decided E request_id mechanism ps m = (\<lambda>(r, m').
     (r \<noteq> Goes () \<and> (za_sent m' = za_sent m \<or> za_sent m' = za_sent m @ [(''1.0'', True)])
      \<or> r = Goes () \<and> live m' = live m - strings ps \<and> faults m' = faults m \<and> (\<exists>i code msg. request_id = Some i
         \<and> za_sent m' = za_sent m @ zap_frames (i, code, msg)
         \<and> (code = ''200'' \<longrightarrow> mechanism = Some ''CURVE'' \<and> (\<exists>key. za_events m = Frame key # za_events m'
              \<and> length key = 32 \<and> key_admitted E (za_world m) key)))))"

lemma status_200: "fst (zap_status E w v k) = ''200'' \<Longrightarrow> \<exists>key. k = Some key \<and> key_admitted E w key"
  by (auto simp: zap_status_def split: if_splits option.splits)

lemma answer_decided:
  assumes "za_sent m1 = za_sent m" "live m1 = live m + strings [key]" "faults m1 = faults m" "za_world m1 = za_world m"
    and "\<And>k. curve \<Longrightarrow> key = Some k \<Longrightarrow> mechanism = Some ''CURVE'' \<and> length k = 32 \<and> za_events m = Frame k # za_events m1"
    and "curve \<Longrightarrow> key \<noteq> None"
  shows "decided E request_id mechanism ps m
    (then_do (zap_verdict E version curve key m1) (\<lambda>(code, msg) m2. zap_reply request_id code msg (ps @ [key]) m2))"
proof (cases version)
  case None
  with assms(1) show ?thesis by (simp add: zap_verdict_def strcmp_is_def null_crash_def decided_def)
next
  case (Some v)
  let ?k = "if curve then Some (the key) else None"
  obtain code msg where st: "zap_status E (za_world m1) v ?k = (code, msg)" by fastforce
  have g: "curve \<and> key_admitted E (za_world m1) (the key)" if "code = ''200''"
    using status_200 [of E "za_world m1" v ?k] st that by (auto split: if_splits)
  show ?thesis
  proof (cases request_id)
    case None
    with Some st assms(1) show ?thesis
      by (simp add: zap_verdict_eq zap_reply_eq decided_def)
  next
    case (Some i)
    have e: "mechanism = Some ''CURVE'' \<and> (\<exists>k. za_events m = Frame k # za_events m1 \<and> length k = 32
      \<and> key_admitted E (za_world m) k)" if "code = ''200''"
      using g [OF that] assms(4-6) by auto
    show ?thesis
      using \<open>version = Some v\<close> Some st assms(1-3) e
      by (auto simp: zap_verdict_eq zap_reply_eq decided_def)
  qed
qed

lemma decided_order:
  "strings ps = strings qs \<Longrightarrow> decided E i me ps m r \<longleftrightarrow> decided E i me qs m r"
  by (simp add: decided_def)

lemma zap_decide_decided:
  "decided E request_id mechanism [version, request_id, domain, address, ident, mechanism] m
     (zap_decide E version request_id domain address ident mechanism m)" (is "decided _ _ _ ?ps _ _")
proof -
  let ?qs = "[version, domain, request_id, ident, address, mechanism]"
  have p: "strings ?ps = strings ?qs" by simp
  have "decided E request_id mechanism ?qs m (zap_decide E version request_id domain address ident mechanism m)"
  proof (cases mechanism)
    case None
    then show ?thesis by (simp add: zap_decide_def strcmp_is_def null_crash_def decided_def)
  next
    case (Some me)
    show ?thesis
    proof (cases "me = ''CURVE''")
      case False
      with answer_decided [where ?m1.0 = m and m = m and key = None and curve = False and ps = ?qs] Some show ?thesis
        by (simp add: zap_decide_def strcmp_is_def)
    next
      case curve: True
      have two: "decided E request_id mechanism ?qs m (then_do (receive_message 32 m) (\<lambda>key m1.
          if key = None then zap_reply request_id ''300'' ''internal error'' (?qs @ [key]) m1
          else then_do (zap_verdict E version True key m1) (\<lambda>(code, msg) m2. zap_reply request_id code msg (?qs @ [key]) m2)))"
      proof (cases "za_events m")
        case Nil
        then show ?thesis by (simp add: receive_message_def next_event_def decided_def)
      next
        case (Cons ev evs)
        let ?m1 = "m\<lparr>za_events := evs\<rparr>"
        show ?thesis
        proof (cases "\<exists>key. ev = Frame key \<and> length key = 32")
          case False
          with Cons have "receive_message 32 m = (Goes None, ?m1)"
            by (cases ev) (auto simp: receive_message_def next_event_def)
          then show ?thesis by (cases request_id) (simp_all add: zap_reply_eq decided_def zap_frames_def)
        next
          case True
          then obtain key where key: "ev = Frame key" "length key = 32" by blast
          with Cons have r: "receive_message 32 m
            = (if alloc_ok ?m1 then (Goes (Some key), alloc_next ?m1) else null_crash (alloc_next ?m1))"
            by (simp add: receive_message_def next_event_def)
          show ?thesis
          proof (cases "alloc_ok ?m1")
            case True
            have "decided E request_id mechanism ?qs m (then_do (zap_verdict E version True (Some key) (alloc_next ?m1))
                (\<lambda>(code, msg) m2. zap_reply request_id code msg (?qs @ [Some key]) m2))"
              by (rule answer_decided) (use True Cons key Some curve in \<open>simp_all add: heap_simps\<close>)
            with r True show ?thesis by simp
          next
            case False
            with r show ?thesis by (simp add: null_crash_def decided_def)
          qed
        qed
      qed
      then show ?thesis unfolding Some curve by (simp add: zap_decide_def strcmp_is_def Let_def cong: if_cong)
    qed
  qed
  then show ?thesis unfolding decided_order [OF p] .
qed

text \<open>Where a request that was answered by \<^verbatim>\<open>200\<close> came from.\<close>

definition admitted_in :: "'w zap_env \<Rightarrow> zap_event list \<Rightarrow> bool" where
  "admitted_in E evs \<longleftrightarrow> (\<exists>before mech key after w. evs = before @ Frame mech # Frame key # after
     \<and> cstr (take 1024 mech) = ''CURVE'' \<and> length key = 32 \<and> key_admitted E w key)"

lemma admitted_in_suffix: "admitted_in E evs \<Longrightarrow> admitted_in E (used @ evs)"
  unfolding admitted_in_def by (metis append.assoc)

lemma zap_request_outcome:
  assumes "zap_request E m = (r, m')"
  shows "(r \<noteq> Goes () \<and> (za_sent m' = za_sent m \<or> za_sent m' = za_sent m @ [(''1.0'', True)]))
    \<or> (r = Goes () \<and> live m' = live m \<and> (\<exists>fs. faults m' = faults m @ fs \<and> set fs \<subseteq> {Buffer_overflow})
       \<and> (\<exists>i code msg. za_sent m' = za_sent m @ zap_frames (i, code, msg)
            \<and> (code = ''200'' \<longrightarrow> admitted_in E (za_events m))))"
proof (cases rule: zap_request_cases [of E m])
  case (waits es ps m1)
  with assms show ?thesis by (simp add: got_def)
next
  case (decides e1 e2 e3 e4 e5 e6 p1 p2 p3 p4 p5 p6 m1)
  from decides(2) assms zap_decide_decided [of E p2 p6 p1 p3 p4 p5 m1]
  have d: "decided E p2 p6 [p1, p2, p3, p4, p5, p6] m1 (r, m')" by simp
  from decides(1) have g: "za_events m = [e1, e2, e3, e4, e5, e6] @ za_events m1" "received e6 p6"
    "za_sent m1 = za_sent m" "live m1 = live m + strings [p1, p2, p3, p4, p5, p6]"
    "\<exists>fs. faults m1 = faults m @ fs \<and> set fs \<subseteq> {Buffer_overflow}" by (simp_all add: got_def)
  have a: "admitted_in E (za_events m)" if k: "p6 = Some ''CURVE''" "za_events m1 = Frame key # evs" "length key = 32"
    "key_admitted E w key" for key evs w
  proof -
    from g(2) k(1) obtain mech where "e6 = Frame mech" "cstr (take 1024 mech) = ''CURVE''" by (auto simp: received_def)
    then have "za_events m = [e1, e2, e3, e4, e5] @ Frame mech # Frame key # evs" using g(1) k(2) by simp
    with \<open>cstr (take 1024 mech) = ''CURVE''\<close> k(3,4) show ?thesis unfolding admitted_in_def by blast
  qed
  from d g a show ?thesis by (fastforce simp: decided_def)
qed

lemma zap_loop_outcome:
  "zap_loop E m = (r, m') \<Longrightarrow> r \<noteq> Goes () \<and> (\<exists>answers part. za_sent m' = za_sent m @ concat (map zap_frames answers) @ part
     \<and> (part = [] \<or> part = [(''1.0'', True)])
     \<and> (\<forall>(i, code, msg) \<in> set answers. code = ''200'' \<longrightarrow> admitted_in E (za_events m)))"
proof (induction E m rule: zap_loop.induct)
  case (1 E m)
  obtain r1 m1 where q: "zap_request E m = (r1, m1)" by fastforce
  note Q = zap_request_outcome [OF q]
  show ?case
  proof (cases "r1 = Goes ()")
    case True
    with 1(2) q have n: "zap_loop E m1 = (r, m')" by (simp add: zap_loop.simps [of E m])
    obtain answers part where IH: "r \<noteq> Goes ()" "za_sent m' = za_sent m1 @ concat (map zap_frames answers) @ part"
      "part = [] \<or> part = [(''1.0'', True)]" "\<forall>(i, code, msg) \<in> set answers. code = ''200'' \<longrightarrow> admitted_in E (za_events m1)"
      using 1(1) [OF q [symmetric] True n] by blast
    obtain i code msg where a: "za_sent m1 = za_sent m @ zap_frames (i, code, msg)"
      "code = ''200'' \<longrightarrow> admitted_in E (za_events m)" using Q True by auto
    obtain used where "za_events m = used @ za_events m1" by (rule request_suffix [of E m m1]) (use q True in auto)
    then have suf: "admitted_in E (za_events m1) \<Longrightarrow> admitted_in E (za_events m)" using admitted_in_suffix by metis
    have "\<forall>(i, code, msg) \<in> set ((i, code, msg) # answers). code = ''200'' \<longrightarrow> admitted_in E (za_events m)"
      using IH(4) a(2) suf by fastforce
    then show ?thesis
      using IH(1-3) a(1) by (intro conjI exI [of _ "(i, code, msg) # answers"] exI [of _ part]) simp_all
  next
    case False
    with 1(2) q have "r = r1" "m' = m1" by (cases r1; simp add: zap_loop.simps [of E m])+
    with Q False show ?thesis by (auto intro!: exI [of _ "[] :: (string \<times> string \<times> string) list"])
  qed
qed

section \<open>What a file of authorized keys lists\<close>

definition chunk_of :: "string \<Rightarrow> string \<Rightarrow> bool" where
  \<comment> \<open>the key is what stands at a multiple of 40 characters in the line\<close>
  "chunk_of key line \<longleftrightarrow> (\<exists>i. key = take 40 (drop (40 * i) line))"

lemma chunk_of_short: "length key = 40 \<Longrightarrow> length line < 40 \<Longrightarrow> \<not> chunk_of key line"
  by (auto simp: chunk_of_def)

lemma chunk_of_long: "chunk_of key line \<longleftrightarrow> key = take 40 line \<or> chunk_of key (drop 40 line)"
proof -
  have "(\<exists>i. key = take 40 (drop (40 * i) line)) \<longleftrightarrow> key = take 40 (drop (40 * 0) line)
    \<or> (\<exists>i. key = take 40 (drop (40 * Suc i) line))" by (metis not0_implies_Suc)
  then show ?thesis by (simp add: chunk_of_def add.commute)
qed

lemma fgets_line:
  assumes "newline \<notin> set line"
  shows "fgets 40 (line @ newline # rest) = (if length line < 40 then line @ [newline] else take 40 line)"
    "fgets 40 line = take 40 line"
proof -
  have a: "takeWhile (\<lambda>c. c \<noteq> newline) (take k line) = take k line" "newline \<notin> set (take k line)" for k
    using assms by (auto simp: takeWhile_eq_all_conv dest: in_set_takeD)
  show "fgets 40 line = take 40 line" by (simp add: fgets_def a)
  show "fgets 40 (line @ newline # rest) = (if length line < 40 then line @ [newline] else take 40 line)"
  proof (cases "length line < 40")
    case True
    then have "take 40 (line @ newline # rest) = line @ newline # take (39 - length line) rest"
      by (simp add: take_Cons')
    moreover have "takeWhile (\<lambda>c. c \<noteq> newline) (line @ newline # t) = line" for t
      using assms by (subst takeWhile_append2) auto
    ultimately show ?thesis using True assms by (simp add: fgets_def)
  qed (simp add: fgets_def a)
qed

lemma cstr_clean: "NUL \<notin> set buf \<Longrightarrow> cstr buf = buf"
  by (auto simp: cstr_def takeWhile_eq_all_conv)

lemma key_listed_line:
  assumes "newline \<notin> set line" "NUL \<notin> set line" "length key = 40" "newline \<notin> set key"
  shows "key_listed key (line @ newline # rest) \<longleftrightarrow> chunk_of key line \<or> key_listed key rest"
  using assms(1,2)
proof (induction "length line" arbitrary: line rule: less_induct)
  case less
  note f = fgets_line(1) [OF less.prems(1), of rest]
  show ?case
  proof (cases "length line < 40")
    case True
    have "cstr (line @ [newline]) = line @ [newline]"
      using less.prems(2) by (intro cstr_clean) (simp add: NUL_def newline_def)
    then have "cstr (line @ [newline]) \<noteq> key" using assms(4) by auto
    then show ?thesis
      using f True chunk_of_short [OF assms(3) True]
      by (subst key_listed.simps) (simp add: Let_def)
  next
    case False
    then have c: "cstr (take 40 line) = take 40 line"
      using less.prems(2) by (auto intro!: cstr_clean dest: in_set_takeD)
    have "length (drop 40 line) < length line" "newline \<notin> set (drop 40 line)" "NUL \<notin> set (drop 40 line)"
      using False less.prems by (auto dest: in_set_dropD)
    then have IH: "key_listed key (drop 40 line @ newline # rest)
      \<longleftrightarrow> chunk_of key (drop 40 line) \<or> key_listed key rest" by (rule less.hyps)
    show ?thesis
      using f False c IH chunk_of_long [of key line]
      by (subst key_listed.simps) (auto simp: Let_def)
  qed
qed

lemma key_listed_last:
  assumes "newline \<notin> set line" "NUL \<notin> set line" "length key = 40"
  shows "key_listed key line \<longleftrightarrow> chunk_of key line"
  using assms(1,2)
proof (induction "length line" arbitrary: line rule: less_induct)
  case less
  note f = fgets_line(2) [OF less.prems(1)]
  have c: "cstr (take 40 line) = take 40 line"
    using less.prems(2) by (auto intro!: cstr_clean dest: in_set_takeD)
  show ?case
  proof (cases "line = []")
    case True
    then show ?thesis using chunk_of_short [OF assms(3), of line] by (simp add: key_listed.simps)
  next
    case False
    then have "length (drop 40 line) < length line" "newline \<notin> set (drop 40 line)" "NUL \<notin> set (drop 40 line)"
      using less.prems by (auto dest: in_set_dropD)
    then have IH: "key_listed key (drop 40 line) \<longleftrightarrow> chunk_of key (drop 40 line)" by (rule less.hyps)
    then have IH': "key_listed key (drop (min (length line) 40) line) \<longleftrightarrow> chunk_of key (drop 40 line)"
      by (cases "length line \<le> 40") (simp_all add: min_def)
    show ?thesis
      using f False c IH' chunk_of_long [of key line]
      by (subst key_listed.simps) (auto simp: Let_def)
  qed
qed

lemma key_listed_file:
  assumes "\<forall>line \<in> set (last_line # lines). newline \<notin> set line \<and> NUL \<notin> set line"
    and "length key = 40" "newline \<notin> set key"
  shows "key_listed key (concat (map (\<lambda>line. line @ [newline]) lines) @ last_line)
    \<longleftrightarrow> (\<exists>line \<in> set (last_line # lines). chunk_of key line)"
  using assms(1)
proof (induction lines)
  case Nil
  then show ?case using key_listed_last [OF _ _ assms(2)] by simp
next
  case (Cons line lines)
  then show ?case
    using key_listed_line [of line key "concat (map (\<lambda>line. line @ [newline]) lines) @ last_line"] assms(2,3) by auto
qed

lemma receive_clean:
  "za_events m = Frame d # evs \<Longrightarrow> length d < 1024 \<Longrightarrow> NUL \<notin> set d \<Longrightarrow> outcomes m = []
     \<Longrightarrow> receive_string m = (Goes (Some d), alloc_next (m\<lparr>za_events := evs\<rparr>))"
  by (simp add: receive_string_def next_event_def Let_def heap_simps cstr_clean)

lemma status_200_iff:
  "length (cstr (za_z85 E key)) = 40 \<Longrightarrow>
     fst (zap_status E w version (Some key)) = ''200'' \<longleftrightarrow> version = ''1.0'' \<and> key_admitted E w key"
  by (auto simp: zap_status_def key_admitted_def)

section \<open>Properties\<close>

text \<open>A parameter the witnesses run on: keys of 32 equal characters stand for 40 of them.\<close>

definition demo_zap :: "unit zap_env" where
  "demo_zap = \<lparr>za_z85 = (\<lambda>k. replicate 40 (hd k)),
     za_keys = (\<lambda>_. (Some (replicate 40 CHR ''k'' @ [newline]), ()))\<rparr>"

definition demo_request_frames :: "zap_event list" where
  "demo_request_frames = map Frame [''1.0'', ''7'', [], ''10.0.0.1'', [], ''CURVE'', replicate 32 CHR ''k'']"

definition zap_start :: "zap_event list \<Rightarrow> unit zap" where
  "zap_start evs = \<lparr>outcomes = [], live = 0, faults = [], za_events = evs, za_sent = [], za_world = ()\<rparr>"



text \<open>
  C25: a complete request is answered and forgotten: for six frames shorter than the buffer without
  NUL, the last of them naming \<^verbatim>\<open>CURVE\<close>, and a key of 32 bytes, the thread sends the six frames of an
  answer to that request, whose status is \<^verbatim>\<open>200\<close> exactly if the version is \<^verbatim>\<open>1.0\<close> and the key is listed,
  frees everything it received and takes no other event.
\<close>

theorem auth_request_answered:
  assumes "za_events m = map Frame [version, request_id, domain, address, ident, ''CURVE'', key] @ evs"
    and "\<forall>s \<in> set [version, request_id, domain, address, ident]. length s < 1024 \<and> NUL \<notin> set s"
    and "length key = 32" "length (cstr (za_z85 E key)) = 40" "outcomes m = []"
  shows "\<exists>m' code msg. zap_request E m = (Goes (), m')
     \<and> za_sent m' = za_sent m @ zap_frames (request_id, code, msg)
     \<and> (code = ''200'' \<longleftrightarrow> version = ''1.0'' \<and> key_admitted E (za_world m) key)
     \<and> za_events m' = evs \<and> live m' = live m \<and> faults m' = faults m"
proof -
  have mech: "length ''CURVE'' < 1024" "NUL \<notin> set ''CURVE''" by (simp_all add: NUL_def)
  let ?ps = "map Some [version, request_id, domain, address, ident, ''CURVE'']"
  obtain m1 where m1: "zap_request E m
      = zap_decide E (Some version) (Some request_id) (Some domain) (Some address) (Some ident) (Some ''CURVE'') m1"
    "za_events m1 = Frame key # evs" "outcomes m1 = []" "live m1 = live m + 6" "faults m1 = faults m"
    "za_sent m1 = za_sent m" "za_world m1 = za_world m"
    using assms(1,2,5) mech by (simp add: zap_request_def receive_clean heap_simps)
  let ?m2 = "alloc_next (m1\<lparr>za_events := evs\<rparr>)"
  have r: "receive_message 32 m1 = (Goes (Some key), ?m2)"
    using m1(2,3) assms(3) by (simp add: receive_message_def next_event_def heap_simps)
  obtain code msg where st: "zap_status E (za_world m) version (Some key) = (code, msg)" by fastforce
  have c: "code = ''200'' \<longleftrightarrow> version = ''1.0'' \<and> key_admitted E (za_world m) key"
    using status_200_iff [OF assms(4), of "za_world m" version] st by simp
  have "\<exists>m'. zap_decide E (Some version) (Some request_id) (Some domain) (Some address) (Some ident) (Some ''CURVE'') m1
      = (Goes (), m') \<and> za_sent m' = za_sent m @ zap_frames (request_id, code, msg) \<and> za_events m' = evs
      \<and> live m' = live m \<and> faults m' = faults m"
    using m1(3-7) st by (auto simp: zap_decide_def strcmp_is_def r zap_verdict_eq zap_reply_eq heap_simps)
  then show ?thesis using m1(1) c by auto
qed

theorem auth_request_answered_witness:
  "\<exists>m' msg. zap_request demo_zap (zap_start demo_request_frames) = (Goes (), m')
     \<and> za_sent m' = zap_frames (''7'', ''200'', msg) \<and> live m' = 0"
proof -
  let ?k = "replicate 32 CHR ''k''"
  have e: "za_events (zap_start demo_request_frames)
      = map Frame [''1.0'', ''7'', [], ''10.0.0.1'', [], ''CURVE'', ?k] @ []"
    by (simp add: zap_start_def demo_request_frames_def)
  have z: "cstr (za_z85 demo_zap ?k) = replicate 40 CHR ''k''"
    by (simp add: demo_zap_def cstr_def NUL_def takeWhile_replicate)
  have "key_listed (replicate 40 CHR ''k'') (replicate 40 CHR ''k'' @ newline # [])"
    by (subst key_listed_line) (simp_all add: newline_def NUL_def chunk_of_def exI [of _ 0])
  then have k: "key_admitted demo_zap () ?k" unfolding key_admitted_def z by (simp add: demo_zap_def)
  have "\<forall>s \<in> set [''1.0'', ''7'', [], ''10.0.0.1'', []]. length s < 1024 \<and> NUL \<notin> set s" by (simp add: NUL_def)
  from auth_request_answered [OF e this, of demo_zap] z have
    "\<exists>m' code msg. zap_request demo_zap (zap_start demo_request_frames) = (Goes (), m')
     \<and> za_sent m' = zap_frames (''7'', code, msg) \<and> (code = ''200'' \<longleftrightarrow> key_admitted demo_zap () ?k) \<and> live m' = 0"
    by (simp add: zap_start_def) blast
  with k show ?thesis by blast
qed

text \<open>
  C34: what a file of authorized keys lists: the lines of the file, read in pieces of 40 characters. A key
  is listed if and only if it stands at the start of a line or at another multiple of 40 characters
  in it; so a comment after a key does no harm, unless it is long enough to hold a key itself.
\<close>

theorem keys_file_meaning:
  assumes "\<forall>line \<in> set (last_line # lines). newline \<notin> set line \<and> NUL \<notin> set line"
    and "length key = 40" "newline \<notin> set key"
  shows "key_listed key (concat (map (\<lambda>line. line @ [newline]) lines) @ last_line)
    \<longleftrightarrow> (\<exists>line \<in> set (last_line # lines). \<exists>i. key = take 40 (drop (40 * i) line))"
  using key_listed_file [OF assms] unfolding chunk_of_def .

theorem keys_file_meaning_witness:
  "key_listed (replicate 40 CHR ''k'') (replicate 40 CHR ''k'' @ '' of a friend'' @ [newline] @ ''x'')"
proof -
  let ?k = "replicate 40 CHR ''k''"
  have "\<forall>line \<in> set [''x'', ?k @ '' of a friend'']. newline \<notin> set line \<and> NUL \<notin> set line"
    by (simp add: newline_def NUL_def)
  from keys_file_meaning [OF this, of ?k] have "key_listed ?k ((?k @ '' of a friend'') @ [newline] @ ''x'')"
    by (auto simp: newline_def intro: exI [of _ 0])
  then show ?thesis by simp
qed

text \<open>
  C39: shutting down the server makes the authentication thread dereference NULL: once ZeroMQ is
  terminated every \<^verbatim>\<open>zmq_poll\<close> fails, so the six strings of the next request are NULL, and the
  first comparison reads one of them.
\<close>

theorem auth_shutdown_crashes:
  assumes "za_events m = replicate 6 Poll_failed @ evs"
  shows "\<exists>m'. auth_routine E True True m = (True, Served Crashes, m')
    \<and> faults m' = faults m @ [Null_deref] \<and> za_sent m' = za_sent m"
proof -
  have "\<exists>m'. zap_request E m = (Crashes, m') \<and> faults m' = faults m @ [Null_deref] \<and> za_sent m' = za_sent m"
    using assms by (simp add: zap_request_def receive_string_def next_event_def numeral_eq_Suc zap_decide_def
        strcmp_is_def null_crash_def heap_simps)
  then show ?thesis by (auto simp: auth_routine_def zap_loop.simps [of E m])
qed

theorem auth_shutdown_crashes_witness:
  "\<exists>m'. auth_routine demo_zap True True (zap_start (replicate 6 Poll_failed)) = (True, Served Crashes, m')
    \<and> faults m' = [Null_deref]"
  using auth_shutdown_crashes [of "zap_start (replicate 6 Poll_failed)" "[]" demo_zap] by (auto simp: zap_start_def)

end
