(* ===== verification/Rhizo_Daemon.thy ===== *)
theory Rhizo_Daemon
  imports Rhizo_Prelude
begin

text \<open>
  Model of the server program, \<^verbatim>\<open>src/server/main.c\<close>: parsing the command line, the keys, becoming a
  daemon, starting the threads and the queue between the sockets, and shutting down. The
  authentication thread it starts is the theory \<open>Rhizo_Auth\<close>, a worker is \<open>worker_routine\<close> of \<open>Rhizo_Server\<close>.

  The calls into the C library, ZeroMQ and pthreads are the parameter \<open>boot_env\<close>; they are
  recorded with the value they returned in \<open>d_trace\<close>. \<^verbatim>\<open>getopt_long\<close> is the C library's: what it
  delivers is the list of options with their arguments. The other globals of the program are the
  fields of \<open>daemon\<close>; a pointer or handle is a flag that says whether it is set. A function that
  may call \<^verbatim>\<open>exit\<close> returns \<open>Exits\<close> with the status.

  What is proved: the settings that parsing accepts are in range; the order in which the server
  comes up; that it always ends with everything closed and joined; that nothing makes
  sure that a server with a file of authorized keys is encrypted; and that a wrong command line
  ends with the status of success.
\<close>

section \<open>Calls and state\<close>

datatype boot_call =
    Say | Print_key string
  | Fopen string char | Fclose_file | Write_key string | Umask nat
  | Read_file string | Keypair
  | Close_logfile | Close_pidfile | Write_pid int | Close_std
  | Fork | Setsid
  | Ctx_new | Signal_handlers | Ctx_term
  | Auth_thread | Ready_flag | Usleep nat | Join_auth
  | Socket_in | Set_curve_server | Set_secretkey string | Bind_in string | Close_in
  | Socket_worker | Bind_worker | Close_worker
  | Worker_thread nat | Join_worker nat
  | Device

record 'w boot_env =
  b_call :: "boot_call \<Rightarrow> 'w \<Rightarrow> int \<times> 'w"
  b_file :: "string \<Rightarrow> 'w \<Rightarrow> string option"
  b_keypair :: "'w \<Rightarrow> string \<times> string"

record server_settings =
  ss_directory :: string
  ss_socketname :: string
  ss_n_worker_threads :: int
  ss_encrypt :: bool
  ss_foreground :: bool
  ss_verbose :: bool
  ss_authorized_keys_file :: "string option"

record 'w daemon = heap +
  d_settings :: server_settings
  d_trace :: "(boot_call \<times> int) list"
  d_world :: 'w
  d_context :: bool
  d_in_socket :: bool
  d_worker_socket :: bool
  d_workers :: bool
  d_auth_thread :: bool
  d_logfile :: bool
  d_pidfile :: bool
  d_exit_code :: int
  d_key_file :: "string option"
  d_pubkey_file :: "string option"

definition ask :: "'w boot_env \<Rightarrow> boot_call \<Rightarrow> 'w daemon \<Rightarrow> int \<times> 'w daemon" where
  "ask E c m = (let (r, w) = b_call E c (d_world m) in (r, m\<lparr>d_trace := d_trace m @ [(c, r)], d_world := w\<rparr>))"

definition tell :: "'w boot_env \<Rightarrow> boot_call \<Rightarrow> 'w daemon \<Rightarrow> 'w daemon" where
  \<comment> \<open>a call whose result the code ignores\<close>
  "tell E c m = snd (ask E c m)"

datatype 'v run = Runs 'v | Exits int

fun and_run :: "'v run \<times> 's \<Rightarrow> ('v \<Rightarrow> 's \<Rightarrow> 'u run \<times> 's) \<Rightarrow> 'u run \<times> 's" where
  "and_run (Runs v, m) k = k v m"
| "and_run (Exits n, m) k = (Exits n, m)"

section \<open>Shutting down\<close>

definition tell_all :: "'w boot_env \<Rightarrow> boot_call list \<Rightarrow> 'w daemon \<Rightarrow> 'w daemon" where
  "tell_all E cs m = fold (tell E) cs m"

definition shutdown :: "'w boot_env \<Rightarrow> 'w daemon \<Rightarrow> 'v run \<times> 'w daemon" where
  "shutdown E m =
     (let m1 = (if d_in_socket m then (tell E Close_in m)\<lparr>d_in_socket := False\<rparr> else m);
          m2 = (if d_worker_socket m1 then (tell E Close_worker m1)\<lparr>d_worker_socket := False\<rparr> else m1);
          m3 = (if d_context m2 then (tell E Ctx_term m2)\<lparr>d_context := False\<rparr> else m2);
          m4 = (if d_workers m3
                then release 1 (tell_all E (map Join_worker [0..<nat (ss_n_worker_threads (d_settings m3))]) m3)
                else m3);
          m5 = (if d_auth_thread m4 then tell E Join_auth m4 else m4);
          m6 = (if d_logfile m5 then (tell E Close_logfile m5)\<lparr>d_logfile := False\<rparr> else m5);
          m7 = (if d_pidfile m6 then (tell E Close_pidfile m6)\<lparr>d_pidfile := False\<rparr> else m6)
      in (Exits (d_exit_code m7), m7))"

definition print_wrong_arg :: "'w boot_env \<Rightarrow> 'w daemon \<Rightarrow> 'v run \<times> 'w daemon" where
  "print_wrong_arg E m = shutdown E (tell E Say m)"

section \<open>Starting up\<close>

definition startup_error :: "'w boot_env \<Rightarrow> 'w daemon \<Rightarrow> 'v run \<times> 'w daemon" where
  "startup_error E m = shutdown E (m\<lparr>d_exit_code := 1\<rparr>)"

primrec wait_ready :: "'w boot_env \<Rightarrow> nat \<Rightarrow> 'w daemon \<Rightarrow> 'w daemon" where
  \<comment> \<open>reading the flag the thread sets is \<open>Ready_flag\<close>\<close>
  "wait_ready E 0 m = m"
| "wait_ready E (Suc n) m =
     (let (flag, m1) = ask E Ready_flag m in
      if flag \<noteq> 0 then m1 else wait_ready E n (tell E (Usleep 1000) m1))"

definition start_auth :: "'w boot_env \<Rightarrow> 'w daemon \<Rightarrow> unit run \<times> 'w daemon" where
  "start_auth E m =
     (if ss_authorized_keys_file (d_settings m) = None then (Runs (), m)
      else let (r, m1) = ask E Auth_thread m;
               (flag, m2) = ask E Ready_flag (wait_ready E 1000 (m1\<lparr>d_auth_thread := (r = 0)\<rparr>))
           in if flag \<noteq> 0 then (Runs (), m2) else startup_error E m2)"

definition start_sockets :: "'w boot_env \<Rightarrow> string option \<Rightarrow> 'w daemon \<Rightarrow> unit run \<times> 'w daemon" where
  "start_sockets E secret_key m =
     (let (s, m1) = ask E Socket_in m in
      if s = 0 then startup_error E m1
      else
        let m2 = m1\<lparr>d_in_socket := True\<rparr>;
            m3 = (case secret_key of None \<Rightarrow> m2
                  | Some k \<Rightarrow> tell E (Set_secretkey (take 40 k)) (tell E Set_curve_server m2));
            (b, m4) = ask E (Bind_in (ss_socketname (d_settings m3))) m3
        in if b \<noteq> 0 then startup_error E m4
        else
          let (s, m5) = ask E Socket_worker m4 in
          if s = 0 then startup_error E m5
          else
            let (b, m6) = ask E Bind_worker (m5\<lparr>d_worker_socket := True\<rparr>) in
            if b \<noteq> 0 then startup_error E m6 else (Runs (), m6))"

definition start_workers :: "'w boot_env \<Rightarrow> 'w daemon \<Rightarrow> unit run \<times> 'w daemon" where
  "start_workers E m =
     (if \<not> alloc_ok m then startup_error E (alloc_next m)
      else (Runs (), tell_all E (map Worker_thread [0..<nat (ss_n_worker_threads (d_settings m))])
              ((alloc_next m)\<lparr>d_workers := True\<rparr>)))"

definition startup :: "'w boot_env \<Rightarrow> string option \<Rightarrow> 'w daemon \<Rightarrow> unit run \<times> 'w daemon" where
  "startup E secret_key m =
     (let (ctx, m1) = ask E Ctx_new m in
      if ctx = 0 then startup_error E m1
      else
        and_run (start_auth E (tell E Signal_handlers (m1\<lparr>d_context := True\<rparr>))) (\<lambda>_ m2.
        and_run (start_sockets E secret_key m2) (\<lambda>_ m3.
        and_run (start_workers E m3) (\<lambda>_ m4.
          let (d, m5) = ask E Device m4 in
          if d \<noteq> 0 then startup_error E m5 else shutdown E m5))))"

section \<open>The daemon\<close>

definition daemonize :: "'w boot_env \<Rightarrow> 'w daemon \<Rightarrow> unit run \<times> 'w daemon" where
  "daemonize E m =
     (let (pid, m1) = ask E Fork m in
      if pid < 0 then shutdown E (m1\<lparr>d_exit_code := 1\<rparr>)
      else if 0 < pid then (Exits 0, m1)
      else
        let (sid, m2) = ask E Setsid m1 in
        if sid < 0 then shutdown E (m2\<lparr>d_exit_code := 1\<rparr>)
        else
          let m3 = (if d_pidfile m2 then (tell E Close_pidfile (tell E (Write_pid sid) m2))\<lparr>d_pidfile := False\<rparr> else m2)
          in (Runs (), tell E Close_std m3))"

section \<open>The command line\<close>

definition MAX_N_WORKER_THREADS :: int where "MAX_N_WORKER_THREADS = 200"
definition DEFAULT_N_WORKER_THREADS :: int where "DEFAULT_N_WORKER_THREADS = 5"

fun digits_value :: "int \<Rightarrow> string \<Rightarrow> int" where
  "digits_value n [] = n"
| "digits_value n (c # cs) =
     (if 48 \<le> (of_char c :: int) \<and> (of_char c :: int) \<le> 57 then digits_value (10 * n + (of_char c - 48)) cs else n)"

definition atoi :: "string \<Rightarrow> int" where
  \<comment> \<open>\<^verbatim>\<open>(int) strtol(s, NULL, 10)\<close> of the C library\<close>
  "atoi s =
     (let t = dropWhile (\<lambda>c. c \<in> set '' '' \<or> (9 \<le> (of_char c :: int) \<and> (of_char c :: int) \<le> 13)) s;
          v = (case t of
                 [] \<Rightarrow> 0
               | c # cs \<Rightarrow> if c = CHR ''-'' then - digits_value 0 cs
                          else if c = CHR ''+'' then digits_value 0 cs else digits_value 0 t)
      in int32 (max (- (2 ^ 63)) (min (2 ^ 63 - 1) v)))"

definition strdup_arg :: "string \<Rightarrow> 'w daemon \<Rightarrow> string option \<times> 'w daemon" where
  "strdup_arg s m = (if alloc_ok m then Some s else None, alloc_next m)"

definition parse_option :: "'w boot_env \<Rightarrow> char \<Rightarrow> string \<Rightarrow> 'w daemon \<Rightarrow> unit run \<times> 'w daemon" where
  "parse_option E optc optarg m =
     (if optc = CHR ''a'' then
        let (p, m1) = strdup_arg optarg m in
        (Runs (), m1\<lparr>d_settings := (d_settings m1)\<lparr>ss_authorized_keys_file := p\<rparr>\<rparr>)
      else if optc = CHR ''n'' then
        let n = atoi optarg; m1 = m\<lparr>d_settings := (d_settings m)\<lparr>ss_n_worker_threads := n\<rparr>\<rparr> in
        if n < 1 \<or> MAX_N_WORKER_THREADS < n then print_wrong_arg E m1 else (Runs (), m1)
      else if optc = CHR ''k'' then
        let (p, m1) = strdup_arg optarg m in (Runs (), m1\<lparr>d_key_file := p\<rparr>)
      else if optc = CHR ''l'' then
        let (f, m1) = ask E (Fopen optarg CHR ''a'') m; m2 = m1\<lparr>d_logfile := (f \<noteq> 0)\<rparr> in
        if f = 0 then shutdown E (tell E Say m2) else (Runs (), m2)
      else if optc = CHR ''p'' then
        let (f, m1) = ask E (Fopen optarg CHR ''w'') m; m2 = m1\<lparr>d_pidfile := (f \<noteq> 0)\<rparr> in
        if f = 0 then shutdown E (tell E Say m2) else (Runs (), m2)
      else if optc = CHR ''h'' \<or> optc = CHR ''v'' then shutdown E (tell E Say m)
      else if optc = CHR ''V'' then (Runs (), m\<lparr>d_settings := (d_settings m)\<lparr>ss_verbose := True\<rparr>\<rparr>)
      else if optc = CHR ''e'' then (Runs (), m\<lparr>d_settings := (d_settings m)\<lparr>ss_encrypt := True\<rparr>\<rparr>)
      else if optc = CHR ''f'' then (Runs (), m\<lparr>d_settings := (d_settings m)\<lparr>ss_foreground := True\<rparr>\<rparr>)
      else if optc = CHR ''P'' then
        let (p, m1) = strdup_arg optarg m in (Runs (), m1\<lparr>d_pubkey_file := p\<rparr>)
      else print_wrong_arg E m)"

fun parse_options :: "'w boot_env \<Rightarrow> (char \<times> string) list \<Rightarrow> 'w daemon \<Rightarrow> unit run \<times> 'w daemon" where
  "parse_options E [] m = (Runs (), m)"
| "parse_options E ((optc, optarg) # opts) m =
     and_run (parse_option E optc optarg m) (\<lambda>_ m1. parse_options E opts m1)"

section \<open>The program\<close>

definition main_error :: "'w daemon \<Rightarrow> 'v run \<times> 'w daemon" where
  \<comment> \<open>the label \<^verbatim>\<open>error\<close>, which continues at \<^verbatim>\<open>cleanup\<close>; its \<^verbatim>\<open>exit_code\<close> is a local variable\<close>
  "main_error m = (Exits 1,
     release (int (length (filter (\<lambda>p. p \<noteq> None) [d_pubkey_file m, d_key_file m]))) m)"

definition read_key :: "'w boot_env \<Rightarrow> string \<Rightarrow> 'w daemon \<Rightarrow> string run \<times> 'w daemon" where
  "read_key E path m =
     (let m1 = tell E (Read_file path) m in
      case b_file E path (d_world m) of
        Some content \<Rightarrow> (if 40 \<le> length content then (Runs (take 40 content), tell E Fclose_file m1) else main_error m1)
      | None \<Rightarrow> main_error m1)"

definition make_keys :: "'w boot_env \<Rightarrow> 'w daemon \<Rightarrow> string run \<times> 'w daemon" where
  "make_keys E m =
     (case d_key_file m of
        Some key_file \<Rightarrow>
          and_run (read_key E key_file m) (\<lambda>_ m1. read_key E (take (PATH_MAX - 1) (key_file @ ''.secret'')) m1)
      | None \<Rightarrow>
          (let (r, m1) = ask E Keypair m; (public_key, secret_key) = b_keypair E (d_world m) in
           if r \<noteq> 0 then main_error m1
           else case d_pubkey_file m1 of
             None \<Rightarrow> (Runs secret_key, tell E (Print_key public_key) m1)
           | Some path \<Rightarrow>
               (let (old_mode, m2) = ask E (Umask 0x36) m1; (f, m3) = ask E (Fopen path CHR ''w'') m2 in
                if f = 0 then main_error m3
                else (Runs secret_key, tell_all E [Write_key public_key, Fclose_file, Umask (nat old_mode)] m3))))"

definition server_main :: "'w boot_env \<Rightarrow> (char \<times> string) list \<Rightarrow> string list \<Rightarrow> 'w daemon \<Rightarrow> unit run \<times> 'w daemon" where
  \<comment> \<open>the options, and the arguments that are left after them\<close>
  "server_main E opts args m =
     (let m0 = m\<lparr>d_settings := (d_settings m)\<lparr>ss_n_worker_threads := DEFAULT_N_WORKER_THREADS,
                   ss_verbose := False, ss_foreground := False\<rparr>\<rparr> in
      and_run (parse_options E opts m0) (\<lambda>_ m1.
        case args of
          socketname # directory # _ \<Rightarrow>
            (let m2 = m1\<lparr>d_settings := (d_settings m1)\<lparr>ss_socketname := socketname, ss_directory := directory\<rparr>\<rparr>;
                 m3 = (if ss_verbose (d_settings m2) then tell E Say m2 else m2) in
             and_run (if ss_encrypt (d_settings m3) then
                        and_run (make_keys E m3) (\<lambda>k m4. (Runs (Some k), m4))
                      else (Runs None, m3)) (\<lambda>secret_key m4.
             and_run (if ss_foreground (d_settings m4) then (Runs (), m4) else daemonize E m4) (\<lambda>_ m5.
               startup E secret_key m5)))
        | _ \<Rightarrow> print_wrong_arg E m1))"

section \<open>Traces\<close>

named_theorems boot_simps \<open>what a call leaves alone\<close>

lemma ask_eq: "ask E c m = (fst (b_call E c (d_world m)), tell E c m)"
  by (simp add: tell_def ask_def Let_def split: prod.split)

lemma tell_frame [boot_simps]:
  "d_trace (tell E c m) = d_trace m @ [(c, fst (b_call E c (d_world m)))]"
  "d_settings (tell E c m) = d_settings m" "d_context (tell E c m) = d_context m"
  "d_in_socket (tell E c m) = d_in_socket m" "d_worker_socket (tell E c m) = d_worker_socket m"
  "d_workers (tell E c m) = d_workers m" "d_auth_thread (tell E c m) = d_auth_thread m"
  "d_logfile (tell E c m) = d_logfile m" "d_pidfile (tell E c m) = d_pidfile m"
  "d_exit_code (tell E c m) = d_exit_code m" "live (tell E c m) = live m" "outcomes (tell E c m) = outcomes m"
  by (simp_all add: tell_def ask_def Let_def split: prod.split)

lemma heap_daemon [boot_simps]:
  fixes m :: "'w daemon"
  shows "d_trace (release n m) = d_trace m" "d_trace (alloc_next m) = d_trace m"
    "d_settings (release n m) = d_settings m" "d_settings (alloc_next m) = d_settings m"
    "d_context (release n m) = d_context m" "d_context (alloc_next m) = d_context m"
    "d_in_socket (release n m) = d_in_socket m" "d_in_socket (alloc_next m) = d_in_socket m"
    "d_worker_socket (release n m) = d_worker_socket m" "d_worker_socket (alloc_next m) = d_worker_socket m"
    "d_workers (release n m) = d_workers m" "d_workers (alloc_next m) = d_workers m"
    "d_auth_thread (release n m) = d_auth_thread m" "d_auth_thread (alloc_next m) = d_auth_thread m"
    "d_logfile (release n m) = d_logfile m" "d_logfile (alloc_next m) = d_logfile m"
    "d_pidfile (release n m) = d_pidfile m" "d_pidfile (alloc_next m) = d_pidfile m"
    "d_exit_code (release n m) = d_exit_code m" "d_exit_code (alloc_next m) = d_exit_code m"
  by (simp_all add: release_def alloc_next_def)

lemma tell_all_frame [boot_simps]:
  "d_settings (tell_all E cs m) = d_settings m" "d_context (tell_all E cs m) = d_context m"
  "d_in_socket (tell_all E cs m) = d_in_socket m" "d_worker_socket (tell_all E cs m) = d_worker_socket m"
  "d_workers (tell_all E cs m) = d_workers m" "d_auth_thread (tell_all E cs m) = d_auth_thread m"
  "d_logfile (tell_all E cs m) = d_logfile m" "d_pidfile (tell_all E cs m) = d_pidfile m"
  "d_exit_code (tell_all E cs m) = d_exit_code m" "live (tell_all E cs m) = live m"
  "outcomes (tell_all E cs m) = outcomes m"
  unfolding tell_all_def by (induction cs arbitrary: m) (simp_all add: boot_simps)

lemma tell_all_trace:
  obtains new where "d_trace (tell_all E cs m) = d_trace m @ new" "map fst new = cs"
proof -
  have "\<exists>new. d_trace (tell_all E cs m) = d_trace m @ new \<and> map fst new = cs"
  proof (induction cs arbitrary: m)
    case Nil
    then show ?case by (simp add: tell_all_def)
  next
    case (Cons c cs)
    obtain new where "d_trace (tell_all E cs (tell E c m)) = d_trace (tell E c m) @ new" "map fst new = cs"
      using Cons.IH by blast
    then show ?case by (intro exI [of _ "(c, fst (b_call E c (d_world m))) # new"]) (simp add: tell_all_def boot_simps)
  qed
  then show thesis using that by blast
qed

section \<open>Shutting down closes everything\<close>

definition stopped :: "'w daemon \<Rightarrow> bool" where
  \<comment> \<open>no handle is left\<close>
  "stopped m \<longleftrightarrow> \<not> d_context m \<and> \<not> d_in_socket m \<and> \<not> d_worker_socket m \<and> \<not> d_logfile m \<and> \<not> d_pidfile m"

fun closing :: "boot_call \<Rightarrow> bool" where
  "closing Close_in = True" | "closing Close_worker = True" | "closing Ctx_term = True"
| "closing (Join_worker _) = True" | "closing Join_auth = True" | "closing Close_logfile = True"
| "closing Close_pidfile = True" | "closing _ = False"

fun is_join :: "boot_call \<Rightarrow> bool" where
  "is_join (Join_worker _) = True" | "is_join _ = False"

definition does :: "'w daemon \<Rightarrow> (boot_call \<times> int) list \<Rightarrow> 'w daemon \<Rightarrow> bool" where
  \<comment> \<open>these are the calls made between the two states\<close>
  "does m new m' \<longleftrightarrow> d_trace m' = d_trace m @ new \<and> d_settings m' = d_settings m"

lemma does_trans: "does m a m1 \<Longrightarrow> does m1 b m2 \<Longrightarrow> does m (a @ b) m2"
  by (simp add: does_def)

lemma may_tell:
  assumes "closing c" "\<not> is_join c" "\<And>x. d_trace (g x) = d_trace x" "\<And>x. d_settings (g x) = d_settings x"
  obtains new where "does m new (if b then g (tell E c m) else m)"
    "\<forall>(c, _) \<in> set new. closing c \<and> \<not> is_join c" "b \<Longrightarrow> c \<in> fst ` set new"
proof (cases b)
  case True
  then show thesis using assms by (intro that [of "[(c, fst (b_call E c (d_world m)))]"]) (simp_all add: does_def boot_simps)
next
  case False
  then show thesis by (intro that [of "[]"]) (simp_all add: does_def)
qed

lemma shutdown_does:
  assumes "shutdown E m = (r :: 'v run, m')"
  obtains new where "does m new m'" "\<forall>(c, _) \<in> set new. closing c" "r = Exits (d_exit_code m)" "stopped m'"
    "live m' = live m - (if d_workers m then 1 else 0)"
    "filter is_join (map fst new)
       = (if d_workers m then map Join_worker [0..<nat (ss_n_worker_threads (d_settings m))] else [])"
    "d_auth_thread m \<Longrightarrow> Join_auth \<in> fst ` set new"
proof -
  define m1 where "m1 = (if d_in_socket m then (tell E Close_in m)\<lparr>d_in_socket := False\<rparr> else m)"
  define m2 where "m2 = (if d_worker_socket m1 then (tell E Close_worker m1)\<lparr>d_worker_socket := False\<rparr> else m1)"
  define m3 where "m3 = (if d_context m2 then (tell E Ctx_term m2)\<lparr>d_context := False\<rparr> else m2)"
  define m4 where "m4 = (if d_workers m3
     then release 1 (tell_all E (map Join_worker [0..<nat (ss_n_worker_threads (d_settings m3))]) m3) else m3)"
  define m5 where "m5 = (if d_auth_thread m4 then tell E Join_auth m4 else m4)"
  define m6 where "m6 = (if d_logfile m5 then (tell E Close_logfile m5)\<lparr>d_logfile := False\<rparr> else m5)"
  define m7 where "m7 = (if d_pidfile m6 then (tell E Close_pidfile m6)\<lparr>d_pidfile := False\<rparr> else m6)"
  have "(shutdown E m :: 'v run \<times> _) = (Exits (d_exit_code m7), m7)"
    unfolding shutdown_def Let_def m7_def m6_def m5_def m4_def m3_def m2_def m1_def by (rule refl)
  with assms have res: "r = Exits (d_exit_code m7)" "m' = m7" by auto
  let ?n = "nat (ss_n_worker_threads (d_settings m))"
  obtain a1 where a1: "does m a1 m1" "\<forall>(c, _) \<in> set a1. closing c \<and> \<not> is_join c"
    unfolding m1_def by (rule may_tell [where c = Close_in and g = "\<lambda>x. x\<lparr>d_in_socket := False\<rparr>"]) auto
  obtain a2 where a2: "does m1 a2 m2" "\<forall>(c, _) \<in> set a2. closing c \<and> \<not> is_join c"
    unfolding m2_def by (rule may_tell [where c = Close_worker and g = "\<lambda>x. x\<lparr>d_worker_socket := False\<rparr>"]) auto
  obtain a3 where a3: "does m2 a3 m3" "\<forall>(c, _) \<in> set a3. closing c \<and> \<not> is_join c"
    unfolding m3_def by (rule may_tell [where c = Ctx_term and g = "\<lambda>x. x\<lparr>d_context := False\<rparr>"]) auto
  define a where "a = a1 @ a2 @ a3"
  have a: "does m a m3" "\<forall>(c, _) \<in> set a. closing c \<and> \<not> is_join c"
    using does_trans [OF a1(1) does_trans [OF a2(1) a3(1)]] a1(2) a2(2) a3(2) by (auto simp: a_def)
  have off: "\<not> d_context m3" "\<not> d_in_socket m3" "\<not> d_worker_socket m3"
    by (simp_all add: m1_def m2_def m3_def boot_simps)
  have f3: "d_workers m3 = d_workers m" "d_auth_thread m3 = d_auth_thread m" "live m3 = live m"
    "d_exit_code m3 = d_exit_code m"
    by (simp_all add: m1_def m2_def m3_def boot_simps)
  obtain j where j: "does m3 j m4" "map fst j = (if d_workers m then map Join_worker [0..<?n] else [])"
  proof (cases "d_workers m")
    case True
    obtain new where "d_trace (tell_all E (map Join_worker [0..<?n]) m3) = d_trace m3 @ new"
      "map fst new = map Join_worker [0..<?n]" by (rule tell_all_trace)
    then show thesis using True f3 a(1) by (intro that [of new]) (simp_all add: m4_def does_def boot_simps)
  qed (use that [of "[]"] f3 in \<open>simp add: m4_def does_def\<close>)
  have f4: "d_auth_thread m4 = d_auth_thread m" "d_context m4 = d_context m3" "d_in_socket m4 = d_in_socket m3"
    "d_worker_socket m4 = d_worker_socket m3" "live m4 = live m - (if d_workers m then 1 else 0)"
    "d_exit_code m4 = d_exit_code m"
    using f3 by (simp_all add: m4_def boot_simps heap_simps)
  obtain z1 where z1: "does m4 z1 m5" "\<forall>(c, _) \<in> set z1. closing c \<and> \<not> is_join c"
    "d_auth_thread m4 \<Longrightarrow> Join_auth \<in> fst ` set z1"
    unfolding m5_def by (rule may_tell [where c = Join_auth and g = "\<lambda>x. x"]) auto
  obtain z2 where z2: "does m5 z2 m6" "\<forall>(c, _) \<in> set z2. closing c \<and> \<not> is_join c"
    unfolding m6_def by (rule may_tell [where c = Close_logfile and g = "\<lambda>x. x\<lparr>d_logfile := False\<rparr>"]) auto
  obtain z3 where z3: "does m6 z3 m7" "\<forall>(c, _) \<in> set z3. closing c \<and> \<not> is_join c"
    unfolding m7_def by (rule may_tell [where c = Close_pidfile and g = "\<lambda>x. x\<lparr>d_pidfile := False\<rparr>"]) auto
  define z where "z = z1 @ z2 @ z3"
  have z: "does m4 z m7" "\<forall>(c, _) \<in> set z. closing c \<and> \<not> is_join c" "d_auth_thread m4 \<Longrightarrow> Join_auth \<in> fst ` set z"
    using does_trans [OF z1(1) does_trans [OF z2(1) z3(1)]] z1(2,3) z2(2) z3(2) by (auto simp: z_def)
  have f7: "d_context m7 = d_context m4" "d_in_socket m7 = d_in_socket m4" "d_worker_socket m7 = d_worker_socket m4"
    "\<not> d_logfile m7" "\<not> d_pidfile m7" "live m7 = live m4" "d_exit_code m7 = d_exit_code m4"
    by (simp_all add: m5_def m6_def m7_def boot_simps)
  have nj: "filter is_join (map fst xs) = []" if "\<forall>(c, _) \<in> set xs. closing c \<and> \<not> is_join c" for xs :: "(boot_call \<times> int) list"
    using that by (induction xs) auto
  have jj: "filter is_join (map fst j) = map fst j" "\<forall>(c, _) \<in> set j. closing c"
  proof -
    have e: "is_join (fst x) \<and> closing (fst x)" if "x \<in> set j" for x
    proof -
      have "fst x \<in> set (map fst j)" using that by simp
      then show ?thesis unfolding j(2) by (auto split: if_splits)
    qed
    then show "filter is_join (map fst j) = map fst j" by (auto simp: filter_id_conv)
    show "\<forall>(c, _) \<in> set j. closing c" using e by fastforce
  qed
  show thesis
  proof (rule that [of "a @ j @ z"])
    show "does m (a @ j @ z) m'" unfolding res(2) using does_trans [OF a(1) does_trans [OF j(1) z(1)]] .
    show "filter is_join (map fst (a @ j @ z)) = (if d_workers m then map Join_worker [0..<?n] else [])"
      using nj [OF a(2)] nj [OF z(2)] jj(1) j(2) by simp
  qed (use res a off j z f4 f7 jj in \<open>auto simp: stopped_def\<close>)
qed

section \<open>Coming up\<close>

fun opens_door :: "boot_call \<Rightarrow> bool" where
  "opens_door (Bind_in _) = True" | "opens_door _ = False"

definition before_door :: "(boot_call \<times> int) list \<Rightarrow> (boot_call \<times> int) list" where
  \<comment> \<open>the calls before the public socket is bound\<close>
  "before_door tr = takeWhile (\<lambda>(c, r). \<not> opens_door c) tr"

definition no_door :: "(boot_call \<times> int) list \<Rightarrow> bool" where
  "no_door tr \<longleftrightarrow> (\<forall>(c, _) \<in> set tr. \<not> opens_door c)"

lemma no_door_simps [simp]:
  "no_door []" "no_door ((c, r) # tr) \<longleftrightarrow> \<not> opens_door c \<and> no_door tr" "no_door (a @ b) \<longleftrightarrow> no_door a \<and> no_door b"
  by (auto simp: no_door_def)

lemma before_door_simps:
  "no_door a \<Longrightarrow> before_door (a @ b) = a @ before_door b"
  "before_door ((c, r) # b) = (if opens_door c then [] else (c, r) # before_door b)"
  unfolding no_door_def before_door_def by (auto simp: takeWhile_append)

lemma closing_no_door: "\<forall>(c, _) \<in> set tr. closing c \<Longrightarrow> no_door tr"
proof -
  have "closing c \<Longrightarrow> \<not> opens_door c" for c by (cases c) auto
  then show "\<forall>(c, _) \<in> set tr. closing c \<Longrightarrow> no_door tr" by (auto simp: no_door_def)
qed

lemma does_refl: "does m [] m"
  by (simp add: does_def)

lemma does_tell: "does m [(c, fst (b_call E c (d_world m)))] (tell E c m)"
  by (simp add: does_def boot_simps)

text \<open>What every early end of the start-up does.\<close>

definition ended :: "int \<Rightarrow> 'w daemon \<Rightarrow> 'v run \<times> 'w daemon \<Rightarrow> bool" where
  \<comment> \<open>the process ended with this status, everything was closed and the running threads joined\<close>
  "ended status m = (\<lambda>(r, m'). r = Exits status \<and> stopped m' \<and> live m' = live m - (if d_workers m then 1 else 0)
     \<and> (\<exists>new. does m new m' \<and> (\<forall>(c, _) \<in> set new. closing c)
        \<and> filter is_join (map fst new)
            = (if d_workers m then map Join_worker [0..<nat (ss_n_worker_threads (d_settings m))] else [])
        \<and> (d_auth_thread m \<longrightarrow> Join_auth \<in> fst ` set new)))"

lemma shutdown_ended: "ended (d_exit_code m) m (shutdown E m :: 'v run \<times> 'w daemon)"
proof -
  obtain r m' where s: "shutdown E m = (r :: 'v run, m')" by fastforce
  show ?thesis
    by (rule shutdown_does [OF s]) (auto simp: ended_def s)
qed

lemma ended_status: "ended n (m\<lparr>d_exit_code := k\<rparr>) r \<longleftrightarrow> ended n m r"
  by (cases r) (simp add: ended_def does_def)

lemma startup_error_ended: "ended 1 m (startup_error E m)"
  using shutdown_ended [of "m\<lparr>d_exit_code := 1\<rparr>" E] unfolding startup_error_def by (simp add: ended_status)

section \<open>The phases of the start-up\<close>

fun is_start :: "boot_call \<Rightarrow> bool" where
  "is_start (Worker_thread _) = True" | "is_start _ = False"

fun plain :: "boot_call \<Rightarrow> bool" where
  \<comment> \<open>calls that neither start nor join a thread nor bind the public socket\<close>
  "plain (Worker_thread _) = False" | "plain (Join_worker _) = False" | "plain Auth_thread = False"
| "plain Join_auth = False" | "plain (Bind_in _) = False" | "plain _ = True"

definition coming_up :: "'w daemon \<Rightarrow> (boot_call \<times> int) list \<Rightarrow> 'w daemon \<Rightarrow> bool" where
  \<comment> \<open>the server got from \<open>m0\<close> to \<open>m\<close> by these calls, and none of them was for shutting down\<close>
  "coming_up m0 T m \<longleftrightarrow> does m0 T m \<and> d_exit_code m = d_exit_code m0 \<and> live m = live m0 + (if d_workers m then 1 else 0)
     \<and> (d_auth_thread m \<longleftrightarrow> (Auth_thread, 0) \<in> set T) \<and> filter is_join (map fst T) = []
     \<and> filter is_start (map fst T)
         = (if d_workers m then map Worker_thread [0..<nat (ss_n_worker_threads (d_settings m0))] else [])"

definition threads_joined :: "(boot_call \<times> int) list \<Rightarrow> bool" where
  \<comment> \<open>the threads that were started were joined\<close>
  "threads_joined T \<longleftrightarrow> (\<forall>t. Worker_thread t \<in> fst ` set T \<longrightarrow> Join_worker t \<in> fst ` set T)
     \<and> ((Auth_thread, 0) \<in> set T \<longrightarrow> Join_auth \<in> fst ` set T)"

definition guarded :: "server_settings \<Rightarrow> string option \<Rightarrow> (boot_call \<times> int) list \<Rightarrow> bool" where
  \<comment> \<open>what has happened when the public socket is bound\<close>
  "guarded se secret_key T \<longleftrightarrow> no_door T \<or>
     ((ss_authorized_keys_file se \<noteq> None \<longrightarrow> (\<exists>flag. flag \<noteq> 0 \<and> (Ready_flag, flag) \<in> set (before_door T)))
      \<and> (\<forall>k. secret_key = Some k \<longrightarrow>
           Set_curve_server \<in> fst ` set (before_door T) \<and> Set_secretkey (take 40 k) \<in> fst ` set (before_door T)))"

lemma before_door_append: "before_door (a @ b) = (if no_door a then a @ before_door b else before_door a)"
  by (auto simp: before_door_def no_door_def takeWhile_append)

lemma guarded_append: "guarded se k T \<Longrightarrow> no_door C \<Longrightarrow> guarded se k (T @ C)"
  by (cases "no_door T") (auto simp: guarded_def before_door_append)

definition came_down :: "'w daemon \<Rightarrow> string option \<Rightarrow> unit run \<times> 'w daemon \<Rightarrow> bool" where
  "came_down m0 secret_key = (\<lambda>(r, m'). (\<exists>status T. r = Exits status \<and> stopped m' \<and> live m' = live m0
     \<and> does m0 T m' \<and> threads_joined T \<and> guarded (d_settings m0) secret_key T
     \<and> (status = d_exit_code m0 \<or> status = 1)))"

lemma starts_in: "Worker_thread t \<in> fst ` set T \<longleftrightarrow> Worker_thread t \<in> set (filter is_start (map fst T))"
  by auto

lemma joins_in: "Join_worker t \<in> fst ` set T \<longleftrightarrow> Join_worker t \<in> set (filter is_join (map fst T))"
  by auto

lemma ended_came_down:
  assumes "coming_up m0 T m" "guarded (d_settings m0) k T" "ended n m r" "n = d_exit_code m0 \<or> n = 1"
  shows "came_down m0 k r"
proof -
  obtain res m' where r: "r = (res, m')" by fastforce
  from assms(3) [unfolded r ended_def] obtain C where C: "res = Exits n" "stopped m'"
    "live m' = live m - (if d_workers m then 1 else 0)" "does m C m'" "\<forall>(c, _) \<in> set C. closing c"
    "filter is_join (map fst C)
       = (if d_workers m then map Join_worker [0..<nat (ss_n_worker_threads (d_settings m))] else [])"
    "d_auth_thread m \<longrightarrow> Join_auth \<in> fst ` set C" by blast
  from assms(1) have T: "does m0 T m" "live m = live m0 + (if d_workers m then 1 else 0)"
    "d_auth_thread m \<longleftrightarrow> (Auth_thread, 0) \<in> set T" "filter is_start (map fst T)
         = (if d_workers m then map Worker_thread [0..<nat (ss_n_worker_threads (d_settings m0))] else [])"
    by (auto simp: coming_up_def)
  have ns: "\<not> is_start c" "c \<noteq> Auth_thread" if "closing c" for c using that by (cases c; simp)+
  have se: "d_settings m = d_settings m0" using T(1) by (simp add: does_def)
  have "threads_joined (T @ C)"
    unfolding threads_joined_def
  proof (intro conjI allI impI)
    fix t assume "Worker_thread t \<in> fst ` set (T @ C)"
    moreover have "Worker_thread t \<notin> fst ` set C" using C(5) ns(1) by fastforce
    ultimately have "Worker_thread t \<in> set (filter is_start (map fst T))" using starts_in by auto
    then have "d_workers m" "t < nat (ss_n_worker_threads (d_settings m0))" unfolding T(4) by (auto split: if_splits)
    then have "Join_worker t \<in> set (filter is_join (map fst C))" unfolding C(6) se by simp
    then show "Join_worker t \<in> fst ` set (T @ C)" by auto
  next
    assume "(Auth_thread, 0) \<in> set (T @ C)"
    moreover have "(Auth_thread, 0) \<notin> set C" using C(5) ns(2) by fastforce
    ultimately show "Join_auth \<in> fst ` set (T @ C)" using T(3) C(7) by auto
  qed
  moreover have "guarded (d_settings m0) k (T @ C)" using guarded_append [OF assms(2) closing_no_door [OF C(5)]] .
  moreover have "does m0 (T @ C) m'" by (rule does_trans [OF T(1) C(4)])
  moreover have "live m' = live m0" using C(3) T(2) by simp
  ultimately show ?thesis using C(1,2) assms(4) by (auto simp: came_down_def r)
qed

lemma coming_up_tell:
  assumes "coming_up m0 T m" "plain c \<or> opens_door c"
  shows "coming_up m0 (T @ [(c, fst (b_call E c (d_world m)))]) (tell E c m)"
  using assms by (cases c) (simp_all add: coming_up_def does_def boot_simps)

lemma coming_up_flags [simp]:
  "coming_up m0 T (m\<lparr>d_context := b\<rparr>) = coming_up m0 T m" "coming_up m0 T (m\<lparr>d_in_socket := b\<rparr>) = coming_up m0 T m"
  "coming_up m0 T (m\<lparr>d_worker_socket := b\<rparr>) = coming_up m0 T m"
  by (simp_all add: coming_up_def does_def)

lemma wait_ready_does:
  obtains new where "does m new (wait_ready E n m)" "no_door new" "\<forall>(c, _) \<in> set new. c = Ready_flag \<or> c = Usleep 1000"
proof -
  have "\<exists>new. does m new (wait_ready E n m) \<and> no_door new \<and> (\<forall>(c, _) \<in> set new. c = Ready_flag \<or> c = Usleep 1000)"
  proof (induction n arbitrary: m)
    case 0
    then show ?case by (intro exI [of _ "[]"]) (simp add: does_refl)
  next
    case (Suc n)
    let ?m1 = "tell E Ready_flag m"
    let ?a = "[(Ready_flag, fst (b_call E Ready_flag (d_world m)))]"
    show ?case
    proof (cases "fst (b_call E Ready_flag (d_world m)) = 0")
      case False
      then show ?thesis using does_tell [of m Ready_flag E] by (intro exI [of _ ?a]) (simp add: ask_eq)
    next
      case True
      let ?b = "[(Usleep 1000, fst (b_call E (Usleep 1000) (d_world ?m1)))]"
      obtain new where "does (tell E (Usleep 1000) ?m1) new (wait_ready E n (tell E (Usleep 1000) ?m1))" "no_door new"
        "\<forall>(c, _) \<in> set new. c = Ready_flag \<or> c = Usleep 1000" using Suc.IH by blast
      then show ?thesis
        using does_trans [OF does_tell [of m Ready_flag E] does_trans [OF does_tell [of ?m1 "Usleep 1000" E]]] True
        by (intro exI [of _ "?a @ ?b @ new"]) (auto simp: ask_eq)
    qed
  qed
  then show thesis using that by blast
qed

lemma wait_ready_frame [boot_simps]:
  "d_auth_thread (wait_ready E n m) = d_auth_thread m" "d_workers (wait_ready E n m) = d_workers m"
  "d_in_socket (wait_ready E n m) = d_in_socket m" "d_worker_socket (wait_ready E n m) = d_worker_socket m"
  "d_context (wait_ready E n m) = d_context m" "d_exit_code (wait_ready E n m) = d_exit_code m" "live (wait_ready E n m) = live m"
  "outcomes (wait_ready E n m) = outcomes m"
  by (induction n arbitrary: m) (simp_all add: ask_eq boot_simps)

lemma coming_up_extend:
  assumes "coming_up m0 T m" "does m new m'" "\<forall>(c, _) \<in> set new. plain c"
    and "live m' = live m" "d_workers m' = d_workers m" "d_auth_thread m' = d_auth_thread m" "d_exit_code m' = d_exit_code m"
  shows "coming_up m0 (T @ new) m'"
proof -
  have "plain c \<Longrightarrow> \<not> is_start c \<and> \<not> is_join c \<and> c \<noteq> Auth_thread" for c by (cases c) auto
  then have n: "\<not> is_start c \<and> \<not> is_join c \<and> c \<noteq> Auth_thread" if "(c, r) \<in> set new" for c r
    using assms(3) that by fastforce
  have f: "filter is_start (map fst new) = []" "filter is_join (map fst new) = []" "(Auth_thread, 0) \<notin> set new"
    using n by (auto simp: filter_empty_conv)
  show ?thesis
    using assms(1,4-7) does_trans [OF _ assms(2)] f by (simp add: coming_up_def)
qed

lemma plain_no_door: "plain c \<Longrightarrow> \<not> opens_door c"
  by (cases c) auto

lemma error_came_down:
  "coming_up m0 T m \<Longrightarrow> guarded (d_settings m0) k T \<Longrightarrow> came_down m0 k (startup_error E m)"
  using ended_came_down [OF _ _ startup_error_ended] by blast

lemma start_auth_phase:
  assumes "coming_up m0 T m" "no_door T" "\<not> d_auth_thread m"
  obtains (down) "came_down m0 k (start_auth E m)" "fst (start_auth E m) \<noteq> Runs ()"
  | (up) T' m' where "start_auth E m = (Runs (), m')" "coming_up m0 T' m'" "no_door T'" "d_workers m' = d_workers m"
      "outcomes m' = outcomes m"
      "ss_authorized_keys_file (d_settings m0) \<noteq> None \<longrightarrow> (\<exists>flag. flag \<noteq> 0 \<and> (Ready_flag, flag) \<in> set T')"
proof -
  have se: "d_settings m = d_settings m0" using assms(1) by (simp add: coming_up_def does_def)
  show thesis
  proof (cases "ss_authorized_keys_file (d_settings m0) = None")
    case True
    then show thesis using assms se by (intro up [of m T]) (simp_all add: start_auth_def)
  next
    case False
    define a where "a = fst (b_call E Auth_thread (d_world m))"
    define m1 where "m1 = (tell E Auth_thread m)\<lparr>d_auth_thread := (a = 0)\<rparr>"
    define m2 where "m2 = wait_ready E 1000 m1"
    define flag where "flag = fst (b_call E Ready_flag (d_world m2))"
    have s: "start_auth E m = (if flag \<noteq> 0 then (Runs (), tell E Ready_flag m2) else startup_error E (tell E Ready_flag m2))"
      using False se by (auto simp: start_auth_def ask_eq a_def m1_def m2_def flag_def Let_def)
    have c1: "coming_up m0 (T @ [(Auth_thread, a)]) m1"
      using assms(1,3) by (auto simp: coming_up_def does_def m1_def a_def boot_simps)
    obtain new where new: "does m1 new m2" "no_door new" "\<forall>(c, _) \<in> set new. c = Ready_flag \<or> c = Usleep 1000"
      unfolding m2_def by (rule wait_ready_does)
    have "coming_up m0 ((T @ [(Auth_thread, a)]) @ new) m2"
      by (rule coming_up_extend [OF c1 new(1)]) (use new(3) in \<open>auto simp: m2_def boot_simps\<close>)
    from coming_up_tell [OF this, of Ready_flag E]
    have c3: "coming_up m0 (((T @ [(Auth_thread, a)]) @ new) @ [(Ready_flag, flag)]) (tell E Ready_flag m2)"
      by (simp add: flag_def)
    have nd: "no_door (((T @ [(Auth_thread, a)]) @ new) @ [(Ready_flag, flag)])" using assms(2) new(2) by simp
    show thesis
    proof (cases "flag = 0")
      case True
      have "came_down m0 k (startup_error E (tell E Ready_flag m2))"
        by (rule error_came_down [OF c3]) (use nd in \<open>simp add: guarded_def\<close>)
      then show thesis using s True by (intro down) (auto simp: came_down_def)
    next
      case False
      then show thesis using s c3 nd
        by (intro up [of "tell E Ready_flag m2" "((T @ [(Auth_thread, a)]) @ new) @ [(Ready_flag, flag)]"])
           (auto simp: boot_simps m2_def m1_def)
    qed
  qed
qed

lemma start_sockets_phase:
  assumes "coming_up m0 T m" "no_door T"
    and keys: "ss_authorized_keys_file (d_settings m0) \<noteq> None \<longrightarrow> (\<exists>flag. flag \<noteq> 0 \<and> (Ready_flag, flag) \<in> set T)"
  obtains (down) "came_down m0 k (start_sockets E k m)" "fst (start_sockets E k m) \<noteq> Runs ()"
  | (up) T' m' where "start_sockets E k m = (Runs (), m')" "coming_up m0 T' m'" "guarded (d_settings m0) k T'"
      "d_workers m' = d_workers m" "outcomes m' = outcomes m"
proof -
  define s1 where "s1 = fst (b_call E Socket_in (d_world m))"
  define m1 where "m1 = tell E Socket_in m"
  define m3 where "m3 = (case k of None \<Rightarrow> m1\<lparr>d_in_socket := True\<rparr>
    | Some k \<Rightarrow> tell E (Set_secretkey (take 40 k)) (tell E Set_curve_server (m1\<lparr>d_in_socket := True\<rparr>)))"
  define name where "name = ss_socketname (d_settings m3)"
  define b1 where "b1 = fst (b_call E (Bind_in name) (d_world m3))"
  define m4 where "m4 = tell E (Bind_in name) m3"
  define s2 where "s2 = fst (b_call E Socket_worker (d_world m4))"
  define m5 where "m5 = tell E Socket_worker m4"
  define b2 where "b2 = fst (b_call E Bind_worker (d_world (m5\<lparr>d_worker_socket := True\<rparr>)))"
  define m6 where "m6 = tell E Bind_worker (m5\<lparr>d_worker_socket := True\<rparr>)"
  have eq: "start_sockets E k m = (if s1 = 0 then startup_error E m1 else if b1 \<noteq> 0 then startup_error E m4
    else if s2 = 0 then startup_error E m5 else if b2 \<noteq> 0 then startup_error E m6 else (Runs (), m6))"
    unfolding start_sockets_def ask_eq Let_def prod.case s1_def b2_def m6_def s2_def m5_def b1_def m4_def name_def m3_def m1_def
    by (rule refl)
  have c1: "coming_up m0 (T @ [(Socket_in, s1)]) m1"
    unfolding m1_def s1_def by (rule coming_up_tell [OF assms(1)]) simp
  obtain S where c3: "coming_up m0 (T @ [(Socket_in, s1)] @ S) m3" and S: "no_door S"
    "\<And>x. k = Some x \<Longrightarrow> Set_curve_server \<in> fst ` set S \<and> Set_secretkey (take 40 x) \<in> fst ` set S"
  proof (cases k)
    case None
    then show thesis using c1 by (intro that [of "[]"]) (simp_all add: m3_def)
  next
    case (Some x)
    from c1 have "coming_up m0 (T @ [(Socket_in, s1)]) (m1\<lparr>d_in_socket := True\<rparr>)" by simp
    from coming_up_tell [OF coming_up_tell [OF this, of Set_curve_server E], of "Set_secretkey (take 40 x)" E]
    show thesis using Some by (intro that) (auto simp: m3_def)
  qed
  let ?A = "T @ [(Socket_in, s1)] @ S"
  have nd: "no_door ?A" using assms(2) S(1) by simp
  have c4: "coming_up m0 (?A @ [(Bind_in name, b1)]) m4"
    unfolding m4_def b1_def by (rule coming_up_tell [OF c3]) simp
  have "before_door (?A @ [(Bind_in name, b1)]) = ?A"
    using nd by (simp only: before_door_append) (simp add: before_door_def)
  then have g4: "guarded (d_settings m0) k (?A @ [(Bind_in name, b1)])"
    using keys S(2) unfolding guarded_def by (auto simp: image_iff)
  have c5: "coming_up m0 ((?A @ [(Bind_in name, b1)]) @ [(Socket_worker, s2)]) m5"
    unfolding m5_def s2_def by (rule coming_up_tell [OF c4]) simp
  have g5: "guarded (d_settings m0) k ((?A @ [(Bind_in name, b1)]) @ [(Socket_worker, s2)])"
    by (rule guarded_append [OF g4]) simp
  have c6: "coming_up m0 (((?A @ [(Bind_in name, b1)]) @ [(Socket_worker, s2)]) @ [(Bind_worker, b2)]) m6"
    unfolding m6_def b2_def by (rule coming_up_tell) (use c5 in simp_all)
  have g6: "guarded (d_settings m0) k (((?A @ [(Bind_in name, b1)]) @ [(Socket_worker, s2)]) @ [(Bind_worker, b2)])"
    by (rule guarded_append [OF g5]) simp
  have g1: "guarded (d_settings m0) k (T @ [(Socket_in, s1)])" using assms(2) by (simp add: guarded_def)
  have f: "d_workers m6 = d_workers m" "outcomes m6 = outcomes m"
    by (simp_all add: m6_def m5_def m4_def m3_def m1_def boot_simps split: option.split)
  show thesis
  proof (cases "s1 = 0 \<or> b1 \<noteq> 0 \<or> s2 = 0 \<or> b2 \<noteq> 0")
    case True
    then have "came_down m0 k (start_sockets E k m)"
      using error_came_down [OF c1 g1, of E] error_came_down [OF c4 g4, of E] error_came_down [OF c5 g5, of E]
        error_came_down [OF c6 g6, of E] unfolding eq by auto
    then show thesis by (intro down) (auto simp: came_down_def)
  next
    case False
    then show thesis by (intro up [OF _ c6 g6]) (use eq f in simp_all)
  qed
qed

lemma start_workers_phase:
  assumes "coming_up m0 T m" "guarded (d_settings m0) k T" "\<not> d_workers m"
  obtains (down) "came_down m0 k (start_workers E m)" "fst (start_workers E m) \<noteq> Runs ()"
  | (up) T' m' where "start_workers E m = (Runs (), m')" "coming_up m0 T' m'" "guarded (d_settings m0) k T'"
proof (cases "alloc_ok m")
  case False
  have "coming_up m0 T (alloc_next m)"
    using assms(1) False by (simp add: coming_up_def does_def boot_simps heap_simps)
  from error_came_down [OF this assms(2), of E] show thesis
    using False by (intro down) (auto simp: start_workers_def came_down_def)
next
  case True
  let ?n = "nat (ss_n_worker_threads (d_settings m))"
  let ?m1 = "(alloc_next m)\<lparr>d_workers := True\<rparr>"
  have se: "d_settings m = d_settings m0" using assms(1) by (simp add: coming_up_def does_def)
  obtain new where new: "d_trace (tell_all E (map Worker_thread [0..<?n]) ?m1) = d_trace ?m1 @ new"
    "map fst new = map Worker_thread [0..<?n]" by (rule tell_all_trace)
  have w: "is_start (fst x) \<and> \<not> is_join (fst x) \<and> fst x \<noteq> Auth_thread \<and> \<not> opens_door (fst x)" if "x \<in> set new" for x
  proof -
    have "fst x \<in> set (map fst new)" using that by simp
    then show ?thesis unfolding new(2) by auto
  qed
  have f: "filter is_join (map fst new) = []" "(Auth_thread, 0) \<notin> set new" "no_door new"
    "filter is_start (map fst new) = map Worker_thread [0..<?n]"
  proof -
    show "filter is_join (map fst new) = []" "(Auth_thread, 0) \<notin> set new" "no_door new"
      using w by (fastforce simp: filter_empty_conv no_door_def)+
    have "filter is_start (map fst new) = map fst new" using w by (auto simp: filter_id_conv)
    then show "filter is_start (map fst new) = map Worker_thread [0..<?n]" using new(2) by simp
  qed
  have "coming_up m0 (T @ new) (tell_all E (map Worker_thread [0..<?n]) ?m1)"
    using assms(1,3) True new(1) f se by (simp add: coming_up_def does_def boot_simps heap_simps)
  then show thesis
    using True guarded_append [OF assms(2) f(3)] by (intro up) (simp_all add: start_workers_def)
qed

lemma startup_came_down:
  assumes "\<not> d_workers m" "\<not> d_auth_thread m"
  shows "came_down m k (startup E k m)"
proof -
  define ctx where "ctx = fst (b_call E Ctx_new (d_world m))"
  define m1 where "m1 = tell E Signal_handlers ((tell E Ctx_new m)\<lparr>d_context := True\<rparr>)"
  define sig where "sig = fst (b_call E Signal_handlers (d_world ((tell E Ctx_new m)\<lparr>d_context := True\<rparr>)))"
  have c: "coming_up m [] m" using assms by (simp add: coming_up_def does_def)
  have c0: "coming_up m ([] @ [(Ctx_new, ctx)]) (tell E Ctx_new m)"
    unfolding ctx_def by (rule coming_up_tell [OF c]) simp
  then have "coming_up m ([] @ [(Ctx_new, ctx)]) ((tell E Ctx_new m)\<lparr>d_context := True\<rparr>)" by simp
  from coming_up_tell [OF this, of Signal_handlers E]
  have c1: "coming_up m (([] @ [(Ctx_new, ctx)]) @ [(Signal_handlers, sig)]) m1" by (simp add: m1_def sig_def)
  have st: "startup E k m = (if ctx = 0 then startup_error E (tell E Ctx_new m) else
      and_run (start_auth E m1) (\<lambda>_ m2. and_run (start_sockets E k m2) (\<lambda>_ m3.
        and_run (start_workers E m3) (\<lambda>_ m4.
          let (d, m5) = ask E Device m4 in if d \<noteq> 0 then startup_error E m5 else shutdown E m5))))"
    unfolding startup_def ask_eq Let_def prod.case ctx_def m1_def by (rule refl)
  have ex: "and_run r f = r" if "came_down m k r" "fst r \<noteq> Runs ()" for r :: "unit run \<times> 'a daemon" and f
    using that by (cases r) (auto simp: came_down_def)
  show ?thesis
  proof (cases "ctx = 0")
    case True
    then show ?thesis using st error_came_down [OF c0, of k E] by (simp add: guarded_def)
  next
    case False
    have n1: "\<not> d_auth_thread m1" "\<not> d_workers m1" using assms by (simp_all add: m1_def boot_simps)
    have nd: "no_door (([] @ [(Ctx_new, ctx)]) @ [(Signal_handlers, sig)])" by simp
    show ?thesis
    proof (rule start_auth_phase [OF c1 nd n1(1), where E = E and k = k], goal_cases)
      case 1
      then show ?case using st False ex by simp
    next
      case (2 T2 m2)
      note a = 2
      show ?case
      proof (rule start_sockets_phase [OF a(2,3,6), where E = E and k = k], goal_cases)
        case 1
        then show ?case using st False a(1) ex by simp
      next
        case (2 T3 m3)
        note s = 2
        have nw: "\<not> d_workers m3" using s(4) a(4) n1(2) by simp
        show ?case
        proof (rule start_workers_phase [OF s(2,3) nw, where E = E], goal_cases)
          case 1
          then show ?case using st False a(1) s(1) ex by simp
        next
          case (2 T4 m4)
          define d where "d = fst (b_call E Device (d_world m4))"
          have c5: "coming_up m (T4 @ [(Device, d)]) (tell E Device m4)"
            unfolding d_def by (rule coming_up_tell [OF 2(2)]) simp
          have g5: "guarded (d_settings m) k (T4 @ [(Device, d)])" by (rule guarded_append [OF 2(3)]) simp
          have ec: "d_exit_code (tell E Device m4) = d_exit_code m" using c5 by (simp add: coming_up_def)
          have "came_down m k (shutdown E (tell E Device m4))"
            by (rule ended_came_down [OF c5 g5 shutdown_ended]) (simp add: ec)
          then show ?case
            using st False a(1) s(1) 2(1) error_came_down [OF c5 g5, of E] by (simp add: ask_eq d_def Let_def)
        qed
      qed
    qed
  qed
qed

section \<open>Properties\<close>

text \<open>Systems the witnesses run on: every call succeeds, except that options may not be supported.\<close>

definition boot_value :: "int \<Rightarrow> boot_call \<Rightarrow> int" where
  "boot_value opt c =
     (case c of Ctx_new \<Rightarrow> 1 | Ready_flag \<Rightarrow> 1 | Socket_in \<Rightarrow> 1 | Socket_worker \<Rightarrow> 1 | Fopen _ _ \<Rightarrow> 1
      | Setsid \<Rightarrow> 1 | Set_curve_server \<Rightarrow> opt | Set_secretkey _ \<Rightarrow> opt | Device \<Rightarrow> -1 | _ \<Rightarrow> 0)"

definition demo_boot :: "int \<Rightarrow> unit boot_env" where
  "demo_boot opt = \<lparr>b_call = (\<lambda>c w. (boot_value opt c, w)), b_file = (\<lambda>_ _. None), b_keypair = (\<lambda>_. (''pub'', ''sec''))\<rparr>"

definition demo_settings :: server_settings where
  "demo_settings = \<lparr>ss_directory = ''/srv'', ss_socketname = ''tcp://*:1'', ss_n_worker_threads = 2, ss_encrypt = False,
     ss_foreground = True, ss_verbose = False, ss_authorized_keys_file = Some ''keys''\<rparr>"

definition demo_daemon :: "unit daemon" where
  "demo_daemon = \<lparr>outcomes = [], live = 0, faults = [], d_settings = demo_settings, d_trace = [], d_world = (),
     d_context = False, d_in_socket = False, d_worker_socket = False, d_workers = False, d_auth_thread = False,
     d_logfile = False, d_pidfile = False, d_exit_code = 0, d_key_file = None, d_pubkey_file = None\<rparr>"



lemma shutdown_not_runs [simp]:
  fixes v :: 'v
  shows "shutdown E m \<noteq> (Runs v, m')"
proof
  assume "shutdown E m = (Runs v, m')"
  with shutdown_ended [of m E, where 'v = 'v] show False by (simp add: ended_def)
qed

lemma print_wrong_arg_not_runs [simp]: "print_wrong_arg E m \<noteq> (Runs v, m')"
  by (simp add: print_wrong_arg_def)

definition threads_in_range :: "'w daemon \<Rightarrow> bool" where
  "threads_in_range m \<longleftrightarrow> 1 \<le> ss_n_worker_threads (d_settings m) \<and> ss_n_worker_threads (d_settings m) \<le> 200"

lemma parse_option_range:
  "parse_option E c arg m = (Runs (), m') \<Longrightarrow> threads_in_range m \<Longrightarrow> threads_in_range m'"
  unfolding parse_option_def
  by (auto simp: Let_def ask_eq strdup_arg_def threads_in_range_def MAX_N_WORKER_THREADS_def boot_simps split: if_splits)

lemma parse_options_range:
  "parse_options E opts m = (Runs (), m') \<Longrightarrow> threads_in_range m \<Longrightarrow> threads_in_range m'"
proof (induction E opts m rule: parse_options.induct)
  case (2 E optc optarg opts m)
  obtain r m1 where p: "parse_option E optc optarg m = (r, m1)" by fastforce
  with 2(2) have "r = Runs ()" by (cases r) auto
  with p 2 parse_option_range show ?case by fastforce
qed simp

text \<open>
  C26: the settings that come out of the command line are in range: whatever options are given, if
  parsing does not end the process the number of worker threads is between 1 and 200.
\<close>

theorem parsed_settings_in_range:
  assumes "parse_options E opts m = (Runs (), m')"
    and "ss_n_worker_threads (d_settings m) = DEFAULT_N_WORKER_THREADS"
  shows "1 \<le> ss_n_worker_threads (d_settings m') \<and> ss_n_worker_threads (d_settings m') \<le> 200"
  using parse_options_range [OF assms(1)] assms(2) by (simp add: threads_in_range_def DEFAULT_N_WORKER_THREADS_def)

theorem parsed_settings_in_range_witness:
  "\<exists>m'. parse_options (demo_boot 0) [(CHR ''n'', ''12'')]
       (demo_daemon\<lparr>d_settings := demo_settings\<lparr>ss_n_worker_threads := DEFAULT_N_WORKER_THREADS\<rparr>\<rparr>) = (Runs (), m')
     \<and> ss_n_worker_threads (d_settings m') = 12 \<and> 12 \<le> (200 :: int)"
proof -
  let ?m = "demo_daemon\<lparr>d_settings := demo_settings\<lparr>ss_n_worker_threads := DEFAULT_N_WORKER_THREADS\<rparr>\<rparr>"
  have a: "atoi ''12'' = 12" by (simp add: atoi_def int32_id)
  then obtain m' where m: "parse_options (demo_boot 0) [(CHR ''n'', ''12'')] ?m = (Runs (), m')"
    "ss_n_worker_threads (d_settings m') = 12"
    by (simp add: parse_option_def Let_def MAX_N_WORKER_THREADS_def)
  from parsed_settings_in_range [OF m(1)] m show ?thesis by auto
qed

definition boot_works :: "'w boot_env \<Rightarrow> bool" where
  \<comment> \<open>the calls succeed, but nothing is said of the two options of encryption\<close>
  "boot_works E \<longleftrightarrow> (\<forall>c w. c \<in> {Ctx_new, Ready_flag, Socket_in, Socket_worker} \<longrightarrow> fst (b_call E c w) \<noteq> 0)
     \<and> (\<forall>c w. opens_door c \<or> c \<in> {Bind_worker, Auth_thread} \<longrightarrow> fst (b_call E c w) = 0)"

lemma boot_worksD:
  assumes "boot_works E"
  shows "fst (b_call E Ctx_new w) \<noteq> 0" "fst (b_call E Ready_flag w) \<noteq> 0" "fst (b_call E Socket_in w) \<noteq> 0"
    "fst (b_call E Socket_worker w) \<noteq> 0" "fst (b_call E (Bind_in s) w) = 0" "fst (b_call E Bind_worker w) = 0"
    "fst (b_call E Auth_thread w) = 0"
  using assms unfolding boot_works_def by auto

lemma wait_ready_works: "boot_works E \<Longrightarrow> 0 < n \<Longrightarrow> wait_ready E n m = tell E Ready_flag m"
  by (cases n) (simp_all add: ask_eq boot_worksD)

lemma start_auth_works:
  assumes "boot_works E"
  obtains new m' where "start_auth E m = (Runs (), m')" "does m new m'" "Set_curve_server \<notin> fst ` set new"
    "outcomes m' = outcomes m"
proof (cases "ss_authorized_keys_file (d_settings m)")
  case None
  then show thesis by (intro that [of m "[]"]) (simp_all add: start_auth_def does_refl)
next
  case (Some f)
  let ?m1 = "(tell E Auth_thread m)\<lparr>d_auth_thread := True\<rparr>"
  let ?m3 = "tell E Ready_flag (tell E Ready_flag ?m1)"
  have "start_auth E m = (Runs (), ?m3)"
    using Some assms by (simp add: start_auth_def ask_eq Let_def boot_worksD wait_ready_works)
  then show thesis
    by (rule that [where new = "[(Auth_thread, fst (b_call E Auth_thread (d_world m))),
        (Ready_flag, fst (b_call E Ready_flag (d_world ?m1))),
        (Ready_flag, fst (b_call E Ready_flag (d_world (tell E Ready_flag ?m1))))]"])
      (simp_all add: does_def boot_simps)
qed

lemma start_sockets_works:
  assumes "boot_works E"
  obtains new m' where "start_sockets E k m = (Runs (), m')" "does m new m'"
    "(Bind_in (ss_socketname (d_settings m)), 0) \<in> set new" "k = None \<longrightarrow> Set_curve_server \<notin> fst ` set new"
    "outcomes m' = outcomes m"
proof -
  let ?n = "ss_socketname (d_settings m)"
  define m1 where "m1 = (tell E Socket_in m)\<lparr>d_in_socket := True\<rparr>"
  define m3 where "m3 = (case k of None \<Rightarrow> m1 | Some k \<Rightarrow> tell E (Set_secretkey (take 40 k)) (tell E Set_curve_server m1))"
  define m6 where "m6 = tell E Bind_worker ((tell E Socket_worker (tell E (Bind_in ?n) m3))\<lparr>d_worker_socket := True\<rparr>)"
  obtain S where S: "does m1 S m3" "k = None \<Longrightarrow> S = []"
  proof (cases k)
    case None
    then show thesis by (intro that [of "[]"]) (simp_all add: m3_def does_refl)
  next
    case (Some x)
    then show thesis
      using does_trans [OF does_tell does_tell] by (intro that) (auto simp: m3_def)
  qed
  have n: "ss_socketname (d_settings m3) = ?n" by (simp add: m3_def m1_def boot_simps split: option.split)
  have "start_sockets E k m = (Runs (), m6)"
    using assms n by (simp add: start_sockets_def ask_eq Let_def boot_worksD m1_def m3_def m6_def boot_simps split: option.split)
  moreover define new where "new = [(Socket_in, fst (b_call E Socket_in (d_world m)))] @ S @ [(Bind_in ?n, 0),
      (Socket_worker, fst (b_call E Socket_worker (d_world (tell E (Bind_in ?n) m3)))), (Bind_worker, 0)]"
  moreover have "does m ([(Socket_in, fst (b_call E Socket_in (d_world m)))] @ S @ [(Bind_in ?n, 0),
      (Socket_worker, fst (b_call E Socket_worker (d_world (tell E (Bind_in ?n) m3)))),
      (Bind_worker, 0)]) m6"
    using S(1) assms by (simp add: does_def m1_def m6_def boot_simps boot_worksD)
  moreover have "outcomes m6 = outcomes m" by (simp add: m6_def m3_def m1_def boot_simps split: option.split)
  ultimately show thesis using S(2) by (intro that [of m6 new]) auto
qed

text \<open>
  C40: nothing makes sure that a server with authorized keys is encrypted. Without the option for
  encryption, and also with it when ZeroMQ refuses the options that turn it on, the server comes up
  and its public socket is bound and served, though the authentication thread runs.
\<close>

theorem encryption_not_enforced:
  assumes "boot_works E" "outcomes m = []" "startup E secret_key m = (r, m')"
  shows "\<exists>T. d_trace m' = d_trace m @ T \<and> (Bind_in (ss_socketname (d_settings m)), 0) \<in> set T \<and> Device \<in> fst ` set T
     \<and> (secret_key = None \<longrightarrow> Set_curve_server \<notin> fst ` set T)"
proof -
  define m1 where "m1 = tell E Signal_handlers ((tell E Ctx_new m)\<lparr>d_context := True\<rparr>)"
  have d1: "does m (drop (length (d_trace m)) (d_trace m1)) m1" "Set_curve_server \<notin> fst ` set (drop (length (d_trace m)) (d_trace m1))"
    "outcomes m1 = []"
    using assms(2) by (simp_all add: m1_def does_def boot_simps)
  obtain A m2 where a: "start_auth E m1 = (Runs (), m2)" "does m1 A m2" "Set_curve_server \<notin> fst ` set A"
    "outcomes m2 = outcomes m1" by (rule start_auth_works [OF assms(1), where m = m1])
  have n: "ss_socketname (d_settings m2) = ss_socketname (d_settings m)"
    using d1(1) a(2) by (simp add: does_def)
  obtain B m3 where b: "start_sockets E secret_key m2 = (Runs (), m3)" "does m2 B m3"
    "(Bind_in (ss_socketname (d_settings m2)), 0) \<in> set B" "secret_key = None \<longrightarrow> Set_curve_server \<notin> fst ` set B"
    "outcomes m3 = outcomes m2" by (rule start_sockets_works [OF assms(1), where k = secret_key and m = m2])
  define m4 where "m4 = tell_all E (map Worker_thread [0..<nat (ss_n_worker_threads (d_settings m3))]) ((alloc_next m3)\<lparr>d_workers := True\<rparr>)"
  have w: "start_workers E m3 = (Runs (), m4)"
    using assms(2) a(4) b(5) d1(3) by (simp add: start_workers_def m4_def heap_simps)
  obtain C where c: "does m3 C m4" "Set_curve_server \<notin> fst ` set C"
  proof -
    obtain new where "d_trace m4 = d_trace ((alloc_next m3)\<lparr>d_workers := True\<rparr>) @ new"
      "map fst new = map Worker_thread [0..<nat (ss_n_worker_threads (d_settings m3))]"
      unfolding m4_def by (rule tell_all_trace)
    moreover from this(2) have "fst ` set new = Worker_thread ` {0..<nat (ss_n_worker_threads (d_settings m3))}"
      by (metis image_set set_upt)
    ultimately show thesis by (intro that [of new]) (auto simp: does_def m4_def boot_simps)
  qed
  define d where "d = fst (b_call E Device (d_world m4))"
  let ?last = "if d \<noteq> 0 then startup_error E (tell E Device m4) else shutdown E (tell E Device m4)"
  have "startup E secret_key m = ?last"
    using assms(1) a(1) b(1) w by (simp add: startup_def ask_eq Let_def boot_worksD m1_def [symmetric] d_def)
  then have "\<exists>k. ended k (tell E Device m4) (r, m')"
    using assms(3) startup_error_ended [of "tell E Device m4" E] shutdown_ended [of "tell E Device m4" E] by metis
  then obtain Z where z: "does (tell E Device m4) Z m'" "\<forall>(c, _) \<in> set Z. closing c" by (auto simp: ended_def)
  have zs: "Set_curve_server \<notin> fst ` set Z" using z(2) by force
  from does_trans [OF d1(1) does_trans [OF a(2) does_trans [OF b(2) does_trans [OF c(1) does_trans [OF does_tell z(1)]]]]]
  show ?thesis using d1(2) a(3) b(3,4) c(2) zs unfolding does_def n
    by (intro exI [of _ "drop (length (d_trace m)) (d_trace m1) @ A @ B @ C @ [(Device, d)] @ Z"])
       (auto simp: d_def)
qed

theorem encryption_not_enforced_witness:
  "\<exists>r m'. startup (demo_boot (-1)) (Some ''secret'') demo_daemon = (r, m') \<and> (Bind_in ''tcp://*:1'', 0) \<in> set (d_trace m')"
proof -
  obtain r m' where s: "startup (demo_boot (-1)) (Some ''secret'') demo_daemon = (r, m')" by fastforce
  have "boot_works (demo_boot (-1))"
    by (auto simp: boot_works_def demo_boot_def boot_value_def split: boot_call.split)
  from encryption_not_enforced [OF this _ s] s show ?thesis by (auto simp: demo_daemon_def demo_settings_def)
qed

lemma parse_option_exit_code: "parse_option E c arg m = (Runs (), m') \<Longrightarrow> d_exit_code m' = d_exit_code m"
  unfolding parse_option_def
  by (auto simp: Let_def ask_eq strdup_arg_def boot_simps split: if_splits)

lemma parse_options_exit_code: "parse_options E opts m = (Runs (), m') \<Longrightarrow> d_exit_code m' = d_exit_code m"
proof (induction E opts m rule: parse_options.induct)
  case (2 E optc optarg opts m)
  obtain r m1 where p: "parse_option E optc optarg m = (r, m1)" by fastforce
  with 2(2) have "r = Runs ()" by (cases r) auto
  with p 2 parse_option_exit_code show ?case by fastforce
qed simp

lemma parse_option_ends: "parse_option E c arg m = (Exits n, m') \<Longrightarrow> n = d_exit_code m"
proof -
  have e: "n = d_exit_code x" if "shutdown E x = (Exits n :: unit run, m')" for x
    using shutdown_ended [of x E, where 'v = unit] that by (simp add: ended_def)
  assume "parse_option E c arg m = (Exits n, m')"
  then show ?thesis
    unfolding parse_option_def
    by (auto simp: Let_def ask_eq strdup_arg_def print_wrong_arg_def boot_simps dest!: e split: if_splits)
qed

lemma parse_options_ends: "parse_options E opts m = (Exits n, m') \<Longrightarrow> n = d_exit_code m"
proof (induction E opts m rule: parse_options.induct)
  case (2 E optc optarg opts m)
  obtain r m1 where p: "parse_option E optc optarg m = (r, m1)" by fastforce
  show ?case
  proof (cases r)
    case (Runs u)
    with p 2 parse_option_exit_code show ?thesis by fastforce
  next
    case (Exits k)
    with p 2(2) parse_option_ends [of E optc optarg m k m1] show ?thesis by simp
  qed
qed simp

text \<open>
  The server ends with the status of success when its command line is wrong: without the two
  mandatory arguments, and whatever the options are (also unknown ones, an illegal number of
  threads, or a log file that cannot be opened), the process ends with the status its global
  variable starts with, which is 0.
\<close>

theorem wrong_arguments_succeed:
  assumes "length args < 2" "d_exit_code m = 0"
  shows "fst (server_main E opts args m) = Exits 0"
proof -
  let ?m0 = "m\<lparr>d_settings := (d_settings m)\<lparr>ss_n_worker_threads := DEFAULT_N_WORKER_THREADS,
      ss_verbose := False, ss_foreground := False\<rparr>\<rparr>"
  obtain r m1 where p: "parse_options E opts ?m0 = (r, m1)" by fastforce
  have w: "fst (print_wrong_arg E m1 :: unit run \<times> 'a daemon) = Exits 0" if "d_exit_code m1 = 0"
    using shutdown_ended [of "tell E Say m1" E, where 'v = unit] that
    by (auto simp: print_wrong_arg_def ended_def boot_simps split: prod.splits)
  show ?thesis
  proof (cases r)
    case (Runs u)
    have "d_exit_code m1 = 0" using parse_options_exit_code [of E opts ?m0 m1] p Runs assms(2) by simp
    from w [OF this] show ?thesis
      using p Runs assms(1) by (cases args; cases "tl args") (simp_all add: server_main_def)
  next
    case (Exits n)
    have "n = 0" using parse_options_ends [of E opts ?m0 n m1] p Exits assms(2) by simp
    with p Exits show ?thesis by (simp add: server_main_def)
  qed
qed

theorem wrong_arguments_succeed_witness:
  "fst (server_main (demo_boot 0) [(CHR ''?'', [])] [''tcp://*:1''] demo_daemon) = Exits 0"
  using wrong_arguments_succeed [of "[''tcp://*:1'']" demo_daemon "demo_boot 0" "[(CHR ''?'', [])]"]
  by (simp add: demo_daemon_def)

end
