(* ===== verification/Spec2Isabelle.thy ===== *)
theory Spec2Isabelle
  imports Rhizo_FuseMain Rhizo_Server Rhizo_HashCheck Rhizo_Auth Rhizo_Daemon
begin

text \<open>
  RhizoFS is a network file system: a FUSE client that turns every file system call into a request,
  sends it over ZeroMQ to a server, and a server that carries it out in a shared directory. Messages
  are protobuf messages, file data in them may be LZ4 compressed, and the client caches the attributes
  of files for three seconds. This development models the C code under \<^verbatim>\<open>src/\<close> and proves it correct
  where it is, and records where it is not.

  \<^bold>\<open>The parts and their theories\<close>

  \<^item> \<open>Rhizo_Prelude\<close>: the state the code shares. \<open>heap\<close> counts the blocks in use (\<open>live\<close>), lists the
    faults that happened (double frees, overflows, NULL dereferences, \<dots>) and holds the outcomes of the
    allocations to come (\<open>outcomes\<close>, all succeed when it is empty); \<open>mach\<close> adds \<^verbatim>\<open>errno\<close>, the trace of
    system calls and an abstract world. The operating system is the parameter \<open>env\<close>: what a call
    returns in a world. Also a generic invariant rule for step relations (\<open>invariant_system\<close>).
  \<^item> \<open>Rhizo_Wire\<close>: the messages of \<^verbatim>\<open>proto/rhizofs.proto\<close> as records and datatypes, and the blocks they own.
  \<^item> \<open>Rhizo_Mapping\<close> (\<^verbatim>\<open>mapping.c\<close>, \<^verbatim>\<open>posix.c\<close>): local values to protocol values and back.
  \<^item> \<open>Rhizo_Path\<close> (\<^verbatim>\<open>path.c\<close>): joining and splitting paths.
  \<^item> \<open>Rhizo_Hash\<close> (\<^verbatim>\<open>kazlib/hash.c\<close>, \<^verbatim>\<open>hashfunc.c\<close>): the chained, resizing hash table; \<open>keyed_store\<close> is the
    interface of a finite map that it implements. \<open>Rhizo_HashCheck\<close>: its self-check, the tables of a caller
    and the small operations.
  \<^item> \<open>Rhizo_AttrCache\<close> (\<^verbatim>\<open>fs/attrcache.c\<close>): the attribute cache on top of the table.
  \<^item> \<open>Rhizo_LZ4\<close> (\<^verbatim>\<open>lz4.c\<close>): the two decompressors over checked memory accesses; \<open>Rhizo_LZ4_Format\<close>: the
    block format as sequences of literals and matches, and that the decompressors implement it;
    \<open>Rhizo_LZ4_Compress\<close>: the two compressors and that what they write is such a block of the data.
  \<^item> \<open>Rhizo_Messages\<close> (\<^verbatim>\<open>datablock.c\<close>, \<^verbatim>\<open>request.c\<close>, \<^verbatim>\<open>response.c\<close>): data blocks and messages.
  \<^item> \<open>Rhizo_Server\<close> (\<^verbatim>\<open>server/servedir.c\<close>): every operation of the server, the dispatch on the request
    type and the serving loop over a list of receive events; \<open>server_op\<close> is the contract of an operation.
    \<open>worker_routine\<close> (\<^verbatim>\<open>server/main.c\<close>) is a worker thread, which runs that loop.
  \<^item> \<open>Rhizo_Auth\<close> (\<^verbatim>\<open>auth_routine\<close> of \<^verbatim>\<open>server/main.c\<close>): the thread that tells ZeroMQ which clients to let in.
  \<^item> \<open>Rhizo_Daemon\<close> (\<^verbatim>\<open>server/main.c\<close>): the command line, the keys, becoming a daemon, starting up and
    shutting down, over a trace of the calls made.
  \<^item> \<open>Rhizo_SocketPool\<close> (\<^verbatim>\<open>fs/socketpool.c\<close>): the sockets of the threads of the client. ZeroMQ, the thread
    keys, the clock and libfuse are the parameter \<open>zmq_env\<close>.
  \<^item> \<open>Rhizo_Client\<close> (\<^verbatim>\<open>Rhizofs_communicate\<close> of \<^verbatim>\<open>fs/rhizofs.c\<close>): sending with retries, receiving, the
    error label.
  \<^item> \<open>Rhizo_Operations\<close> (\<^verbatim>\<open>fs/rhizofs.c\<close>): every operation of the table \<^verbatim>\<open>rhizofs_operations\<close>;
    \<open>client_op\<close> is the contract of an operation (faults it may cause, requests it may send, what it
    returns and does to the cache), interpreted on each of them.
  \<^item> \<open>Rhizo_Mount\<close> (\<^verbatim>\<open>fs/rhizofs.c\<close>): settings, \<^verbatim>\<open>Rhizofs_init\<close>, \<^verbatim>\<open>Rhizofs_destroy\<close>, and a mount as a run of
    the calls of the table.
  \<^item> \<open>Rhizo_FuseMain\<close> (\<^verbatim>\<open>fs/rhizofs.c\<close>): the client program around the mount: its command line, the keys, the
    connection check and the call of libfuse, which is a parameter of \<open>start_env\<close>.
  \<^item> this theory: client and server together.

  \<^bold>\<open>Correspondence\<close>

  Structs are records, enums and the request types datatypes (with a constructor for values a peer may
  send that have no name), pointers that may be NULL are options, and each C function is a definition of
  its own name that takes and returns the state it works on. Errors and early returns are branches, a
  \<^verbatim>\<open>check\<close> that fails resets \<^verbatim>\<open>errno\<close> as the macro does, a buffer written too far or a block freed twice
  adds a fault and goes on. Integers whose width matters are words or go through \<open>int32\<close>, \<open>int64\<close> and
  \<open>size_t\<close>; memory is counted, not addressed, except in the hash table, whose nodes have addresses.

  \<^bold>\<open>What is shown\<close>

  \<^item> Client and server together: a call on the mount that is served makes exactly the system call it
    stands for and returns its outcome (\<open>remote_operation\<close>), shows the attributes of the remote file
    (\<open>remote_getattr\<close>), reads and writes its bytes (\<open>remote_read\<close>, \<open>remote_write\<close>).
  \<^item> The client: a mount survives every network, memory and server behaviour (\<open>mount_survives\<close>); results
    and liveness of the operations; the cache only holds what the server said (\<open>cache_tells_truth\<close>);
    threads own their sockets (\<open>pool_sockets_owned\<close>); waiting ends (\<open>send_loop_ends\<close>). The program mounts
    only after the server answered (\<open>mounts_after_ping\<close>), encrypts when it has a server key
    (\<open>server_key_encrypts\<close>), and ends (\<open>client_program_ends\<close>).
  \<^item> The server: every message is answered, in order and with the right type
    (\<open>serve_answers_every_request\<close>), a request performs the call it encodes, stays below the shared
    directory, keeps the memory balance and causes no fault under a sane system.
  \<^item> The start of the server: it opens its public socket last, after the authentication thread is ready
    and encryption was asked for (\<open>startup_order\<close>), and only clients whose key is listed are let in
    (\<open>auth_admits_listed_only\<close>).
  \<^item> The data structures: the hash table is a finite map under every sequence of operations, and its
    self-check decides its invariant (\<open>self_check_decides\<close>); the cache
    answers only fresh and current entries; round trips of attributes, error numbers, modes and data.
  \<^item> The codec: what is compressed decompresses to the same bytes (\<open>LZ4_round_trip\<close>), the decompressor
    the messages use writes only its buffer for every input (\<open>LZ4_uncompress_output_safe\<close>), and the two
    decompressors agree on blocks. That it may read past the end of a block a peer made up is a
    failure, shown on the messages (\<open>malformed_block_overread\<close>).
  \<^item> The failures the code has, as theorems: lost requests reported as success, stale entries after a
    rename, double frees, a timeout that never ends, buffers one byte short, encryption that is not
    enforced, a thread that crashes when the server shuts down.

  \<^bold>\<open>Bounds\<close>

  \<open>send_loop\<close> is a \<open>partial_function\<close>, so that not returning is the value \<open>None\<close>; it returns when the
  timeout is at most 4294 seconds, since its 32-bit counter of microseconds reaches no more (the default
  is 30). The loops of the hash table's scans take fuel, one more than the nodes of the table, which is
  enough by \<open>scan_visits_all\<close>. The cache holds at most 1000 entries.

  \<^bold>\<open>Parameters and their hypotheses\<close>

  \<open>posix_calls\<close>, \<open>posix_reads\<close>, \<open>posix_names\<close>, \<open>posix_readlinks\<close> state what POSIX says of the calls used;
  \<open>forgets\<close> that clearing a thread's value succeeds, \<open>time_works\<close> that \<^verbatim>\<open>time\<close> does. Protobuf and ZeroMQ
  deliver a message as it was sent or report a failure. \<open>zap_env\<close> and \<open>boot_env\<close> are the file of authorized
  keys and the calls of the start-up of the server; \<open>boot_works\<close> says that those calls succeed.
  \<open>sessions_ok\<close> and \<open>keypair_ok\<close> are what libfuse and \<^verbatim>\<open>zmq_curve_keypair\<close> document. The theorems that use them have witnesses on concrete instances.

  \<^bold>\<open>Not modelled\<close>

  Two operations of a mount do not overlap, so races on the cache outside its mutex are not seen; the
  threads of the server are modelled each on its own, and a signal that interrupts its start-up is not.
  The key generator, the logging of \<^verbatim>\<open>dbg.c\<close> and the test program of kazlib are not modelled: input and
  output, or calls into libraries that are not part of the repository.
\<close>

section \<open>Client and server together\<close>

text \<open>
  An operation of the client that was served: the request it sent reached the serving loop of the
  server, and the response it received is the answer the loop sent for it.
\<close>

definition served_by :: "'v env \<Rightarrow> serve_dir \<Rightarrow> 'v mach \<Rightarrow> 'v mach \<Rightarrow> 'w client \<Rightarrow> 'w client \<Rightarrow> bool" where
  "served_by S sd srv srv' m m' \<longleftrightarrow> (\<exists>s rq rs. n_sent m' = n_sent m @ [(s, rq)]
     \<and> ServeDir_serve S sd [Received (Some rq) True] srv = ([rs], Serving, srv')
     \<and> cl_received m' = cl_received m @ [rs])"

lemma serve_one:
  assumes "ServeDir_serve S sd [Received (Some rq) True] srv = ([rs], Serving, srv')" "outcomes srv = []"
  obtains m1 rc m2 where "dispatch S sd rq new_response m1 = (rc, rs, m2)" "outcomes m1 = []" "errno m1 = 0"
    "calls m1 = calls srv" "world m1 = world srv" "calls srv' = calls m2"
proof (rule Response_create_cases [of srv], goal_cases)
  case (1 h')
  then show thesis using assms(1) by simp
next
  case (2 m1)
  have "world (snd (Response_create srv)) = world srv" by (simp add: Response_create_def Let_def sys_simps)
  with 2(2) have w: "world m1 = world srv" by simp
  have c: "calls m1 = calls srv" "world m1 = world srv" "outcomes m1 = []"
    using Response_create_frame [of srv] 2(2) assms(2) w by simp_all
  obtain rc rs0 m2 where d: "dispatch S sd rq new_response (clear_errno m1) = (rc, rs0, m2)"
    by (metis prod_cases3)
  obtain pk m3 where p: "Response_pack rs0 m2 = (pk, m3)" by fastforce
  have "pk = Some rs" "srv' = Response_destroy (Some rs0) m3"
    using assms(1) 2(2) d p by (auto simp: answer_def split: option.splits)
  moreover have "pk \<noteq> None \<Longrightarrow> pk = Some rs0" using Response_pack_id [of rs0 m2] p by simp
  moreover have "calls m3 = calls m2" using Response_pack_frame(2) [of rs0 m2] p by simp
  ultimately show thesis
    using d c by (intro that [of "clear_errno m1" rc m2]) (simp_all add: sys_simps)
qed

section \<open>Remote operations are local ones\<close>

text \<open>The system call that carries out an operation in the shared directory.\<close>

fun local_call :: "serve_dir \<Rightarrow> fuse_op \<Rightarrow> syscall option" where
  "local_call sd (Fuse_rmdir p) = Some (Sys_rmdir (server_path sd p))"
| "local_call sd (Fuse_unlink p) = Some (Sys_unlink (server_path sd p))"
| "local_call sd (Fuse_access p mode) = Some (Sys_access (server_path sd p) (mode AND 0x1FF))"
| "local_call sd (Fuse_mkdir p mode) = Some (Sys_mkdir (server_path sd p) (mode AND 0x1FF))"
| "local_call sd (Fuse_chmod p mode) = Some (Sys_chmod (server_path sd p) (mode AND 0x1FF))"
| "local_call sd (Fuse_truncate p offset) = Some (Sys_truncate (server_path sd p) (int64 offset))"
| "local_call sd (Fuse_utimens p (Some ((asec, ansec), (msec, mnsec))))
     = Some (Sys_utimes (server_path sd p) ((asec, usec_of_nsec ansec), (msec, usec_of_nsec mnsec)))"
| "local_call sd (Fuse_rename p q) = Some (Sys_rename (server_path sd p) (server_path sd q))"
| "local_call sd (Fuse_link p q) = Some (Sys_link (server_path sd p) (server_path sd q))"
| "local_call sd (Fuse_symlink target p) = Some (Sys_symlink target (server_path sd p))"
| "local_call sd (Fuse_mknod p mode)
     = (if S_ISREG mode then Some (Sys_mknod (server_path sd p) ((mode AND 0x1FF) OR S_IFREG)) else None)"
| "local_call sd op = None"

lemma asks_call:
  assumes "asks op rq" "local_call sd op = Some c"
  shows "requested_call sd rq = Some c"
proof -
  show ?thesis
  proof (cases op)
    case (Fuse_mknod p mode)
    from assms obtain ps where t: "rq = new_request\<lparr>rq_type := MKNOD, rq_path := Some p,
        rq_filetype := Some (FileType_from_local mode), rq_permissions := Some ps\<rparr>"
      "of_mode ps mode" "S_ISREG mode" "c = Sys_mknod (server_path sd p) ((mode AND 0x1FF) OR S_IFREG)"
      unfolding Fuse_mknod by (auto split: if_splits)
    have ft: "FileType_to_local (FileType_from_local mode) = S_IFREG"
      using t(3) FileType_trip_local [of mode] by (simp add: S_ISREG_def local_file_formats_def)
    have "((mode AND 0x1FF) OR S_IFREG) AND S_IFMT = S_IFREG"
      by (simp add: bit.conj_disj_distrib2 and.assoc)
    with t ft show ?thesis by (simp add: requested_call_def Let_def S_ISREG_def)
  next
    case (Fuse_utimens p tv)
    with assms show ?thesis
      by (cases "(sd, op)" rule: local_call.cases) (auto simp: requested_call_def Let_def times_asked_def)
  qed (use assms in \<open>auto simp: requested_call_def Let_def\<close>)
qed

lemma served_simple:
  assumes "client_ok m" "forgets E" "simple_op op" "fuse_call E t op m = Some (n, m')"
    and "served_by S sd srv srv' m m'"
  obtains s rq rs where "asks op rq" "ServeDir_serve S sd [Received (Some rq) True] srv = ([rs], Serving, srv')"
    "n = - Response_get_errno rs"
proof -
  from assms(5) obtain s rq rs where q: "n_sent m' = n_sent m @ [(s, rq)]"
    "ServeDir_serve S sd [Received (Some rq) True] srv = ([rs], Serving, srv')"
    "cl_received m' = cl_received m @ [rs]" by (auto simp: served_by_def)
  with simple_call [OF assms(1-3), of t] assms(4) show thesis
    by (intro that) (auto simp: op_at_def leaves_def result_ok_def)
qed

text \<open>
  C1: a remote operation is the local one: when a call that has a system call of its own is served,
  the server makes exactly that system call, on the same path below the shared directory, with the
  mode reduced to its nine permission bits and times to microseconds, and the caller gets the
  outcome it would have got there: 0, or the negated error number if the protocol has a code for it,
  and \<open>EIO\<close> otherwise.
\<close>

theorem remote_operation:
  assumes "client_ok m" "forgets E" "fuse_call E t op m = Some (n, m')"
    and "served_by S sd srv srv' m m'" "local_call sd op = Some c" "outcomes srv = []" "posix_calls S"
  shows "calls srv' = calls srv @ [c]
    \<and> n = (case fst (os_call S c (world srv)) of Inr _ \<Rightarrow> 0 | Inl e \<Rightarrow> - (if e \<in> local_errnos then e else EIO))"
proof -
  have "simple_op op" using assms(5) by (cases "(sd, op)" rule: local_call.cases) auto
  then obtain rq rs where q: "asks op rq" "n = - Response_get_errno rs"
    "ServeDir_serve S sd [Received (Some rq) True] srv = ([rs], Serving, srv')"
    using served_simple [OF assms(1,2) _ assms(3,4)] by metis
  from serve_one [OF q(3) assms(6)] obtain m1 rc m2 where
    d: "dispatch S sd rq new_response m1 = (rc, rs, m2)" "outcomes m1 = []" "errno m1 = 0"
      "calls m1 = calls srv" "world m1 = world srv" "calls srv' = calls m2" by metis
  from dispatch_did [OF asks_call [OF q(1) assms(5)] d(2,3) assms(7)] d
  show ?thesis
    by (auto simp: did_def q(2) Response_get_errno_def reply_error_def Errno_local_trip split: sum.split)
qed

lemma demo_served:
  "\<exists>srv'. ServeDir_serve quiet_env demo_dir
     [Received (Some (new_request\<lparr>rq_path := Some ''/f'', rq_type := RMDIR\<rparr>)) True] quiet_mach
     = ([new_response\<lparr>rs_type := RMDIR\<rparr>], Serving, srv')"
proof -
  let ?rq = "new_request\<lparr>rq_path := Some ''/f'', rq_type := RMDIR\<rparr>"
  obtain m1 where c: "Response_create quiet_mach = (Some new_response, m1)" "outcomes m1 = []"
    by (simp add: Response_create_def new_response_def Let_def quiet_mach_def heap_simps alloc_ok_def alloc_next_def)
  have r: "requested_call demo_dir ?rq = Some (Sys_rmdir (server_path demo_dir ''/f''))"
    by (simp add: requested_call_def)
  have o: "outcomes (clear_errno m1) = []" "errno (clear_errno m1) = 0" using c(2) by (simp_all add: sys_simps)
  obtain rc m2 where d: "dispatch quiet_env demo_dir ?rq new_response (clear_errno m1)
      = (rc, new_response\<lparr>rs_type := RMDIR\<rparr>, m2)"
    using dispatch_did [OF r o quiet_env_posix(4)]
    by (auto simp: did_def answered_type_def reply_error_def quiet_env_def new_response_def empty_response_def
        split: prod.splits)
  from dispatched.outcome [OF _ d] quiet_env_posix(1) o(1) have "outcomes m2 = []" by simp
  then obtain m3 where p: "Response_pack (new_response\<lparr>rs_type := RMDIR\<rparr>) m2 = (Some (new_response\<lparr>rs_type := RMDIR\<rparr>), m3)"
    by (simp add: Response_pack_def heap_simps)
  show ?thesis
    by (subst ServeDir_serve.simps(3)) (simp add: c(1) answer_def d p Let_def split: prod.split)
qed

theorem remote_operation_witness:
  "\<exists>m0 n m' srv'. Rhizofs_init (answering (new_response\<lparr>rs_type := RMDIR\<rparr>)) True demo_mount = (Some 1, m0)
     \<and> fuse_call (answering (new_response\<lparr>rs_type := RMDIR\<rparr>)) 1 (Fuse_rmdir ''/f'') m0 = Some (n, m')
     \<and> served_by quiet_env demo_dir quiet_mach srv' m0 m' \<and> n = 0 \<and> calls srv' = [Sys_rmdir ''/srv/f'']"
proof -
  let ?r = "new_response\<lparr>rs_type := RMDIR\<rparr>"
  let ?E = "answering ?r"
  obtain m0 where i: "Rhizofs_init ?E True demo_mount = (Some 1, m0)" "ready m0" by (rule demo_init)
  from working_call [OF i(2) answering_works(2,1), of "Fuse_rmdir ''/f''" ?r 1]
  obtain n m' s where c: "fuse_call ?E 1 (Fuse_rmdir ''/f'') m0 = Some (n, m')"
    "n_sent m' = n_sent m0 @ [(s, new_request\<lparr>rq_path := Some ''/f'', rq_type := RMDIR\<rparr>)]"
    "cl_received m' = cl_received m0 @ [?r]" by auto
  from demo_served obtain srv' where "ServeDir_serve quiet_env demo_dir
     [Received (Some (new_request\<lparr>rq_path := Some ''/f'', rq_type := RMDIR\<rparr>)) True] quiet_mach = ([?r], Serving, srv')"
    by blast
  with c have s: "served_by quiet_env demo_dir quiet_mach srv' m0 m'" unfolding served_by_def by blast
  have "client_ok m0" using i(2) by (simp add: ready_def)
  from remote_operation [OF this answering_works(2) c(1) s, of "Sys_rmdir ''/srv/f''"] quiet_env_posix(4) i(1) c(1) s
  show ?thesis
    by (auto simp: quiet_mach_def quiet_env_def server_path_def demo_dir_def joined_def join_adds_separator_def
        simp del: fuse_call.simps)
qed

section \<open>Attributes and data\<close>

text \<open>What the contract of an operation says of one that was served.\<close>

lemma served_contract:
  assumes "op_at ex F 0 R Q m (Some (x, m'))" "served_by S sd srv srv' m m'"
  obtains s rq rs where "rq \<in> R" "Q x m'" "n_sent m' = n_sent m @ [(s, rq)]" "cl_received m' = cl_received m @ [rs]"
    "ServeDir_serve S sd [Received (Some rq) True] srv = ([rs], Serving, srv')"
  using assms by (auto simp: op_at_def served_by_def leaves_def)


text \<open>
  C3: \<open>read\<close> delivers the remote bytes: when a read of less than 2 GiB is served and the system
  opens and reads the file, the caller gets exactly the bytes the system read at that offset, and
  their number, and the server closes the file; compressed or not.
\<close>

theorem remote_read:
  assumes "client_ok m" "forgets E" "Rhizofs_read E t p n offset m = Some ((k, buf), m')"
    and "served_by S sd srv srv' m m'" "outcomes srv = []" "n < 2 ^ 31" "int64 offset = offset"
    and "posix_reads S"
    and "os_call S (Sys_open (server_path sd p) O_RDONLY 0) (world srv) = (Inr fd, w1)" "0 \<le> fd"
    and "c = (if offset = 0 then Sys_read fd n else Sys_pread fd n offset)" "os_read S c w1 = (Inr bytes, w2)"
  shows "buf = bytes \<and> k = int (length bytes)
    \<and> calls srv' = calls srv @ [Sys_open (server_path sd p) O_RDONLY 0, c, Sys_close fd]"
proof -
  let ?rq = "new_request\<lparr>rq_path := Some p, rq_size := Some (int64 (int n)), rq_offset := Some (int64 offset), rq_type := READ\<rparr>"
  obtain rq rs s where q: "rq = ?rq" "data_result (\<lambda>n. (n, [])) (read_outcome n) m (k, buf) m'"
    "n_sent m' = n_sent m @ [(s, rq)]" "cl_received m' = cl_received m @ [rs]"
    "ServeDir_serve S sd [Received (Some rq) True] srv = ([rs], Serving, srv')"
    by (rule served_contract [OF fs_read.contract [OF TrueI assms(1,2), where t = t and path = p and n = n
        and offset = offset, unfolded assms(3)] assms(4)]) auto
  have sz: "int64 (int n) = int n"
    using assms(6) by (simp add: int64_def signed_take_bit_int_eq_self_iff)
  from serve_one [OF q(5) assms(5)] obtain m1 rc m2 where
    d: "dispatch S sd rq new_response m1 = (rc, rs, m2)" "outcomes m1 = []" "world m1 = world srv"
      "calls m1 = calls srv" "calls srv' = calls m2" by metis
  have op: "ServeDir_op_read S sd rq new_response m1 = (rc, rs, m2)" using d(1) by (simp add: q(1) dispatch_def)
  have rq: "rq_path rq = Some p" "rq_size rq = Some (int n)" "rq_offset rq = Some offset"
    using assms(7) sz by (simp_all add: q(1))
  have "0 \<le> int n" "int n < 2 ^ 31" using assms(6) by simp_all
  note R = read_answer_lemma [OF rq this d(2,3) assms(8-10)]
  have "c = (if offset = 0 then Sys_read fd (nat (int n)) else Sys_pread fd (nat (int n)) offset)"
    using assms(11) by simp
  from R [OF this assms(12)] obtain db where
    A: "rs = new_response\<lparr>rs_type := READ, rs_datablock := Some db\<rparr>" "block_holds db bytes"
      "calls m2 = calls m1 @ [Sys_open (server_path sd p) O_RDONLY 0, c, Sys_close fd]"
    unfolding op by blast
  have "read_count c = n" using assms(11) by simp
  then have len: "length bytes \<le> n" "length bytes < 2 ^ 31"
    using assms(8) [unfolded posix_reads_def, rule_format, of c w1 bytes] assms(12) by simp_all
  have "db_size db = int (length bytes)" using A(2) by (simp add: block_holds_def)
  then have "int32 (db_size db) \<noteq> -1" using int32_id [of "int (length bytes)"] len(2) by simp
  then have "read_outcome n rs = (int (length bytes), bytes)"
    using get_data_noalloc_holds [OF A(2) len(2,1), of quiet_heap] by (simp add: read_outcome_def A(1))
  moreover have "Response_get_errno rs = 0"
    by (simp add: A(1) Response_get_errno_def new_response_def empty_response_def)
  ultimately have "(k, buf) = (int (length bytes), bytes)"
    using q(2-4) by (auto simp: data_result_def)
  with A(3) d(4,5) show ?thesis by simp
qed

text \<open>
  C4: \<open>write\<close> writes the remote file: when a write of less than 2 GiB is served, the server opens
  the file for writing, writes exactly the caller's bytes at the caller's offset, closes it and sets
  its times, and the caller gets the number of bytes the system took.
\<close>

theorem remote_write:
  assumes "client_ok m" "forgets E" "Rhizofs_write E t p buf offset m = Some (k, m')"
    and "served_by S sd srv srv' m m'" "outcomes srv = []" "length buf < 2 ^ 31" "int64 offset = offset"
    and "c = Sys_open (server_path sd p) 0x41 0x1B6" "os_call S c (world srv) = (Inr fd, w1)" "0 \<le> fd"
    and "os_call S (Sys_pwrite fd buf offset) w1 = (Inr n, w2)" "0 \<le> n" "n \<le> int (length buf)"
    and "os_call S (Sys_close fd) w2 = (Inr 0, w3)"
  shows "k = n \<and> calls srv' = calls srv @ [c, Sys_pwrite fd buf offset, Sys_close fd,
      Sys_utimes (server_path sd p) (os_now S w3, os_now S w3)]"
proof -
  note P = assms(6)
  obtain rq rs s where q: "\<exists>db. rq = write_request p buf offset\<lparr>rq_datablock := Some db\<rparr> \<and> block_holds db buf"
    "write_ok p m k m'"
    "n_sent m' = n_sent m @ [(s, rq)]" "cl_received m' = cl_received m @ [rs]"
    "ServeDir_serve S sd [Received (Some rq) True] srv = ([rs], Serving, srv')"
    by (rule served_contract [OF fs_write.contract [OF P assms(1,2), where t = t and path = p
        and offset = offset, unfolded assms(3)] assms(4)]) auto
  then obtain db where db: "rq = write_request p buf offset\<lparr>rq_datablock := Some db\<rparr>" "block_holds db buf"
    by blast
  have sz: "int64 (int (length buf)) = int (length buf)"
    using assms(6) by (simp add: int64_def signed_take_bit_int_eq_self_iff)
  from serve_one [OF q(5) assms(5)] obtain m1 rc m2 where
    d: "dispatch S sd rq new_response m1 = (rc, rs, m2)" "outcomes m1 = []" "world m1 = world srv"
      "calls m1 = calls srv" "calls srv' = calls m2" by metis
  have op: "ServeDir_op_write S sd rq new_response m1 = (rc, rs, m2)" using d(1) by (simp add: db(1) dispatch_def)
  have rq: "rq_path rq = Some p" "rq_size rq = Some (int (length buf))" "rq_offset rq = Some offset"
    "rq_datablock rq = Some db" using assms(7) sz by (simp_all add: db(1))
  from write_answer_lemma [OF rq db(2) assms(6) d(2,3) assms(8-14)] op
  have A: "rs = new_response\<lparr>rs_type := WRITE, rs_size := Some n\<rparr>"
    "calls m2 = calls m1 @ [c, Sys_pwrite fd buf offset, Sys_close fd,
      Sys_utimes (server_path sd p) (os_now S w3, os_now S w3)]" by auto
  have "Response_get_errno rs = 0" by (simp add: A(1) Response_get_errno_def new_response_def empty_response_def)
  moreover have "int32 n = n" using assms(6,12,13) int32_id [of n] by simp
  ultimately have "k = n" using q(2-4) by (auto simp: write_ok_def A(1))
  with A(2) d(4,5) show ?thesis by simp
qed

text \<open>Concrete exchanges with the quiet server.\<close>

lemma serve_answer:
  assumes "dispatch S sd rq new_response (clear_errno (alloc_next (alloc_next srv))) = (rc, rs, m2)"
    and "outcomes srv = []" "posix_reads S"
  shows "\<exists>srv'. ServeDir_serve S sd [Received (Some rq) True] srv = ([rs], Serving, srv')"
proof -
  have c: "Response_create srv = (Some new_response, alloc_next (alloc_next srv))"
    using assms(2) by (simp add: Response_create_def new_response_def Let_def heap_simps)
  have "outcomes (clear_errno (alloc_next (alloc_next srv))) = []" using assms(2) by (simp add: sys_simps heap_simps)
  with dispatched.outcome [OF _ assms(1)] assms(3) have "outcomes m2 = []" by simp
  then obtain m3 where p: "Response_pack rs m2 = (Some rs, m3)" by (simp add: Response_pack_def heap_simps)
  show ?thesis
    by (subst ServeDir_serve.simps(3)) (simp add: c answer_def assms(1) p Let_def split: prod.split)
qed

lemma demo_serve_getattr:
  obtains rs srv' where "ServeDir_serve quiet_env demo_dir
      [Received (Some (new_request\<lparr>rq_path := Some ''/f'', rq_type := GETATTR\<rparr>)) True] quiet_mach = ([rs], Serving, srv')"
proof -
  obtain rc rs m2 where "dispatch quiet_env demo_dir (new_request\<lparr>rq_path := Some ''/f'', rq_type := GETATTR\<rparr>)
      new_response (clear_errno (alloc_next (alloc_next quiet_mach))) = (rc, rs, m2)" by (metis prod_cases3)
  from serve_answer [OF this] quiet_env_posix(1) show thesis
    by (auto simp: quiet_mach_def intro: that)
qed


text \<open>A system whose files hold the bytes 5, 6 and 7 and that takes what it is given.\<close>

definition three_env :: "unit env" where
  "three_env = quiet_env\<lparr>os_read := (\<lambda>c w. (Inr (take (read_count c) [5, 6, 7]), w)),
     os_call := (\<lambda>c w. (Inr (case c of Sys_pwrite _ d _ \<Rightarrow> int (length d) | _ \<Rightarrow> 0), w))\<rparr>"

lemma three_env_reads: "posix_reads three_env"
  by (auto simp: posix_reads_def three_env_def)

theorem remote_read_witness:
  "\<exists>rs m0 m' srv'. Rhizofs_init (answering rs) True demo_mount = (Some 1, m0)
     \<and> Rhizofs_read (answering rs) 1 ''/f'' 10 0 m0 = Some ((3, [5, 6, 7]), m')
     \<and> served_by three_env demo_dir quiet_mach srv' m0 m'"
proof -
  let ?rq = "new_request\<lparr>rq_path := Some ''/f'', rq_size := Some (int64 (int 10)), rq_offset := Some (int64 0), rq_type := READ\<rparr>"
  obtain rc rs m2 where d: "dispatch three_env demo_dir ?rq new_response (clear_errno (alloc_next (alloc_next quiet_mach)))
      = (rc, rs, m2)" by (metis prod_cases3)
  from serve_answer [OF this _ three_env_reads] obtain srv' where sv:
    "ServeDir_serve three_env demo_dir [Received (Some ?rq) True] quiet_mach = ([rs], Serving, srv')"
    by (auto simp: quiet_mach_def)
  let ?E = "answering rs"
  obtain m0 where i: "Rhizofs_init ?E True demo_mount = (Some 1, m0)" "ready m0" by (rule demo_init)
  have ok: "client_ok m0" using i(2) by (simp add: ready_def)
  obtain x m' where g: "Rhizofs_read ?E 1 ''/f'' 10 0 m0 = Some (x, m')"
      "cl_received m' = cl_received m0 @ [rs]" "length (n_sent m') = length (n_sent m0) + 1"
    using served_read [OF i(2) answering_works(2) [of rs] answering_works(1) [of rs], of 1 "''/f''" 10 0] by (auto simp: served_def)
  obtain k buf where x: "x = (k, buf)" by fastforce
  from fs_read.keeps [OF TrueI ok answering_works(2) g(1)] g(3)
  obtain s where "n_sent m' = n_sent m0 @ [(s, ?rq)]" by (auto simp: leaves_def)
  with sv g(2) have s: "served_by three_env demo_dir quiet_mach srv' m0 m'" unfolding served_by_def by blast
  have "outcomes quiet_mach = []" "int64 0 = 0" by (simp_all add: quiet_mach_def int64_def)
  from remote_read [OF ok answering_works(2) g(1) [unfolded x] s this(1) _ this(2) three_env_reads,
      of 0 "()" "Sys_read 0 10" "[5, 6, 7]" "()"]
  have "buf = [5, 6, 7] \<and> k = 3" by (simp add: three_env_def quiet_env_def)
  with i(1) g(1) x s show ?thesis by blast
qed

theorem remote_write_witness:
  "\<exists>rs m0 m' srv'. Rhizofs_init (answering rs) True demo_mount = (Some 1, m0)
     \<and> Rhizofs_write (answering rs) 1 ''/f'' [7, 8] 5 m0 = Some (2, m')
     \<and> served_by three_env demo_dir quiet_mach srv' m0 m' \<and> calls srv' = [Sys_open ''/srv/f'' 0x41 0x1B6, Sys_pwrite 0 [7, 8] 5, Sys_close 0,
         Sys_utimes ''/srv/f'' ((0, 0), (0, 0))]"
proof -
  let ?rq = "write_request ''/f'' [7, 8] 5\<lparr>rq_datablock := Some \<lparr>db_size = 2, db_data = [7, 8], db_compression = COMPR_NONE\<rparr>\<rparr>"
  obtain rc rs m2 where d: "dispatch three_env demo_dir ?rq new_response (clear_errno (alloc_next (alloc_next quiet_mach)))
      = (rc, rs, m2)" by (metis prod_cases3)
  from serve_answer [OF this _ three_env_reads] obtain srv' where sv:
    "ServeDir_serve three_env demo_dir [Received (Some ?rq) True] quiet_mach = ([rs], Serving, srv')"
    by (auto simp: quiet_mach_def)
  let ?E = "answering rs"
  obtain m0 where i: "Rhizofs_init ?E True demo_mount = (Some 1, m0)" "ready m0" by (rule demo_init)
  have ok: "client_ok m0" using i(2) by (simp add: ready_def)
  obtain k m' where g: "Rhizofs_write ?E 1 ''/f'' [7, 8] 5 m0 = Some (k, m')"
      "cl_received m' = cl_received m0 @ [rs]" "\<exists>s. n_sent m' = n_sent m0 @ [(s, ?rq)]"
    using write_small_sent [OF i(2) answering_works(2) [of rs] answering_works(1) [of rs], of "[7, 8]" 1 "''/f''" 5] by auto
  with sv have s: "served_by three_env demo_dir quiet_mach srv' m0 m'" unfolding served_by_def by blast
  have o: "outcomes quiet_mach = []" "int64 5 = 5" by (simp_all add: quiet_mach_def int64_def)
  from remote_write [OF ok answering_works(2) g(1) s o(1) _ o(2),
      of "Sys_open (server_path demo_dir ''/f'') 0x41 0x1B6" 0 "()" 2 "()" "()"]
  have "k = 2 \<and> calls srv' = [Sys_open ''/srv/f'' 0x41 0x1B6, Sys_pwrite 0 [7, 8] 5, Sys_close 0,
         Sys_utimes ''/srv/f'' ((0, 0), (0, 0))]"
    by (simp add: three_env_def quiet_env_def quiet_mach_def server_path_def demo_dir_def joined_def
        join_adds_separator_def)
  then have k: "k = 2" and c: "calls srv' = [Sys_open ''/srv/f'' 0x41 0x1B6, Sys_pwrite 0 [7, 8] 5, Sys_close 0,
         Sys_utimes ''/srv/f'' ((0, 0), (0, 0))]" by simp_all
  from i(1) g(1) [unfolded k] s c show ?thesis by blast
qed

end
